(* ===== verification/Prelude.thy ===== *)
theory Prelude
  imports Main "HOL-Library.AList" "HOL-Library.Sublist" "HOL-Library.Word"
begin

text \<open>
  Shared vocabulary of the development.

  \<^item> The collections \<open>go_string\<close> and \<open>go_map\<close> hold the facts about the Go standard library that the
    component proofs pass to the simplifier.
  \<^item> Go strings are byte strings: \<^typ>\<open>string\<close>, whose characters are 8-bit values. The functions of
    package \<open>strings\<close> that the program calls are defined here (\<open>Split\<close>, \<open>Index\<close>, \<open>Contains\<close>,
    \<open>TrimPrefix\<close>, \<open>TrimSuffix\<close>, \<open>Fields\<close>, \<open>Join\<close>).
  \<^item> A Go map is an association list with distinct keys. The order of the list is the order in
    which \<open>range\<close> happens to visit the map, which Go leaves unspecified; statements hold for every
    list, so for every order.
  \<^item> The locale \<open>key_value\<close> is the contract of a map as its clients rely on it, and
    \<open>transition\<close> the contract of a state machine with an inductive invariant; both are
    interpreted on the definitions of the components.
\<close>

named_theorems go_string
named_theorems go_map

section \<open>Results of fallible calls\<close>

text \<open>A Go call that panics is \<open>Panic\<close> with the panic value's text; otherwise it returns.\<close>

datatype 'a outcome = Ret 'a | Panic string

fun bind_outcome :: "'a outcome \<Rightarrow> ('a \<Rightarrow> 'b outcome) \<Rightarrow> 'b outcome" where
  "bind_outcome (Ret x) f = f x"
| "bind_outcome (Panic e) f = Panic e"

lemma bind_outcome_Ret_iff:
  "bind_outcome m f = Ret y \<longleftrightarrow> (\<exists>x. m = Ret x \<and> f x = Ret y)"
  by (cases m) auto

lemma bind_outcome_assoc:
  "bind_outcome (bind_outcome m f) g = bind_outcome m (\<lambda>x. bind_outcome (f x) g)"
  by (cases m) auto

fun map_outcome :: "('a \<Rightarrow> 'b outcome) \<Rightarrow> 'a list \<Rightarrow> 'b list outcome" where
  "map_outcome f [] = Ret []"
| "map_outcome f (x # xs) =
     bind_outcome (f x) (\<lambda>y. bind_outcome (map_outcome f xs) (\<lambda>ys. Ret (y # ys)))"

lemma map_outcome_all_Ret:
  "(\<And>x. x \<in> set xs \<Longrightarrow> f x = Ret (g x)) \<Longrightarrow> map_outcome f xs = Ret (map g xs)"
  by (induction xs) auto

lemma map_outcome_append:
  "map_outcome f (xs @ ys) =
     bind_outcome (map_outcome f xs) (\<lambda>us. bind_outcome (map_outcome f ys) (\<lambda>vs. Ret (us @ vs)))"
  by (induction xs) (auto simp: bind_outcome_assoc, cases "map_outcome f ys", auto)

section \<open>Strings\<close>

text \<open>\<open>strings.Split(s, sep)\<close> for a separator of one byte: never the empty list.\<close>

fun split_on :: "char \<Rightarrow> string \<Rightarrow> string list" where
  "split_on c [] = [[]]"
| "split_on c (x # xs) =
     (if x = c then [] # split_on c xs
      else case split_on c xs of [] \<Rightarrow> [[x]] | p # ps \<Rightarrow> (x # p) # ps)"

text \<open>\<open>strings.Index(s, sub)\<close>: the least position where \<open>sub\<close> occurs; -1 is \<open>None\<close>.\<close>

fun str_index :: "string \<Rightarrow> string \<Rightarrow> nat option" where
  "str_index [] sub = (if sub = [] then Some 0 else None)"
| "str_index (c # cs) sub =
     (if prefix sub (c # cs) then Some 0 else map_option Suc (str_index cs sub))"

definition str_contains :: "string \<Rightarrow> string \<Rightarrow> bool" where
  "str_contains s sub = (str_index s sub \<noteq> None)"

definition trim_suffix :: "string \<Rightarrow> string \<Rightarrow> string" where
  "trim_suffix s suf = (if suffix suf s then take (length s - length suf) s else s)"

definition trim_prefix :: "string \<Rightarrow> string \<Rightarrow> string" where
  "trim_prefix s pre = (if prefix pre s then drop (length pre) s else s)"

text \<open>\<open>strings.Fields\<close> on ASCII input: the maximal runs of bytes that are not white space.\<close>

definition is_space :: "char \<Rightarrow> bool" where
  "is_space c = (c \<in> set [CHR '' '', CHR 0x09, CHR 0x0A, CHR 0x0B, CHR 0x0C, CHR 0x0D])"

fun fields_acc :: "string \<Rightarrow> string \<Rightarrow> string list" where
  "fields_acc w [] = (if w = [] then [] else [w])"
| "fields_acc w (c # cs) =
     (if is_space c then (if w = [] then fields_acc [] cs else w # fields_acc [] cs)
      else fields_acc (w @ [c]) cs)"

definition str_fields :: "string \<Rightarrow> string list" where
  "str_fields s = fields_acc [] s"

fun str_join :: "string list \<Rightarrow> string \<Rightarrow> string" where
  "str_join [] sep = []"
| "str_join [x] sep = x"
| "str_join (x # xs) sep = x @ sep @ str_join xs sep"

lemma split_on_not_Nil [simp]: "split_on c s \<noteq> []"
  by (induction s) (auto split: list.splits)

lemma split_on_absent [go_string]: "c \<notin> set s \<Longrightarrow> split_on c s = [s]"
  by (induction s) auto

lemma split_on_append_sep [go_string]:
  "c \<notin> set s \<Longrightarrow> split_on c (s @ c # t) = s # split_on c t"
  by (induction s) auto

lemma split_on_no_sep: "w \<in> set (split_on c s) \<Longrightarrow> c \<notin> set w"
proof (induction s arbitrary: w)
  case (Cons x xs)
  then show ?case
    by (cases "split_on c xs") (auto split: if_splits)
qed auto

lemma length_split_on: "length (split_on c s) = Suc (count_list s c)"
  by (induction s) (auto split: list.splits)

lemma str_index_Some_iff:
  "str_index s sub = Some i \<longleftrightarrow>
     i \<le> length s \<and> prefix sub (drop i s) \<and> (\<forall>j<i. \<not> prefix sub (drop j s))"
proof (induction s arbitrary: i)
  case Nil
  then show ?case by (auto simp: prefix_def)
next
  case (Cons c cs)
  show ?case
  proof (cases i)
    case 0
    then show ?thesis by auto
  next
    case (Suc k)
    have "(\<forall>j<Suc k. \<not> prefix sub (drop j (c # cs))) \<longleftrightarrow>
      \<not> prefix sub (c # cs) \<and> (\<forall>j<k. \<not> prefix sub (drop j cs))"
      by (auto simp: less_Suc_eq_0_disj)
    with Suc Cons.IH show ?thesis by auto
  qed
qed

lemma str_index_None_iff: "str_index s sub = None \<longleftrightarrow> \<not> sublist sub s"
proof (induction s)
  case (Cons c cs)
  then show ?case by (auto simp: sublist_Cons_right)
qed auto

lemma str_contains_iff [go_string]: "str_contains s sub \<longleftrightarrow> sublist sub s"
  by (simp add: str_contains_def str_index_None_iff)

lemma str_contains_single [simp]: "str_contains s [c] \<longleftrightarrow> c \<in> set s"
  by (simp add: str_contains_iff)
     (metis in_set_conv_decomp sublist_appendI append_Cons append_Nil sublist_def list.set_intros(1)
        set_mono_sublist subsetD)

lemma trim_suffix_append [simp]: "trim_suffix (s @ suf) suf = s"
  by (simp add: trim_suffix_def suffix_def)

lemma trim_prefix_append [simp]: "trim_prefix (pre @ s) pre = s"
  by (simp add: trim_prefix_def)

lemma fields_acc_word:
  "(\<forall>c\<in>set u. \<not> is_space c) \<Longrightarrow> fields_acc w (u @ s) = fields_acc (w @ u) s"
  by (induction u arbitrary: w) auto

lemma str_fields_word [go_string]:
  "\<forall>c\<in>set u. \<not> is_space c \<Longrightarrow> u \<noteq> [] \<Longrightarrow> is_space c \<Longrightarrow>
   str_fields (u @ c # s) = u # str_fields s"
  by (simp add: str_fields_def fields_acc_word)

lemma str_fields_last [go_string]:
  "\<forall>c\<in>set u. \<not> is_space c \<Longrightarrow> u \<noteq> [] \<Longrightarrow> str_fields u = [u]"
  using fields_acc_word [of u "[]" "[]"] by (simp add: str_fields_def)

lemma fields_acc_nonempty: "x \<in> set (fields_acc w s) \<Longrightarrow> x \<noteq> []"
  by (induction w s rule: fields_acc.induct) (auto split: if_splits)

section \<open>Decimal printing\<close>

fun show_nat_acc :: "nat \<Rightarrow> string \<Rightarrow> string" where
  "show_nat_acc n acc =
     (if n < 10 then char_of (48 + n) # acc
      else show_nat_acc (n div 10) (char_of (48 + n mod 10) # acc))"

declare show_nat_acc.simps [simp del]

definition show_nat :: "nat \<Rightarrow> string" where
  "show_nat n = show_nat_acc n []"

definition show_int :: "int \<Rightarrow> string" where
  "show_int i = (if i < 0 then ''-'' @ show_nat (nat (- i)) else show_nat (nat i))"

definition digit_val :: "nat \<Rightarrow> char \<Rightarrow> nat" where
  "digit_val n c = 10 * n + (of_char c - 48)"

lemma digit_val_digit: "d < 10 \<Longrightarrow> digit_val n (char_of (48 + d)) = 10 * n + d"
  by (simp add: digit_val_def take_bit_nat_def)

lemma show_nat_acc_val: "foldl digit_val 0 (show_nat_acc n acc) = foldl digit_val n acc"
  by (induction n acc rule: show_nat_acc.induct) (subst show_nat_acc.simps, simp add: digit_val_digit)

lemma show_nat_inj: "show_nat m = show_nat n \<longleftrightarrow> m = n"
proof
  assume "show_nat m = show_nat n"
  then have "foldl digit_val 0 (show_nat_acc m []) = foldl digit_val 0 (show_nat_acc n [])" by (simp only: show_nat_def)
  then show "m = n" by (simp only: show_nat_acc_val foldl_Nil)
qed simp

section \<open>Go maps\<close>

type_synonym ('k, 'v) gomap = "('k \<times> 'v) list"

definition wf_map :: "('k, 'v) gomap \<Rightarrow> bool" where
  "wf_map m = distinct (map fst m)"

text \<open>The contract of a map as its clients rely on it: what a lookup returns after each operation.\<close>

locale key_value =
  fixes lookup :: "'m \<Rightarrow> 'k \<Rightarrow> 'v option"
    and update :: "'k \<Rightarrow> 'v \<Rightarrow> 'm \<Rightarrow> 'm"
    and delete :: "'k \<Rightarrow> 'm \<Rightarrow> 'm"
    and entries :: "'m \<Rightarrow> ('k \<times> 'v) list"
    and invar :: "'m \<Rightarrow> bool"
  assumes lookup_update: "lookup (update k v m) k' = (if k' = k then Some v else lookup m k')"
    and lookup_delete: "lookup (delete k m) k' = (if k' = k then None else lookup m k')"
    and entries_lookup: "invar m \<Longrightarrow> (k, v) \<in> set (entries m) \<longleftrightarrow> lookup m k = Some v"
    and entries_distinct: "invar m \<Longrightarrow> distinct (map fst (entries m))"
    and invar_update: "invar m \<Longrightarrow> invar (update k v m)"
    and invar_delete: "invar m \<Longrightarrow> invar (delete k m)"
begin

lemma lookup_after_reinsert: "lookup (update k v (delete k m)) = lookup (update k v m)"
  by (auto simp: lookup_update lookup_delete fun_eq_iff)

lemma entries_update:
  "invar m \<Longrightarrow> set (entries (update k v m)) = insert (k, v) {e \<in> set (entries m). fst e \<noteq> k}"
  by (auto simp: entries_lookup invar_update lookup_update split: if_splits)

lemma entries_delete:
  "invar m \<Longrightarrow> set (entries (delete k m)) = {e \<in> set (entries m). fst e \<noteq> k}"
  by (auto simp: entries_lookup invar_delete lookup_delete split: if_splits)

end

lemma wf_map_update [simp, go_map]: "wf_map m \<Longrightarrow> wf_map (AList.update k v m)"
  by (simp add: wf_map_def distinct_update)

lemma wf_map_delete [simp, go_map]: "wf_map m \<Longrightarrow> wf_map (AList.delete k m)"
  by (simp add: wf_map_def distinct_delete)

lemma wf_map_Nil [simp, go_map]: "wf_map []"
  by (simp add: wf_map_def)

lemma map_of_update [simp, go_map]:
  "map_of (AList.update k v m) k' = (if k' = k then Some v else map_of m k')"
  by (simp add: update_conv)

lemma map_of_delete [simp, go_map]:
  "map_of (AList.delete k m) k' = (if k' = k then None else map_of m k')"
  by (simp add: delete_conv)

interpretation gomap: key_value map_of AList.update AList.delete "\<lambda>m. m" wf_map
  by unfold_locales (auto simp: wf_map_def map_of_eq_Some_iff distinct_update distinct_delete)

lemmas go_map_entries [go_map] = gomap.entries_lookup gomap.entries_update gomap.entries_delete

section \<open>Counting\<close>

text \<open>How many elements satisfy a predicate, in any ring a counter may live in.\<close>

abbreviation count_if :: "('a \<Rightarrow> bool) \<Rightarrow> 'a list \<Rightarrow> nat" where
  "count_if P xs \<equiv> length (filter P xs)"

lemma count_if_list_update:
  "i < length xs \<Longrightarrow>
   (of_nat (count_if P (xs[i := y])) :: 'r::comm_ring_1) =
     of_nat (count_if P xs) - of_bool (P (xs ! i)) + of_bool (P y)"
proof (induction xs arbitrary: i)
  case (Cons x xs)
  then show ?case by (cases i) auto
qed simp

lemma count_if_0_iff: "count_if P xs = 0 \<longleftrightarrow> (\<forall>i<length xs. \<not> P (xs ! i))"
  by (simp add: filter_empty_conv all_set_conv_all_nth)

lemma nth_update_if: "i < length xs \<Longrightarrow> xs[j := y] ! i = (if i = j then y else xs ! i)"
  by simp

section \<open>State machines\<close>

text \<open>
  A machine with an inductive invariant: events that are admissible keep it, so it holds after every
  run of such events.
\<close>

locale transition =
  fixes step :: "'s \<Rightarrow> 'e \<Rightarrow> 's"
    and ok :: "'e \<Rightarrow> bool"
    and inv :: "'s \<Rightarrow> bool"
  assumes step_inv: "inv s \<Longrightarrow> ok e \<Longrightarrow> inv (step s e)"
begin

lemma run_inv: "inv s \<Longrightarrow> list_all ok es \<Longrightarrow> inv (foldl step s es)"
  by (induction es arbitrary: s) (auto simp: step_inv)

end

text \<open>A machine whose steps are simulated by those of an abstract one, as long as its invariant holds.\<close>

locale simulation = transition step ok inv
  for step :: "'s \<Rightarrow> 'e \<Rightarrow> 's" and ok inv +
  fixes abs :: "'s \<Rightarrow> 'a"
    and spec :: "'a \<Rightarrow> 'e \<Rightarrow> 'a"
  assumes step_abs: "inv s \<Longrightarrow> ok e \<Longrightarrow> abs (step s e) = spec (abs s) e"
begin

lemma run_abs: "inv s \<Longrightarrow> list_all ok es \<Longrightarrow> abs (foldl step s es) = foldl spec (abs s) es"
  by (induction es arbitrary: s) (auto simp: step_inv step_abs)

end

end
