(* ===== verification/Wildcard.thy ===== *)
theory Wildcard
  imports Prelude
begin

text \<open>
  \<open>WildcardMatch\<close> of \<open>adaptiveservice.go\<close>, the pattern matcher that every lookup by name uses,
  with \<open>matchProvider\<close> of \<open>registry.go\<close>. The matcher cuts the pattern at its stars, checks the first
  and the last piece at the ends of the string and searches the pieces in between greedily.
  The reference \<open>glob\<close> tries every length for every star; the main result is that the two agree.
\<close>

section \<open>The matcher\<close>

text \<open>The loop over the middle segments, each searched from where the one before it ended.\<close>

fun match_middle :: "string list \<Rightarrow> string \<Rightarrow> bool" where
  "match_middle [] str = True"
| "match_middle (part # parts) str =
     (if part = [] then match_middle parts str
      else case str_index str part of
             None \<Rightarrow> False
           | Some index \<Rightarrow> match_middle parts (drop (index + length part) str))"

definition WildcardMatch :: "string \<Rightarrow> string \<Rightarrow> bool" where
  "WildcardMatch pattern str =
     (if pattern = ''*'' then True
      else if pattern = '''' then str = ''''
      else
        let parts = split_on CHR ''*'' pattern in
        if length parts = 1 then pattern = str
        else
          let begin = parts ! 0 in
          if begin \<noteq> '''' \<and> \<not> prefix begin str then False
          else
            let str = (if begin \<noteq> '''' then drop (length begin) str else str);
                end = parts ! (length parts - 1) in
            if end \<noteq> '''' \<and> \<not> suffix end str then False
            else
              let str = (if end \<noteq> '''' then take (length str - length end) str else str) in
              match_middle (take (length parts - 2) (drop 1 parts)) str)"

text \<open>\<open>matchProvider\<close>: no provider ID matches everything, otherwise one pattern has to match.\<close>

definition matchProvider :: "string list \<Rightarrow> string \<Rightarrow> bool" where
  "matchProvider providerIDs target =
     (if length providerIDs = 0 then True
      else list_ex (\<lambda>pid. WildcardMatch pid target) providerIDs)"

section \<open>The reference\<close>

fun glob :: "string \<Rightarrow> string \<Rightarrow> bool" where
  "glob [] s = (s = [])"
| "glob (c # p) s =
     (if c = CHR ''*'' then (\<exists>n\<in>{0..length s}. glob p (drop n s))
      else case s of [] \<Rightarrow> False | d # s' \<Rightarrow> d = c \<and> glob p s')"

text \<open>The language of a pattern cut at its stars, and of the segments between two stars.\<close>

fun segs :: "string list \<Rightarrow> string \<Rightarrow> bool" where
  "segs [] s = False"
| "segs [w] s = (s = w)"
| "segs (w # ws) s = (\<exists>u v. s = w @ u @ v \<and> segs ws v)"

fun mids :: "string list \<Rightarrow> string \<Rightarrow> bool" where
  "mids [] s = True"
| "mids (w # ws) s = (\<exists>u v. s = u @ w @ v \<and> mids ws v)"

lemma segs_Cons: "ws \<noteq> [] \<Longrightarrow> segs (w # ws) s = (\<exists>u v. s = w @ u @ v \<and> segs ws v)"
  by (cases ws) auto

lemma glob_star: "glob (CHR ''*'' # p) s \<longleftrightarrow> (\<exists>u v. s = u @ v \<and> glob p v)"
proof
  assume "glob (CHR ''*'' # p) s"
  then obtain n where "glob p (drop n s)" by auto
  then show "\<exists>u v. s = u @ v \<and> glob p v" by (metis append_take_drop_id)
next
  assume "\<exists>u v. s = u @ v \<and> glob p v"
  then obtain u v where "s = u @ v" "glob p v" by blast
  then have "length u \<in> {0..length s} \<and> glob p (drop (length u) s)" by simp
  then show "glob (CHR ''*'' # p) s" by auto
qed

lemma segs_Cons_char: "segs ((c # w) # ws) s \<longleftrightarrow> (\<exists>t. s = c # t \<and> segs (w # ws) t)"
  by (cases ws) auto

lemma glob_segs: "glob p s \<longleftrightarrow> segs (split_on CHR ''*'' p) s"
proof (induction p arbitrary: s)
  case (Cons c p)
  show ?case
  proof (cases "c = CHR ''*''")
    case True
    then show ?thesis by (simp only: glob_star) (simp add: segs_Cons Cons.IH)
  next
    case False
    obtain w ws where w: "split_on CHR ''*'' p = w # ws"
      by (cases "split_on CHR ''*'' p") auto
    with False show ?thesis
      by (cases s) (auto simp: segs_Cons_char Cons.IH)
  qed
qed simp

lemma segs_mids: "segs (ws @ [e]) s \<longleftrightarrow>
  (case ws of [] \<Rightarrow> s = e | w # ws' \<Rightarrow> \<exists>m. s = w @ m @ e \<and> mids ws' m)"
proof (induction ws arbitrary: s)
  case (Cons w ws)
  note IH = Cons.IH
  show ?case
  proof (cases ws)
    case Nil
    then show ?thesis by simp
  next
    case (Cons w' ws')
    then have "segs ((w # ws) @ [e]) s \<longleftrightarrow> (\<exists>u v. s = w @ u @ v \<and> (\<exists>m. v = w' @ m @ e \<and> mids ws' m))"
      using segs_Cons [of "ws @ [e]" w s] IH by (simp del: segs.simps)
    also have "\<dots> \<longleftrightarrow> (\<exists>m. s = w @ m @ e \<and> mids ws m)"
      unfolding Cons by (simp, metis append.assoc)
    finally show ?thesis by simp
  qed
qed simp

section \<open>Greedy search is complete\<close>

lemma mids_prepend: "mids ws v \<Longrightarrow> mids ws (u @ v)"
  by (cases ws) (auto, metis append.assoc)

lemma mids_Nil_seg: "mids ([] # ws) s \<longleftrightarrow> mids ws s"
  by (auto intro: mids_prepend)

lemma mids_greedy:
  assumes "str_index s w = Some i"
  shows "mids (w # ws) s \<longleftrightarrow> mids ws (drop (i + length w) s)"
proof
  from assms have i: "i \<le> length s" "prefix w (drop i s)" "\<And>j. j < i \<Longrightarrow> \<not> prefix w (drop j s)"
    by (auto simp: str_index_Some_iff)
  {
    assume "mids (w # ws) s"
    then obtain u v where uv: "s = u @ w @ v" "mids ws v" by auto
    then have "i \<le> length u" using i(3) [of "length u"] by (cases "length u < i") auto
    then have "drop (i + length w) s = drop (i + length w) (u @ w) @ v" using uv(1) by simp
    with uv(2) show "mids ws (drop (i + length w) s)" by (metis mids_prepend)
  }
  assume "mids ws (drop (i + length w) s)"
  moreover from i(2) have "s = take i s @ w @ drop (i + length w) s"
    by (metis add.commute append_eq_conv_conj append_take_drop_id drop_drop prefix_def)
  ultimately show "mids (w # ws) s" by (metis mids.simps(2))
qed

lemma match_middle_mids: "match_middle ws s \<longleftrightarrow> mids ws s"
proof (induction ws arbitrary: s)
  case (Cons w ws)
  show ?case
  proof (cases "str_index s w")
    case None
    then have "\<not> mids (w # ws) s" by (auto simp: str_index_None_iff)
    with None show ?thesis using Cons.IH by (auto simp: mids_prepend)
  next
    case (Some i)
    show ?thesis
    proof (cases "w = []")
      case True
      then show ?thesis by (simp add: Cons.IH mids_Nil_seg del: mids.simps)
    next
      case False
      with Some show ?thesis by (simp add: Cons.IH mids_greedy [OF Some] del: mids.simps)
    qed
  qed
qed simp

lemma split_on_ends:
  assumes "length (split_on c p) \<noteq> 1"
  obtains b ms e where "split_on c p = b # ms @ [e]"
  using assms by (metis One_nat_def append_butlast_last_id length_Cons list.exhaust list.size(3)
      split_on_not_Nil)

lemma strip_ends:
  "(prefix b s \<and> suffix e (drop (length b) s) \<and>
    match_middle ms (take (length s - length b - length e) (drop (length b) s)))
   \<longleftrightarrow> (\<exists>m. s = b @ m @ e \<and> mids ms m)"
  by (auto simp: match_middle_mids prefix_def suffix_def)

lemma WildcardMatch_ends:
  assumes "split_on CHR ''*'' p = b # ms @ [e]"
  shows "WildcardMatch p s \<longleftrightarrow> (\<exists>m. s = b @ m @ e \<and> mids ms m)"
proof (cases "p = ''*'' \<or> p = ''''")
  case True
  with assms show ?thesis by (auto simp: WildcardMatch_def)
next
  case False
  with assms have "WildcardMatch p s \<longleftrightarrow>
      (prefix b s \<and> suffix e (drop (length b) s) \<and>
       match_middle ms (take (length s - length b - length e) (drop (length b) s)))"
    by (auto simp: WildcardMatch_def Let_def nth_append)
  then show ?thesis by (simp only: strip_ends)
qed

lemma split_on_single: "split_on c p = [w] \<Longrightarrow> w = p \<and> c \<notin> set p"
  using length_split_on [of c p] split_on_absent [of c p] by (auto simp: count_list_0_iff)

lemma WildcardMatch_literal: "CHR ''*'' \<notin> set p \<Longrightarrow> WildcardMatch p s \<longleftrightarrow> p = s"
  by (auto simp: WildcardMatch_def split_on_absent)

lemma glob_WildcardMatch: "WildcardMatch pattern str \<longleftrightarrow> glob pattern str"
proof (cases "length (split_on CHR ''*'' pattern) = 1")
  case True
  then obtain w where w: "split_on CHR ''*'' pattern = [w]"
    by (auto simp: length_Suc_conv)
  then have "CHR ''*'' \<notin> set pattern" "w = pattern" by (simp_all add: split_on_single)
  with w show ?thesis by (auto simp: WildcardMatch_literal glob_segs)
next
  case False
  then obtain b ms e where "split_on CHR ''*'' pattern = b # ms @ [e]"
    by (rule split_on_ends)
  then show ?thesis
    using segs_mids [of "b # ms" e str] by (simp add: WildcardMatch_ends glob_segs)
qed

lemma WildcardMatch_self: "WildcardMatch p p"
proof -
  have "glob q q" for q
  proof (induction q)
    case (Cons c q)
    then have "glob (CHR ''*'' # q) (c # q)" by (simp only: glob_star) (metis append_Cons append_Nil)
    with Cons show ?case by (cases "c = CHR ''*''") auto
  qed simp
  then show ?thesis by (simp add: glob_WildcardMatch)
qed

text \<open>
  C5. \<open>WildcardMatch\<close> decides exactly the glob language of its pattern, in which a star stands for
  any string, the empty one included, and every other byte for itself: the shortcuts for the
  patterns \<open>*\<close> and the empty one, the two anchored ends and the greedy search in the middle
  neither accept nor reject a string wrongly. \<open>matchProvider\<close> accepts a target exactly when no
  provider was named or one of the named patterns denotes it.
\<close>

theorem WildcardMatch_glob:
  "(WildcardMatch pattern str \<longleftrightarrow> glob pattern str) \<and>
   (matchProvider providerIDs str \<longleftrightarrow>
      providerIDs = [] \<or> (\<exists>pid. pid \<in> set providerIDs \<and> glob pid str))"
  by (auto simp: glob_WildcardMatch matchProvider_def list_ex_iff)

end
