(* ===== verification/Naming.thy ===== *)
theory Naming
  imports Wildcard
begin

text \<open>
  Names and addresses of services: the \<open>publisher_service\<close> key (\<open>toPublisherServiceName\<close>,
  \<open>fromPublisherServiceName\<close>), the address of a unix domain socket (\<open>toUDSAddr\<close>, \<open>fromUDSAddr\<close>) and the
  naming rule that \<open>Publish\<close> and \<open>SetPublisher\<close> enforce (\<open>checkNameConvention\<close>). The locale \<open>codec\<close>
  is the contract that makes a printed name usable as a key: what was printed is read back, hence
  two names never collide.
\<close>

unbundle bit_operations_syntax

section \<open>Constants\<close>

definition BuiltinPublisher :: string where
  "BuiltinPublisher = ''builtin''"

type_synonym Scope = "16 word"

definition ScopeProcess :: Scope where "ScopeProcess = 1"
definition ScopeOS :: Scope where "ScopeOS = 2"
definition ScopeLAN :: Scope where "ScopeLAN = 4"
definition ScopeWAN :: Scope where "ScopeWAN = 8"
definition ScopeNetwork :: Scope where "ScopeNetwork = ScopeLAN OR ScopeWAN"
definition ScopeAll :: Scope where "ScopeAll = ScopeProcess OR ScopeOS OR ScopeLAN OR ScopeWAN"

definition in_scope :: "Scope \<Rightarrow> Scope \<Rightarrow> bool" where
  "in_scope s x \<longleftrightarrow> s AND x = x"

definition asTmpDir :: string where
  "asTmpDir = ''/tmp/adaptiveservice''"

definition udsRegistryAnon :: string where
  "udsRegistryAnon = ''@adaptiveservice/''"

definition udsRegistryDir :: string where
  "udsRegistryDir = asTmpDir @ ''/sockets/''"

section \<open>Definitions\<close>

definition toPublisherServiceName :: "string \<Rightarrow> string \<Rightarrow> string" where
  "toPublisherServiceName publisherName serviceName = publisherName @ ''_'' @ serviceName"

definition fromPublisherServiceName :: "string \<Rightarrow> (string \<times> string) outcome" where
  "fromPublisherServiceName name =
     (let strs = split_on CHR ''_'' name in
      if length strs \<noteq> 2 then Panic ''Bad PublisherServiceName''
      else Ret (strs ! 0, strs ! 1))"

definition toUDSAddr :: "string \<Rightarrow> string \<Rightarrow> bool \<Rightarrow> string \<Rightarrow> string" where
  "toUDSAddr publisherName serviceName useNamedUDS pid =
     (let udsRegistry = udsRegistryAnon;
          udsRegistry =
            (if useNamedUDS
             then (if length pid \<noteq> 0 then udsRegistryDir @ pid @ ''/'' else udsRegistryDir)
             else udsRegistry)
      in udsRegistry @ toPublisherServiceName publisherName serviceName @ ''.sock'')"

text \<open>\<open>filepath.Base\<close> for the separator \<open>/\<close>.\<close>

definition filepath_Base :: "string \<Rightarrow> string" where
  "filepath_Base path =
     (if path = [] then ''.''
      else
        let p = rev (dropWhile (\<lambda>c. c = CHR ''/'') (rev path)) in
        if p = [] then ''/'' else rev (takeWhile (\<lambda>c. c \<noteq> CHR ''/'') (rev p)))"

definition fromUDSAddr :: "string \<Rightarrow> (string \<times> string) outcome" where
  "fromUDSAddr addr =
     (let baseName = filepath_Base addr;
          name = trim_suffix baseName ''.sock''
      in fromPublisherServiceName name)"

text \<open>\<open>checkNameConvention\<close> returns an error (\<open>Some\<close>) when the name holds a forbidden byte.\<close>

definition checkNameConvention :: "string \<Rightarrow> string option" where
  "checkNameConvention name =
     (if list_ex (\<lambda>c. c \<in> set [CHR ''_'', CHR ''/'', CHR '' '', CHR 0x0A, CHR 0x0D, CHR 0x09]) name
      then Some ''name should not contain _ or / or whitespace''
      else None)"

record errServiceNotFound =
  esn_publisher :: string
  esn_service :: string

definition ErrServiceNotFound :: "string \<Rightarrow> string \<Rightarrow> errServiceNotFound" where
  "ErrServiceNotFound publisher service = \<lparr>esn_publisher = publisher, esn_service = service\<rparr>"

definition errServiceNotFound_Error :: "errServiceNotFound \<Rightarrow> string" where
  "errServiceNotFound_Error e =
     ''service not found: '' @ toPublisherServiceName (esn_publisher e) (esn_service e)"

text \<open>A name the convention accepts.\<close>

abbreviation valid_name :: "string \<Rightarrow> bool" where
  "valid_name n \<equiv> checkNameConvention n = None"

section \<open>Codecs\<close>

locale codec =
  fixes enc :: "'a \<Rightarrow> string"
    and dec :: "string \<Rightarrow> 'a outcome"
    and ok :: "'a \<Rightarrow> bool"
  assumes dec_enc: "ok x \<Longrightarrow> dec (enc x) = Ret x"
begin

lemma enc_inj_on: "inj_on enc {x. ok x}"
  by (rule inj_onI) (metis dec_enc mem_Collect_eq outcome.inject(1))

lemma map_dec_enc: "list_all ok xs \<Longrightarrow> map_outcome (\<lambda>x. dec (enc x)) xs = Ret xs"
  by (induction xs) (auto simp: dec_enc)

end

lemma valid_nameD:
  "valid_name n \<Longrightarrow> CHR ''_'' \<notin> set n"
  "valid_name n \<Longrightarrow> CHR ''/'' \<notin> set n"
  "valid_name n \<Longrightarrow> CHR '' '' \<notin> set n"
  "valid_name n \<Longrightarrow> CHR 0x0A \<notin> set n"
  by (auto simp: checkNameConvention_def list_ex_iff split: if_splits)

lemma fromPublisherServiceName_Ret_iff:
  "fromPublisherServiceName name = Ret (p, s) \<longleftrightarrow>
     name = toPublisherServiceName p s \<and> CHR ''_'' \<notin> set p \<and> CHR ''_'' \<notin> set s"
proof
  assume r: "fromPublisherServiceName name = Ret (p, s)"
  then have two: "length (split_on CHR ''_'' name) = 2"
    by (auto simp: fromPublisherServiceName_def Let_def split: if_splits)
  then have "CHR ''_'' \<in> set name"
    by (metis One_nat_def count_list_0_iff length_split_on n_not_Suc_n numeral_2_eq_2)
  then obtain u v where uv: "name = u @ CHR ''_'' # v" "CHR ''_'' \<notin> set u"
    by (metis split_list_first)
  with two have "length (split_on CHR ''_'' v) = 1" by (simp add: go_string)
  then have "CHR ''_'' \<notin> set v" by (simp add: length_split_on count_list_0_iff)
  with uv r show "name = toPublisherServiceName p s \<and> CHR ''_'' \<notin> set p \<and> CHR ''_'' \<notin> set s"
    by (auto simp: fromPublisherServiceName_def toPublisherServiceName_def go_string)
qed (auto simp: fromPublisherServiceName_def toPublisherServiceName_def go_string)

lemma from_toPublisherServiceName:
  "valid_name p \<Longrightarrow> valid_name s \<Longrightarrow>
   fromPublisherServiceName (toPublisherServiceName p s) = Ret (p, s)"
  by (simp add: fromPublisherServiceName_Ret_iff valid_nameD)

lemma filepath_Base_dir:
  assumes "CHR ''/'' \<notin> set f" and "f \<noteq> []"
  shows "filepath_Base (d @ ''/'' @ f) = f"
proof -
  have "dropWhile (\<lambda>c. c = CHR ''/'') (rev f @ u) = rev f @ u" for u
    using assms by (cases f rule: rev_cases) auto
  moreover have "takeWhile (\<lambda>c. c \<noteq> CHR ''/'') (rev f @ CHR ''/'' # rev d) = rev f"
    using assms(1) by (simp add: takeWhile_append)
  ultimately show ?thesis using assms by (simp add: filepath_Base_def Let_def)
qed

lemma toUDSAddr_dir:
  "toUDSAddr p s n i =
     (if n then (if i \<noteq> [] then udsRegistryDir @ i else asTmpDir @ ''/sockets'') else ''@adaptiveservice'')
     @ ''/'' @ toPublisherServiceName p s @ ''.sock''"
  by (simp add: toUDSAddr_def udsRegistryDir_def udsRegistryAnon_def)

lemma filepath_Base_toUDSAddr:
  "valid_name p \<Longrightarrow> valid_name s \<Longrightarrow>
   filepath_Base (toUDSAddr p s n i) = toPublisherServiceName p s @ ''.sock''"
  unfolding toUDSAddr_dir
  by (rule filepath_Base_dir) (auto simp: toPublisherServiceName_def dest: valid_nameD)

lemma from_toUDSAddr:
  "valid_name p \<Longrightarrow> valid_name s \<Longrightarrow> fromUDSAddr (toUDSAddr p s n i) = Ret (p, s)"
  by (simp add: fromUDSAddr_def filepath_Base_toUDSAddr from_toPublisherServiceName)

interpretation service_name: codec "case_prod toPublisherServiceName" fromPublisherServiceName
  "\<lambda>(p, s). valid_name p \<and> valid_name s"
  by unfold_locales (auto simp: from_toPublisherServiceName)

interpretation uds_addr: codec "\<lambda>(p, s). toUDSAddr p s n i" fromUDSAddr
  "\<lambda>(p, s). valid_name p \<and> valid_name s" for n i
  by unfold_locales (auto simp: from_toUDSAddr)

section \<open>Properties\<close>

text \<open>
  \<open>fromPublisherServiceName\<close> returns a pair exactly on the keys \<open>toPublisherServiceName\<close> builds from
  two underscore-free names, and then that pair: on the names the convention accepts it is the
  inverse, and on every other key (no underscore, or more than one) it panics.
\<close>

theorem publisherServiceName_roundtrip:
  "(fromPublisherServiceName name = Ret (p, s) \<longleftrightarrow>
      name = toPublisherServiceName p s \<and> CHR ''_'' \<notin> set p \<and> CHR ''_'' \<notin> set s) \<and>
   (fromPublisherServiceName name = Panic ''Bad PublisherServiceName'' \<longleftrightarrow>
      count_list name (CHR ''_'') \<noteq> 1)"
  by (auto simp: fromPublisherServiceName_Ret_iff)
     (auto simp: fromPublisherServiceName_def length_split_on Let_def split: if_splits)

text \<open>
  The unix socket address of a service whose two names obey the convention gives the names
  back, for anonymous and for named sockets and whatever the provider directory, so two services
  published under one directory never share an address.
\<close>

theorem UDSAddr_roundtrip:
  assumes "valid_name p" and "valid_name s"
  shows "fromUDSAddr (toUDSAddr p s useNamedUDS pid) = Ret (p, s) \<and>
    (valid_name p' \<longrightarrow> valid_name s' \<longrightarrow>
     toUDSAddr p s useNamedUDS pid = toUDSAddr p' s' useNamedUDS pid \<longrightarrow> p = p' \<and> s = s')"
  using assms uds_addr.enc_inj_on [of useNamedUDS pid]
  by (auto simp: from_toUDSAddr inj_on_def)

theorem UDSAddr_roundtrip_witness:
  "fromUDSAddr (toUDSAddr ''example'' ''hello'' True ''00ab'') = Ret (''example'', ''hello'')"
  using UDSAddr_roundtrip [of "''example''" "''hello''" True "''00ab''"]
  by (simp add: checkNameConvention_def)

end
