(* ===== verification/LocalRegistry.thy ===== *)
theory LocalRegistry
  imports Naming
begin

text \<open>
  The two registries a host keeps of its own services (\<open>registry.go\<close>): the table of channel
  transports inside the process (\<open>chanRegistry\<close>) and the unix sockets of the operating system, found
  in \<open>/proc/net/unix\<close> (anonymous sockets) and below \<open>/tmp/adaptiveservice/sockets\<close> (named ones).
  The operating system is an argument: the text of the proc file, and a record of what \<open>os.ReadDir\<close>,
  \<open>os.Stat\<close> and \<open>filepath.Glob\<close> answer. The panic of \<open>fromPublisherServiceName\<close> is kept.
\<close>

record ServiceInfo =
  Publisher :: string
  Service :: string
  ProviderID :: string
  Addr :: string

abbreviation mkServiceInfo :: "string \<Rightarrow> string \<Rightarrow> string \<Rightarrow> string \<Rightarrow> ServiceInfo" where
  "mkServiceInfo p s pid a \<equiv> \<lparr>Publisher = p, Service = s, ProviderID = pid, Addr = a\<rparr>"

section \<open>Services of the process\<close>

type_synonym 'ct chanTable = "(string, 'ct) gomap"

definition regServiceChan ::
  "string \<Rightarrow> string \<Rightarrow> 'ct \<Rightarrow> 'ct chanTable \<Rightarrow> 'ct chanTable outcome" where
  "regServiceChan publisherName serviceName ct table =
     (let name = toPublisherServiceName publisherName serviceName in
      case map_of table name of
        Some _ \<Rightarrow> Panic (''registering duplicated channel for '' @ name)
      | None \<Rightarrow> Ret (AList.update name ct table))"

definition delServiceChan :: "string \<Rightarrow> string \<Rightarrow> 'ct chanTable \<Rightarrow> 'ct chanTable" where
  "delServiceChan publisherName serviceName table =
     (let name = toPublisherServiceName publisherName serviceName in AList.delete name table)"

definition serviceNamesInProcess :: "string \<Rightarrow> string \<Rightarrow> 'ct chanTable \<Rightarrow> string list" where
  "serviceNamesInProcess publisherName serviceName table =
     (let name = toPublisherServiceName publisherName serviceName in
      if str_contains name ''*''
      then filter (\<lambda>ctname. WildcardMatch name ctname) (map fst table)
      else case map_of table name of Some ct \<Rightarrow> [name] | None \<Rightarrow> [])"

definition queryServiceProcess ::
  "string \<Rightarrow> string \<Rightarrow> 'ct chanTable \<Rightarrow> ServiceInfo list outcome" where
  "queryServiceProcess publisherName serviceName table =
     (let names = serviceNamesInProcess publisherName serviceName table in
      map_outcome (\<lambda>name. bind_outcome (fromPublisherServiceName name)
        (\<lambda>(pName, sName). Ret (mkServiceInfo pName sName ''self'' ''internal''))) names)"

record ('c, 'ct) clientChanTransport =
  owner :: 'c
  ct :: 'ct

definition lookupServiceChan ::
  "'c \<Rightarrow> string \<Rightarrow> string \<Rightarrow> 'ct chanTable \<Rightarrow> ('c, 'ct) clientChanTransport list" where
  "lookupServiceChan c publisherName serviceName table =
     (let names = serviceNamesInProcess publisherName serviceName table in
      List.map_filter (\<lambda>name. case map_of table name of
          Some t \<Rightarrow> Some \<lparr>owner = c, ct = t\<rparr>
        | None \<Rightarrow> None) names)"

text \<open>The well-formed tables: distinct keys, each the key of two names the convention accepts.\<close>

definition wf_chanTable :: "'ct chanTable \<Rightarrow> bool" where
  "wf_chanTable table \<longleftrightarrow>
     wf_map table \<and>
     (\<forall>name\<in>set (map fst table).
        \<exists>p s. valid_name p \<and> valid_name s \<and> name = toPublisherServiceName p s)"

section \<open>Anonymous unix sockets\<close>

text \<open>The lines \<open>ReadString\<close> returns without an error: those that end in a newline.\<close>

definition terminated_lines :: "string \<Rightarrow> string list" where
  "terminated_lines b = butlast (split_on CHR 0x0A b)"

definition anon_name :: "string \<Rightarrow> string" where
  "anon_name addr = trim_suffix (trim_prefix addr udsRegistryAnon) ''.sock''"

fun scan_unix :: "string \<Rightarrow> string list \<Rightarrow> string list \<Rightarrow> string list" where
  "scan_unix tName seen [] = []"
| "scan_unix tName seen (line # lines) =
     (let fs = str_fields line in
      if length fs = 8 then
        (let addr = fs ! 7 in
         if str_contains addr udsRegistryAnon then
           (let name = anon_name addr in
            if name \<in> set seen then scan_unix tName seen lines
            else if WildcardMatch tName name then addr # scan_unix tName (name # seen) lines
            else scan_unix tName (name # seen) lines)
         else scan_unix tName seen lines)
      else scan_unix tName seen lines)"

text \<open>\<open>None\<close> stands for a proc file that cannot be opened or read.\<close>

definition lookupServiceUDSAnon :: "string option \<Rightarrow> string \<Rightarrow> string \<Rightarrow> string list" where
  "lookupServiceUDSAnon procNetUnix publisherName serviceName =
     (let tName = toPublisherServiceName publisherName serviceName in
      case procNetUnix of
        None \<Rightarrow> []
      | Some b \<Rightarrow> scan_unix tName [] (drop 1 (terminated_lines b)))"

section \<open>Named unix sockets\<close>

datatype stat_result = StatOK | StatNotExist | StatError

record os_files =
  readDir :: "(string \<times> bool) list option"
  stat :: "string \<Rightarrow> stat_result"
  glob_files :: "string \<Rightarrow> string list"

definition uds_dir_entry ::
  "os_files \<Rightarrow> string \<Rightarrow> string \<Rightarrow> string list \<Rightarrow> string \<times> bool \<Rightarrow> ServiceInfo list outcome" where
  "uds_dir_entry fs publisherName serviceName providerIDs entry =
     (let tName = toPublisherServiceName publisherName serviceName;
          wildcardName = str_contains tName ''*'';
          eName = fst entry in
      if snd entry then
        (let providerID = eName in
         if \<not> matchProvider providerIDs providerID then Ret []
         else if \<not> wildcardName then
           (let addr = toUDSAddr publisherName serviceName True providerID in
            if stat fs addr = StatOK
            then Ret [mkServiceInfo publisherName serviceName providerID addr] else Ret [])
         else
           (let sockets = glob_files fs (udsRegistryDir @ providerID @ ''/*.sock'') in
            map_outcome (\<lambda>addr.
              bind_outcome (fromPublisherServiceName (trim_suffix (filepath_Base addr) ''.sock''))
                (\<lambda>(pName, sName). Ret (mkServiceInfo pName sName providerID addr)))
              (filter (\<lambda>addr. WildcardMatch tName (trim_suffix (filepath_Base addr) ''.sock'')) sockets)))
      else if suffix ''.sock'' eName then
        bind_outcome (fromUDSAddr eName) (\<lambda>(pName, sName).
          if WildcardMatch tName (toPublisherServiceName pName sName)
          then Ret [mkServiceInfo pName sName ''self'' (udsRegistryDir @ eName)] else Ret [])
      else Ret [])"

text \<open>\<open>selfID\<close> is what \<open>GetSelfProviderID\<close> returns, \<open>None\<close> for its error.\<close>

definition lookupServiceUDSDir ::
  "os_files \<Rightarrow> string option \<Rightarrow> string \<Rightarrow> string \<Rightarrow> string list \<Rightarrow> ServiceInfo list outcome" where
  "lookupServiceUDSDir fs selfID publisherName serviceName providerIDs =
     (case readDir fs of
        None \<Rightarrow> Ret []
      | Some entries \<Rightarrow>
          if length entries = 0 then Ret []
          else
            let tName = toPublisherServiceName publisherName serviceName;
                wildcardName = str_contains tName ''*'' in
            if \<not> wildcardName \<and> length providerIDs = 0 then
              (let providerID = (case selfID of Some i \<Rightarrow> i | None \<Rightarrow> ''NA'');
                   addr = toUDSAddr publisherName serviceName True providerID in
               if stat fs addr = StatNotExist then Ret []
               else Ret [mkServiceInfo publisherName serviceName ''self'' addr])
            else
              bind_outcome
                (map_outcome (uds_dir_entry fs publisherName serviceName providerIDs) entries)
                (\<lambda>infos. Ret (concat infos)))"

definition queryServiceOS ::
  "string option \<Rightarrow> os_files \<Rightarrow> string option \<Rightarrow> string \<Rightarrow> string \<Rightarrow> ServiceInfo list outcome" where
  "queryServiceOS procNetUnix fs selfID publisherName serviceName =
     (let addrs = lookupServiceUDSAnon procNetUnix publisherName serviceName in
      bind_outcome
        (map_outcome (\<lambda>addr. bind_outcome (fromUDSAddr addr)
           (\<lambda>(pName, sName). Ret (mkServiceInfo pName sName ''self'' addr))) addrs)
        (\<lambda>anon. bind_outcome (lookupServiceUDSDir fs selfID publisherName serviceName [])
           (\<lambda>named. Ret (anon @ named))))"

section \<open>The process registry\<close>

lemma map_of_Some_fst: "map_of m k = Some v \<Longrightarrow> k \<in> fst ` set m"
  by (metis domI dom_map_of_conv_image_fst)

lemma names_mem_iff:
  "name \<in> set (serviceNamesInProcess p s table) \<longleftrightarrow>
     WildcardMatch (toPublisherServiceName p s) name \<and> (\<exists>t. map_of table name = Some t)"
proof (cases "CHR ''*'' \<in> set (toPublisherServiceName p s)")
  case True
  then show ?thesis
    by (auto simp: serviceNamesInProcess_def Let_def map_of_Some_fst weak_map_of_SomeI)
next
  case False
  then show ?thesis
    by (cases "map_of table (toPublisherServiceName p s)")
       (auto simp: serviceNamesInProcess_def Let_def WildcardMatch_literal)
qed

lemma lookupServiceChan_mem_iff:
  "x \<in> set (lookupServiceChan c p s table) \<longleftrightarrow>
     (\<exists>name t. x = \<lparr>owner = c, ct = t\<rparr> \<and> map_of table name = Some t \<and>
        WildcardMatch (toPublisherServiceName p s) name)"
  by (force simp: lookupServiceChan_def Let_def List.map_filter_def names_mem_iff
      split: option.splits)

lemma wf_chanTable_update:
  "wf_chanTable table \<Longrightarrow> valid_name p \<Longrightarrow> valid_name s \<Longrightarrow>
   wf_chanTable (AList.update (toPublisherServiceName p s) t table)"
  by (auto simp: wf_chanTable_def update_keys)

lemma wf_chanTable_delete: "wf_chanTable table \<Longrightarrow> wf_chanTable (AList.delete name table)"
  by (auto simp: wf_chanTable_def delete_keys)

lemma wf_chanTable_key:
  "wf_chanTable table \<Longrightarrow> map_of table name = Some t \<Longrightarrow>
   \<exists>p s. valid_name p \<and> valid_name s \<and> name = toPublisherServiceName p s"
  by (auto simp: wf_chanTable_def dest: map_of_Some_fst)

lemma wf_chanTable_from:
  "wf_chanTable table \<Longrightarrow> map_of table name = Some t \<Longrightarrow> \<exists>ps. fromPublisherServiceName name = Ret ps"
  using wf_chanTable_key [of table name t] from_toPublisherServiceName by blast

definition process_info :: "string \<Rightarrow> ServiceInfo" where
  "process_info name =
     (case fromPublisherServiceName name of
        Ret (p, s) \<Rightarrow> mkServiceInfo p s ''self'' ''internal''
      | Panic e \<Rightarrow> mkServiceInfo [] [] [] [])"

lemma queryServiceProcess_wf:
  assumes "wf_chanTable table"
  shows "queryServiceProcess p s table = Ret (map process_info (serviceNamesInProcess p s table))"
  unfolding queryServiceProcess_def Let_def
proof (rule map_outcome_all_Ret)
  fix name
  assume "name \<in> set (serviceNamesInProcess p s table)"
  with assms wf_chanTable_from [of table name] obtain ps where "fromPublisherServiceName name = Ret ps"
    by (auto simp: names_mem_iff)
  then show "bind_outcome (fromPublisherServiceName name)
      (\<lambda>(pName, sName). Ret (mkServiceInfo pName sName ''self'' ''internal'')) = Ret (process_info name)"
    by (cases ps) (simp add: process_info_def)
qed

section \<open>Anonymous sockets\<close>

text \<open>The addresses listed by the proc file that belong to this framework.\<close>

definition socket_addrs :: "string list \<Rightarrow> string list" where
  "socket_addrs lines =
     map (\<lambda>line. str_fields line ! 7)
       (filter (\<lambda>line. length (str_fields line) = 8 \<and>
          str_contains (str_fields line ! 7) udsRegistryAnon) lines)"

lemma socket_addrs_Cons:
  "socket_addrs (line # lines) =
     (if length (str_fields line) = 8 \<and> str_contains (str_fields line ! 7) udsRegistryAnon
      then str_fields line ! 7 # socket_addrs lines else socket_addrs lines)"
  by (simp add: socket_addrs_def)

lemma scan_unix_subset: "set (scan_unix t seen lines) \<subseteq> set (socket_addrs lines)"
  by (induction lines arbitrary: seen) (auto simp: Let_def socket_addrs_Cons dest: subsetD)

lemma scan_unix_names:
  "anon_name ` set (scan_unix t seen lines) =
     {n \<in> anon_name ` set (socket_addrs lines). n \<notin> set seen \<and> WildcardMatch t n}"
proof (induction lines arbitrary: seen)
  case Nil
  then show ?case by (simp add: socket_addrs_def)
next
  case (Cons line lines)
  then show ?case by (auto simp: Let_def socket_addrs_Cons)
qed

lemma scan_unix_distinct: "distinct (map anon_name (scan_unix t seen lines))"
proof (induction lines arbitrary: seen)
  case (Cons line lines)
  have "anon_name (str_fields line ! 7) \<notin>
      anon_name ` set (scan_unix t (anon_name (str_fields line ! 7) # seen) lines)"
    by (subst scan_unix_names) simp
  with Cons show ?case by (auto simp: Let_def)
qed simp

lemma anon_name_toUDSAddr: "anon_name (toUDSAddr p s False i) = toPublisherServiceName p s"
  by (simp add: anon_name_def toUDSAddr_def)

section \<open>Properties\<close>

text \<open>
  Publishing a service in the process: on a well-formed table without the service the
  registration succeeds and keeps the table well formed; afterwards a lookup by names or wildcards
  finds what it found before plus the new transport, exactly when the pattern denotes the new key;
  registering the same service again panics; deleting it restores every lookup; and the query for
  the lister never panics.
\<close>

theorem process_registry:
  assumes "wf_chanTable table" and "valid_name p" and "valid_name s"
    and "map_of table (toPublisherServiceName p s) = None"
  shows "\<exists>table'. regServiceChan p s t table = Ret table' \<and> wf_chanTable table' \<and>
    set (lookupServiceChan c pp sp table') =
      set (lookupServiceChan c pp sp table) \<union>
      (if glob (toPublisherServiceName pp sp) (toPublisherServiceName p s)
       then {\<lparr>owner = c, ct = t\<rparr>} else {}) \<and>
    regServiceChan p s t' table' =
      Panic (''registering duplicated channel for '' @ toPublisherServiceName p s) \<and>
    map_of (delServiceChan p s table') = map_of table \<and>
    queryServiceProcess pp sp table' = Ret (map process_info (serviceNamesInProcess pp sp table'))"
proof -
  let ?k = "toPublisherServiceName p s"
  let ?t' = "AList.update ?k t table"
  have "regServiceChan p s t table = Ret ?t'" and "regServiceChan p s t' ?t' =
      Panic (''registering duplicated channel for '' @ ?k)"
    using assms(4) by (simp_all add: regServiceChan_def)
  moreover have wf: "wf_chanTable ?t'" using assms(1-3) by (rule wf_chanTable_update)
  moreover have "map_of (delServiceChan p s ?t') = map_of table"
    using assms(4) by (auto simp: delServiceChan_def fun_eq_iff)
  moreover have "set (lookupServiceChan c pp sp ?t') =
      set (lookupServiceChan c pp sp table) \<union>
      (if glob (toPublisherServiceName pp sp) ?k then {\<lparr>owner = c, ct = t\<rparr>} else {})"
    using assms(4) unfolding set_eq_iff Un_iff lookupServiceChan_mem_iff glob_WildcardMatch [symmetric]
    by (auto; metis option.distinct(1))
  ultimately show ?thesis using queryServiceProcess_wf [OF wf] by blast
qed

theorem process_registry_witness:
  "\<exists>table'. regServiceChan ''example'' ''hello'' (7::nat) [] = Ret table' \<and> wf_chanTable table' \<and>
    set (lookupServiceChan () ''ex*'' ''*'' table') = {\<lparr>owner = (), ct = 7\<rparr>}"
proof -
  have wf: "wf_chanTable ([] :: nat chanTable)" by (simp add: wf_chanTable_def)
  have v: "valid_name ''example''" "valid_name ''hello''" by (simp_all add: checkNameConvention_def)
  have n: "map_of ([] :: nat chanTable) (toPublisherServiceName ''example'' ''hello'') = None" by simp
  have e: "set (lookupServiceChan () ''ex*'' ''*'' ([] :: nat chanTable)) = {}"
    by (simp add: lookupServiceChan_mem_iff set_eq_iff)
  have m: "glob (toPublisherServiceName ''ex*'' ''*'') (toPublisherServiceName ''example'' ''hello'')"
    by (simp add: WildcardMatch_def toPublisherServiceName_def suffix_def prefix_def
        flip: glob_WildcardMatch)
  from process_registry [OF wf v n, where t = 7 and c = "()" and pp = "''ex*''" and sp = "''*''"]
  show ?thesis unfolding e if_P [OF m] Un_empty_left by blast
qed

text \<open>
  The scan of \<open>/proc/net/unix\<close>: the addresses returned for a name or wildcard are addresses of
  the framework's sockets that the file lists, no two for one service although the file lists a
  socket once per connection, and a service is found exactly when a listed socket carries its name
  and the pattern denotes that name.
\<close>

theorem lookupServiceUDSAnon_exact:
  "distinct (map anon_name (lookupServiceUDSAnon (Some b) p s)) \<and>
   set (lookupServiceUDSAnon (Some b) p s) \<subseteq> set (socket_addrs (drop 1 (terminated_lines b))) \<and>
   (n \<in> anon_name ` set (lookupServiceUDSAnon (Some b) p s) \<longleftrightarrow>
      n \<in> anon_name ` set (socket_addrs (drop 1 (terminated_lines b))) \<and>
      glob (toPublisherServiceName p s) n)"
  using scan_unix_subset [of "toPublisherServiceName p s" "[]" "drop 1 (terminated_lines b)"]
  by (auto simp: lookupServiceUDSAnon_def scan_unix_names scan_unix_distinct glob_WildcardMatch)

end
