(* ===== verification/Providers.thy ===== *)
theory Providers
  imports LocalRegistry
begin

text \<open>
  What the LAN and the root registry share: tables from service names to providers, their contract
  as a map from pairs of names and provider ids, and the text files in which both keep their
  records over a restart. Time is an integer number of nanoseconds.
\<close>

abbreviation second :: int where "second \<equiv> 1000000000"
abbreviation minute :: int where "minute \<equiv> 60 * second"

record providerInfo =
  timeStamp :: int
  addr :: string
  proxied :: bool

type_synonym providers = "(string, providerInfo) gomap"
type_synonym service_table = "(string, providers) gomap"

text \<open>What the handlers of the registries reply.\<close>

datatype reply = ReplyOK | ReplyErr | NoReply | ReplyInfos "ServiceInfo list"

section \<open>Tables\<close>

definition set_provider :: "string \<Rightarrow> string \<Rightarrow> providerInfo \<Rightarrow> service_table \<Rightarrow> service_table" where
  "set_provider name pID pInfo tbl =
     AList.update name (AList.update pID pInfo (case map_of tbl name of None \<Rightarrow> [] | Some p \<Rightarrow> p)) tbl"

definition del_provider :: "string \<Rightarrow> string \<Rightarrow> service_table \<Rightarrow> service_table" where
  "del_provider name pID tbl =
     (case map_of tbl name of None \<Rightarrow> tbl | Some p \<Rightarrow> AList.update name (AList.delete pID p) tbl)"

definition provider_at :: "service_table \<Rightarrow> string \<times> string \<Rightarrow> providerInfo option" where
  "provider_at tbl k = (case map_of tbl (fst k) of None \<Rightarrow> None | Some p \<Rightarrow> map_of p (snd k))"

definition all_providers :: "service_table \<Rightarrow> ((string \<times> string) \<times> providerInfo) list" where
  "all_providers tbl = concat (map (\<lambda>(n, p). map (\<lambda>(pID, i). ((n, pID), i)) p) tbl)"

definition wf_table :: "service_table \<Rightarrow> bool" where
  "wf_table tbl \<longleftrightarrow> wf_map tbl \<and> (\<forall>(n, p) \<in> set tbl. wf_map p)"

lemma wf_table_lookup: "wf_table tbl \<Longrightarrow> map_of tbl n = Some p \<Longrightarrow> wf_map p"
  by (auto simp: wf_table_def dest: map_of_SomeD)

lemma wf_table_update: "wf_table tbl \<Longrightarrow> wf_map p \<Longrightarrow> wf_table (AList.update n p tbl)"
  using gomap.entries_update [of tbl n p] by (auto simp: wf_table_def)

lemma wf_set_provider: "wf_table tbl \<Longrightarrow> wf_table (set_provider n pID i tbl)"
  by (auto simp: set_provider_def wf_map_def [of "[_]"] intro!: wf_table_update
      dest: wf_table_lookup split: option.splits)

lemma wf_del_provider: "wf_table tbl \<Longrightarrow> wf_table (del_provider n pID tbl)"
  by (auto simp: del_provider_def intro!: wf_table_update dest: wf_table_lookup split: option.splits)

lemma all_providers_mem:
  "((n, pID), i) \<in> set (all_providers tbl) \<longleftrightarrow> (\<exists>p. (n, p) \<in> set tbl \<and> (pID, i) \<in> set p)"
  by (fastforce simp: all_providers_def)

lemma all_providers_lookup:
  "wf_table tbl \<Longrightarrow> (k, i) \<in> set (all_providers tbl) \<longleftrightarrow> provider_at tbl k = Some i"
  using wf_table_lookup [of tbl "fst k"]
  by (cases k) (auto simp: all_providers_mem provider_at_def wf_table_def gomap.entries_lookup
      split: option.splits)

lemma all_providers_distinct: "wf_table tbl \<Longrightarrow> distinct (map fst (all_providers tbl))"
proof (induction tbl)
  case (Cons e tbl)
  obtain n p where e: "e = (n, p)" by force
  from Cons.prems e have w: "wf_table tbl" "wf_map p" "n \<notin> fst ` set tbl"
    by (auto simp: wf_table_def wf_map_def)
  have m: "map fst (map (\<lambda>(pID, i). ((n, pID), i)) p) = map (Pair n) (map fst p)"
    by (induction p) auto
  have "distinct (map (Pair n) (map fst p))"
    using w(2) by (simp add: wf_map_def distinct_map inj_on_def)
  moreover have "(n, pID) \<notin> fst ` set (all_providers tbl)" for pID
    using w(3) by (force simp: all_providers_mem)
  moreover have "all_providers (e # tbl) = map (\<lambda>(pID, i). ((n, pID), i)) p @ all_providers tbl"
    by (simp add: all_providers_def e)
  ultimately show ?case using Cons.IH [OF w(1)] m
    by (simp only: map_append distinct_append) (auto simp: split_beta)
qed (simp add: all_providers_def)

interpretation prov: key_value provider_at "\<lambda>(n, pID). set_provider n pID" "\<lambda>(n, pID). del_provider n pID"
  all_providers wf_table
proof unfold_locales
  fix tbl :: service_table and k k' :: "string \<times> string" and i
  show "provider_at ((case k of (n, pID) \<Rightarrow> set_provider n pID) i tbl) k' =
      (if k' = k then Some i else provider_at tbl k')"
    by (cases k; cases k') (auto simp: provider_at_def set_provider_def split: option.splits)
  show "provider_at ((case k of (n, pID) \<Rightarrow> del_provider n pID) tbl) k' =
      (if k' = k then None else provider_at tbl k')"
    by (cases k; cases k') (auto simp: provider_at_def del_provider_def split: option.splits)
  assume w: "wf_table tbl"
  show "(k, i) \<in> set (all_providers tbl) \<longleftrightarrow> provider_at tbl k = Some i"
    using w by (rule all_providers_lookup)
  show "distinct (map fst (all_providers tbl))" using w by (rule all_providers_distinct)
  show "wf_table ((case k of (n, pID) \<Rightarrow> set_provider n pID) i tbl)"
    using w by (auto simp: wf_set_provider split: prod.splits)
  show "wf_table ((case k of (n, pID) \<Rightarrow> del_provider n pID) tbl)"
    using w by (auto simp: wf_del_provider split: prod.splits)
qed

section \<open>Record files\<close>

text \<open>
  \<open>fmt.Fscanln\<close> with string arguments: every argument is a run of non-space bytes, only spaces other
  than the newline come before it, and after the last one the line or the file ends. \<open>None\<close> is an
  error.
\<close>

fun skip_space :: "string \<Rightarrow> string option" where
  "skip_space [] = Some []"
| "skip_space (c # cs) =
     (if c = CHR 0x0A then None else if is_space c then skip_space cs else Some (c # cs))"

fun line_end :: "string \<Rightarrow> string option" where
  "line_end [] = Some []"
| "line_end (c # cs) =
     (if c = CHR 0x0A then Some cs else if is_space c then line_end cs else None)"

fun scan_args :: "nat \<Rightarrow> string \<Rightarrow> (string list \<times> string) option" where
  "scan_args 0 s = Some ([], s)"
| "scan_args (Suc k) s =
     (case skip_space s of
        None \<Rightarrow> None
      | Some s' \<Rightarrow>
          if s' = [] then None
          else map_option (\<lambda>(ws, rest). (takeWhile (\<lambda>c. \<not> is_space c) s' # ws, rest))
                 (scan_args k (dropWhile (\<lambda>c. \<not> is_space c) s')))"

definition Fscanln :: "nat \<Rightarrow> string \<Rightarrow> (string list \<times> string) option" where
  "Fscanln k s =
     (case scan_args k s of
        None \<Rightarrow> None
      | Some (ws, rest) \<Rightarrow> map_option (\<lambda>r. (ws, r)) (line_end rest))"

text \<open>\<open>for \{ if Fscanln(...) fails, break; ... \}\<close>; a successful call for at least one word consumes input.\<close>

function scan_lines :: "nat \<Rightarrow> string \<Rightarrow> string list list" where
  "scan_lines k s =
     (case Fscanln k s of
        None \<Rightarrow> []
      | Some (ws, rest) \<Rightarrow> if length rest < length s then ws # scan_lines k rest else [])"
  by pat_completeness auto
termination by (relation "measure (length \<circ> snd)") auto

declare scan_lines.simps [simp del]

lemma skip_space_length: "skip_space s = Some s' \<Longrightarrow> length s' \<le> length s"
  by (induction s) (auto split: if_splits)

lemma line_end_length: "line_end s = Some s' \<Longrightarrow> length s' \<le> length s"
  by (induction s) (auto split: if_splits)

lemma skip_space_head: "skip_space s = Some (c # cs) \<Longrightarrow> \<not> is_space c"
  by (induction s) (auto split: if_splits)

lemma scan_args_length: "scan_args k s = Some (ws, rest) \<Longrightarrow> length rest + k \<le> length s"
proof (induction k arbitrary: s ws rest)
  case (Suc k)
  then obtain c cs ws' where s: "skip_space s = Some (c # cs)"
      and r: "scan_args k (dropWhile (\<lambda>c. \<not> is_space c) (c # cs)) = Some (ws', rest)"
    by (auto split: option.splits if_splits simp: neq_Nil_conv)
  have "length (dropWhile (\<lambda>c. \<not> is_space c) (c # cs)) \<le> length cs"
    using skip_space_head [OF s] by (simp add: length_dropWhile_le)
  with Suc.IH [OF r] skip_space_length [OF s] show ?case by simp
qed auto

lemma Fscanln_consumes: "Fscanln (Suc k) s = Some (ws, rest) \<Longrightarrow> length rest < length s"
  using scan_args_length [of "Suc k" s] line_end_length
  by (fastforce simp: Fscanln_def simp del: scan_args.simps split: option.splits)

lemma scan_lines_step:
  "scan_lines (Suc k) s = (case Fscanln (Suc k) s of None \<Rightarrow> [] | Some (ws, rest) \<Rightarrow> ws # scan_lines (Suc k) rest)"
  by (subst scan_lines.simps) (auto split: option.splits dest: Fscanln_consumes)

definition word :: "string \<Rightarrow> bool" where
  "word w \<longleftrightarrow> w \<noteq> [] \<and> (\<forall>c\<in>set w. \<not> is_space c)"

text \<open>A line as \<open>Fprintln\<close> writes it.\<close>

definition print_line :: "string list \<Rightarrow> string" where
  "print_line ws = str_join ws '' '' @ [CHR 0x0A]"

lemma nl_space: "is_space (CHR 0x0A)" "is_space CHR '' ''" "CHR '' '' \<noteq> CHR 0x0A"
  by (simp_all add: is_space_def)

lemma skip_space_word: "word w \<Longrightarrow> skip_space (w @ s) = Some (w @ s)"
  using nl_space by (cases w) (auto simp: word_def)

lemma skip_blank_word: "word w \<Longrightarrow> skip_space (CHR '' '' # w @ s) = Some (w @ s)"
  using nl_space by (simp add: skip_space_word)

lemma word_span:
  "word w \<Longrightarrow> is_space c \<Longrightarrow> takeWhile (\<lambda>c. \<not> is_space c) (w @ c # s) = w \<and>
   dropWhile (\<lambda>c. \<not> is_space c) (w @ c # s) = c # s"
  by (auto simp: word_def takeWhile_append dropWhile_append)

lemma scan_args_blank:
  assumes "word w"
  shows "scan_args (Suc k) (CHR '' '' # w @ s) = scan_args (Suc k) (w @ s)"
  using assms by (simp only: scan_args.simps skip_blank_word skip_space_word)

lemma scan_args_line:
  "ws \<noteq> [] \<Longrightarrow> (\<forall>w\<in>set ws. word w) \<Longrightarrow>
   scan_args (length ws) (str_join ws '' '' @ CHR 0x0A # s) = Some (ws, CHR 0x0A # s)"
proof (induction ws rule: list_nonempty_induct)
  case (single w)
  then have "w \<noteq> []" by (simp add: word_def)
  with single show ?case
    using word_span [of w "CHR 0x0A" s] skip_space_word [of w "CHR 0x0A # s"] nl_space by simp
next
  case (cons w ws)
  then obtain v vs where ws: "ws = v # vs" by (cases ws) auto
  have j: "str_join (w # ws) '' '' @ CHR 0x0A # s = w @ CHR '' '' # str_join ws '' '' @ CHR 0x0A # s"
    using ws by simp
  have "w \<noteq> []" "word w" "word v" using cons.prems ws by (auto simp: word_def)
  moreover have "scan_args (length ws) (CHR '' '' # str_join ws '' '' @ CHR 0x0A # s) = Some (ws, CHR 0x0A # s)"
  proof -
    have "\<exists>u. str_join ws '' '' @ CHR 0x0A # s = v @ u" using ws by (cases vs) auto
    then obtain u where u: "str_join ws '' '' @ CHR 0x0A # s = v @ u" by blast
    have "scan_args (length ws) (CHR '' '' # v @ u) = scan_args (length ws) (v @ u)"
      using scan_args_blank [OF \<open>word v\<close>, of "length vs" u] ws by simp
    with u cons.IH cons.prems show ?thesis by simp
  qed
  ultimately show ?case
    unfolding j using word_span [of w "CHR '' ''" "str_join ws '' '' @ CHR 0x0A # s"] nl_space
      skip_space_word [of w "CHR '' '' # str_join ws '' '' @ CHR 0x0A # s"] by simp
qed

lemma scan_lines_print:
  assumes "\<And>ws. ws \<in> set rows \<Longrightarrow> length ws = Suc k \<and> (\<forall>w\<in>set ws. word w)"
  shows "scan_lines (Suc k) (concat (map print_line rows)) = rows"
  using assms
proof (induction rows)
  case Nil
  then show ?case by (simp add: scan_lines_step Fscanln_def)
next
  case (Cons ws rows)
  from Cons.prems [of ws] have ws: "length ws = Suc k" "\<forall>w\<in>set ws. word w" "ws \<noteq> []" by auto
  have "Fscanln (Suc k) (concat (map print_line (ws # rows))) = Some (ws, concat (map print_line rows))"
    using scan_args_line [OF ws(3,2), of "concat (map print_line rows)"] ws(1)
    by (simp add: Fscanln_def print_line_def)
  moreover have "scan_lines (Suc k) (concat (map print_line rows)) = rows"
    using Cons.prems by (intro Cons.IH) auto
  ultimately show ?case by (subst scan_lines_step) simp
qed

end
