(* ===== verification/LANRegistry.thy ===== *)
theory LANRegistry
  imports Providers
begin

text \<open>
  The LAN registry (\<open>registryLAN\<close> in \<open>registry.go\<close> and \<open>lanregistry_svc.go\<close>): the loop \<open>run\<close> as a
  function from an event to the new state and the packets it sends, the cached query of the
  clients, and the broadcast address computation. The network is a parameter: \<open>write_ok\<close> says
  whether a packet to an address is sent, \<open>ping\<close> whether a local port answers; \<open>now\<close> is the clock.
  A query command is answered 100 ms after its broadcast; the timer delivers \<open>Delayed\<close>.
\<close>

section \<open>Broadcast addresses\<close>

unbundle bit_operations_syntax

definition newIP :: "nat \<Rightarrow> 8 word list outcome" where
  "newIP n = (if n = 4 \<or> n = 16 then Ret (replicate n 0) else Panic ''Bad value for size'')"

text \<open>\<open>broadcast[i] = n.IP[i] | ^n.Mask[i]\<close>; indexing a shorter mask panics.\<close>

definition broadcastAddr :: "8 word list \<Rightarrow> 8 word list \<Rightarrow> 8 word list outcome" where
  "broadcastAddr ip msk =
     bind_outcome (newIP (length ip)) (\<lambda>broadcast.
       if length msk < length ip then Panic ''index out of range''
       else Ret (map (\<lambda>i. ip ! i OR NOT (msk ! i)) [0..<length broadcast]))"

section \<open>State, messages and commands\<close>

record localSvcInfo =
  lsi_timeStamp :: int
  lsi_port :: string

record serviceInfoTime =
  sit_timeStamp :: int
  sit_si :: "ServiceInfo list"

record foundInLAN =
  fil_name :: string
  fil_providerID :: string
  fil_port :: string

datatype lan_msg = QueryInLAN string | FoundInLAN foundInLAN

datatype lan_cmd = CmdLANRegister string string | CmdLANDelete string | CmdLANQuery string

record registryLAN =
  lan_providerID :: string
  infoLANs :: "string list"
  localServiceTable :: "(string, localSvcInfo) gomap"
  serviceCache :: service_table
  serviceInfoCache :: "(string, serviceInfoTime) gomap"
  pending :: "string list"

text \<open>What the loop sends: packets, the answer to a query command, and the record file at its end.\<close>

datatype lan_out =
  SendTo lan_msg string
| Answer string "ServiceInfo list"
| Record string

datatype lan_event =
  Cmd lan_cmd
| Delayed string
| Tick
| Packet lan_msg string
| Done

section \<open>Operations\<close>

text \<open>\<open>broadcast\<close> stops at the first interface that fails; the flag says whether all were sent.\<close>

fun broadcast :: "(string \<Rightarrow> bool) \<Rightarrow> lan_msg \<Rightarrow> string list \<Rightarrow> lan_out list \<times> bool" where
  "broadcast write_ok msg [] = ([], True)"
| "broadcast write_ok msg (a # as) =
     (if write_ok a then (let (outs, ok) = broadcast write_ok msg as in (SendTo msg a # outs, ok))
      else ([], False))"

text \<open>\<open>walkProviders\<close> of \<open>getServiceInfos\<close>: the live providers, and the table without the others.\<close>

definition fresh :: "int \<Rightarrow> providerInfo \<Rightarrow> bool" where
  "fresh now pInfo \<longleftrightarrow> \<not> now - timeStamp pInfo > 5 * minute"

definition lan_walk :: "int \<Rightarrow> string \<Rightarrow> providers \<Rightarrow> (providers \<times> ServiceInfo list) outcome" where
  "lan_walk now name prvds =
     bind_outcome (fromPublisherServiceName name) (\<lambda>(pName, sName).
       let live = filter (\<lambda>(pID, pInfo). fresh now pInfo) prvds in
       Ret (live, map (\<lambda>(pID, pInfo). mkServiceInfo pName sName pID (addr pInfo)) live))"

fun lan_walk_all :: "int \<Rightarrow> string \<Rightarrow> service_table \<Rightarrow> (service_table \<times> ServiceInfo list) outcome" where
  "lan_walk_all now pat [] = Ret ([], [])"
| "lan_walk_all now pat ((name, prvds) # rest) =
     bind_outcome (if WildcardMatch pat name then lan_walk now name prvds else Ret (prvds, [])) (\<lambda>(p', is1).
     bind_outcome (lan_walk_all now pat rest) (\<lambda>(rest', is2). Ret ((name, p') # rest', is1 @ is2)))"

definition getServiceInfos :: "int \<Rightarrow> string \<Rightarrow> registryLAN \<Rightarrow> (registryLAN \<times> ServiceInfo list) outcome" where
  "getServiceInfos now name r =
     (if str_contains name ''*''
      then bind_outcome (lan_walk_all now name (serviceCache r)) (\<lambda>(c, infos).
             Ret (r\<lparr>serviceCache := c\<rparr>, infos))
      else case map_of (serviceCache r) name of
             None \<Rightarrow> Ret (r, [])
           | Some prvds \<Rightarrow>
               bind_outcome (lan_walk now name prvds) (\<lambda>(p', infos).
                 Ret (r\<lparr>serviceCache := AList.update name p' (serviceCache r)\<rparr>, infos)))"

definition delService :: "string \<Rightarrow> registryLAN \<Rightarrow> registryLAN" where
  "delService name r =
     r\<lparr>localServiceTable := AList.delete name (localServiceTable r),
       serviceCache := del_provider name (lan_providerID r) (serviceCache r)\<rparr>"

text \<open>The ticker: \<open>range\<close> over the table; a service that does not answer leaves after five minutes.\<close>

definition tick_one :: "(string \<Rightarrow> bool) \<Rightarrow> int \<Rightarrow> registryLAN \<Rightarrow> string \<times> localSvcInfo \<Rightarrow> registryLAN" where
  "tick_one ping t r e =
     (case e of (name, lsi) \<Rightarrow>
        if \<not> ping (''127.0.0.1:'' @ lsi_port lsi) then
          (if t > lsi_timeStamp lsi + 5 * minute then delService name r else r)
        else r\<lparr>localServiceTable := AList.update name (lsi\<lparr>lsi_timeStamp := t\<rparr>) (localServiceTable r)\<rparr>)"

definition tick :: "(string \<Rightarrow> bool) \<Rightarrow> int \<Rightarrow> registryLAN \<Rightarrow> registryLAN" where
  "tick ping t r = foldl (tick_one ping t) r (localServiceTable r)"

definition lan_reply :: "string \<Rightarrow> string \<Rightarrow> registryLAN \<Rightarrow> lan_out list" where
  "lan_reply name raddr r =
     map (\<lambda>(n, lsi). SendTo (FoundInLAN \<lparr>fil_name = n, fil_providerID = lan_providerID r, fil_port = lsi_port lsi\<rparr>) raddr)
       (if str_contains name ''*''
        then filter (\<lambda>(n, lsi). WildcardMatch name n) (localServiceTable r)
        else case map_of (localServiceTable r) name of None \<Rightarrow> [] | Some lsi \<Rightarrow> [(name, lsi)])"

text \<open>\<open>net.SplitHostPort\<close> on the address of a UDP peer: the host is what stands before the last colon.\<close>

definition host_of :: "string \<Rightarrow> string" where
  "host_of raddr = rev (drop 1 (dropWhile (\<lambda>c. c \<noteq> CHR '':'') (rev raddr)))"

definition local_record :: "registryLAN \<Rightarrow> string" where
  "local_record r = concat (map (\<lambda>(name, lsi). print_line [name, lsi_port lsi]) (localServiceTable r))"

text \<open>One turn of the \<open>select\<close> in \<open>run\<close>.\<close>

fun lan_handle ::
  "(string \<Rightarrow> bool) \<Rightarrow> (string \<Rightarrow> bool) \<Rightarrow> int \<Rightarrow> registryLAN \<Rightarrow> lan_event \<Rightarrow> (registryLAN \<times> lan_out list) outcome" where
  "lan_handle write_ok ping now r (Cmd (CmdLANRegister name port)) =
     Ret (r\<lparr>localServiceTable := AList.update name \<lparr>lsi_timeStamp = now, lsi_port = port\<rparr> (localServiceTable r)\<rparr>, [])"
| "lan_handle write_ok ping now r (Cmd (CmdLANDelete name)) = Ret (delService name r, [])"
| "lan_handle write_ok ping now r (Cmd (CmdLANQuery name)) =
     (let (outs, ok) = broadcast write_ok (QueryInLAN name) (infoLANs r) in
      if \<not> ok then Ret (r, outs) else Ret (r\<lparr>pending := pending r @ [name]\<rparr>, outs))"
| "lan_handle write_ok ping now r (Delayed name) =
     (if name \<notin> set (pending r) then Ret (r, [])
      else bind_outcome (getServiceInfos now name r) (\<lambda>(r', infos).
             Ret (r'\<lparr>pending := remove1 name (pending r')\<rparr>, [Answer name infos])))"
| "lan_handle write_ok ping now r Tick = Ret (tick ping now r, [])"
| "lan_handle write_ok ping now r (Packet (QueryInLAN name) raddr) =
     Ret (r, filter (\<lambda>out. case out of SendTo m a \<Rightarrow> write_ok a | _ \<Rightarrow> True) (lan_reply name raddr r))"
| "lan_handle write_ok ping now r (Packet (FoundInLAN f) raddr) =
     Ret (r\<lparr>serviceCache := set_provider (fil_name f) (fil_providerID f)
              \<lparr>timeStamp = now, addr = host_of raddr @ '':'' @ fil_port f, proxied = False\<rparr> (serviceCache r)\<rparr>, [])"
| "lan_handle write_ok ping now r Done = Ret (r, [Record (local_record r)])"

text \<open>The state in which \<open>run\<close> begins, given the record file of an earlier run if there is one.\<close>

definition load_local :: "int \<Rightarrow> string option \<Rightarrow> (string, localSvcInfo) gomap" where
  "load_local t rec =
     (case rec of
        None \<Rightarrow> []
      | Some s \<Rightarrow>
          foldl (\<lambda>tbl ws. case ws of
              [name, port] \<Rightarrow> AList.update name \<lparr>lsi_timeStamp = t, lsi_port = port\<rparr> tbl | _ \<Rightarrow> tbl) [] (scan_lines 2 s))"

definition newLANRegistry :: "string \<Rightarrow> string list \<Rightarrow> int \<Rightarrow> string option \<Rightarrow> registryLAN" where
  "newLANRegistry pid lans t rec =
     \<lparr>lan_providerID = pid, infoLANs = lans, localServiceTable = load_local t rec, serviceCache = [],
      serviceInfoCache = [], pending = []\<rparr>"

text \<open>
  The handlers of the service and what they ask of the loop. \<open>queryServiceInLAN\<close> first looks at the
  cache; \<open>ask\<close> is what the loop sends to the command's channel, \<open>None\<close> when it never does.
\<close>

definition registerServiceInLAN :: "string \<Rightarrow> string \<Rightarrow> string \<Rightarrow> lan_event" where
  "registerServiceInLAN publisher service port = Cmd (CmdLANRegister (toPublisherServiceName publisher service) port)"

definition deleteServiceInLAN :: "string \<Rightarrow> string \<Rightarrow> lan_event" where
  "deleteServiceInLAN publisher service = Cmd (CmdLANDelete (toPublisherServiceName publisher service))"

definition queryServiceInLAN ::
  "int \<Rightarrow> int \<Rightarrow> (string \<Rightarrow> ServiceInfo list option) \<Rightarrow> string \<Rightarrow> string \<Rightarrow> registryLAN \<Rightarrow>
   (registryLAN \<times> ServiceInfo list) option" where
  "queryServiceInLAN now later ask publisher service r =
     (let name = toPublisherServiceName publisher service;
          r = (if length (serviceInfoCache r) > 1000 then r\<lparr>serviceInfoCache := []\<rparr> else r)
      in case map_of (serviceInfoCache r) name of
           Some sit \<Rightarrow>
             if now - sit_timeStamp sit < 15 * second then Some (r, sit_si sit)
             else map_option (\<lambda>si. (r\<lparr>serviceInfoCache :=
                    AList.update name \<lparr>sit_timeStamp = later, sit_si = si\<rparr> (serviceInfoCache r)\<rparr>, si)) (ask name)
         | None \<Rightarrow> map_option (\<lambda>si. (r\<lparr>serviceInfoCache :=
                    AList.update name \<lparr>sit_timeStamp = later, sit_si = si\<rparr> (serviceInfoCache r)\<rparr>, si)) (ask name))"

text \<open>The handlers of the LAN registry service: the command they give the loop and their reply.\<close>

definition queryServiceInLAN_Handle ::
  "int \<Rightarrow> int \<Rightarrow> (string \<Rightarrow> ServiceInfo list option) \<Rightarrow> string \<Rightarrow> string \<Rightarrow> registryLAN \<Rightarrow> (registryLAN \<times> reply) option" where
  "queryServiceInLAN_Handle now later ask publisher service r =
     map_option (\<lambda>(r', infos). (r', ReplyInfos infos)) (queryServiceInLAN now later ask publisher service r)"

definition regServiceInLAN_Handle :: "string \<Rightarrow> string \<Rightarrow> string \<Rightarrow> lan_event \<times> reply" where
  "regServiceInLAN_Handle publisher service port = (registerServiceInLAN publisher service port, ReplyOK)"

definition delServiceInLAN_Handle :: "string \<Rightarrow> string \<Rightarrow> lan_event \<times> reply" where
  "delServiceInLAN_Handle publisher service = (deleteServiceInLAN publisher service, NoReply)"

definition lookupServiceLAN :: "ServiceInfo list \<Rightarrow> string list \<Rightarrow> ServiceInfo list" where
  "lookupServiceLAN svcInfoAvailable providerIDs =
     filter (\<lambda>si. matchProvider providerIDs (ProviderID si)) svcInfoAvailable"

section \<open>What a query answers\<close>

definition lan_valid :: "registryLAN \<Rightarrow> bool" where
  "lan_valid r \<longleftrightarrow> wf_map (localServiceTable r) \<and> wf_table (serviceCache r) \<and>
     (\<forall>n. n \<in> fst ` set (serviceCache r) \<longrightarrow> (\<exists>p s. fromPublisherServiceName n = Ret (p, s)))"

text \<open>The entries a query for a name sees at a time.\<close>

definition lan_answers :: "int \<Rightarrow> string \<Rightarrow> service_table \<Rightarrow> ServiceInfo set" where
  "lan_answers now name c =
     {mkServiceInfo p s pID (addr i) | n p s pID i. provider_at c (n, pID) = Some i \<and> glob name n \<and>
        fresh now i \<and> fromPublisherServiceName n = Ret (p, s)}"

lemma lan_walk_Ret:
  "fromPublisherServiceName n = Ret (p, s) \<Longrightarrow> lan_walk now n prvds =
     Ret (filter (\<lambda>(pID, i). fresh now i) prvds,
          map (\<lambda>(pID, i). mkServiceInfo p s pID (addr i)) (filter (\<lambda>(pID, i). fresh now i) prvds))"
  by (simp add: lan_walk_def Let_def)

lemma map_of_filter_fresh:
  "wf_map ps \<Longrightarrow> map_of (filter (\<lambda>(pID, i). P i) ps) q =
     (case map_of ps q of Some i \<Rightarrow> if P i then Some i else None | None \<Rightarrow> None)"
  by (induction ps) (auto simp: wf_map_def map_of_eq_None_iff split: option.splits)

lemma wf_map_filter: "wf_map ps \<Longrightarrow> wf_map (filter P ps)"
  by (simp add: wf_map_def distinct_map_filter)

text \<open>The table after a query: stale providers of the matching services are gone.\<close>

definition lan_pruned :: "int \<Rightarrow> string \<Rightarrow> service_table \<Rightarrow> service_table \<Rightarrow> bool" where
  "lan_pruned now name c c' \<longleftrightarrow> wf_table c' \<and> fst ` set c' = fst ` set c \<and>
     (\<forall>n pID. provider_at c' (n, pID) =
        (case provider_at c (n, pID) of
           Some i \<Rightarrow> if glob name n \<and> \<not> fresh now i then None else Some i | None \<Rightarrow> None))"

lemma provider_at_Cons:
  "provider_at ((n, ps) # c) (m, q) = (if m = n then map_of ps q else provider_at c (m, q))"
  by (simp add: provider_at_def)

lemma lan_walk_all_Ret:
  assumes "wf_table c" and "\<And>n. n \<in> fst ` set c \<Longrightarrow> \<exists>p s. fromPublisherServiceName n = Ret (p, s)"
  shows "\<exists>c' infos. lan_walk_all now name c = Ret (c', infos) \<and> set infos = lan_answers now name c \<and>
    lan_pruned now name c c'"
  using assms
proof (induction c)
  case Nil
  then show ?case by (simp add: lan_answers_def lan_pruned_def provider_at_def wf_table_def)
next
  case (Cons e c)
  obtain n ps where e: "e = (n, ps)" by force
  from Cons.prems e have w: "wf_table c" "wf_map ps" "n \<notin> fst ` set c" by (auto simp: wf_table_def wf_map_def)
  have "\<exists>p s. fromPublisherServiceName m = Ret (p, s)" if "m \<in> fst ` set c" for m
    using Cons.prems(2) that by simp
  from Cons.IH [OF w(1) this] obtain c' infos where
    IH: "lan_walk_all now name c = Ret (c', infos)" "set infos = lan_answers now name c" "lan_pruned now name c c'"
    by blast
  obtain p s where f: "fromPublisherServiceName n = Ret (p, s)" using Cons.prems(2) e by force
  have none: "provider_at c (n, q) = None" for q
    using w(3) map_of_eq_None_iff [of c n] by (simp add: provider_at_def)
  let ?ps = "if WildcardMatch name n then filter (\<lambda>(pID, i). fresh now i) ps else ps"
  let ?is = "if WildcardMatch name n then map (\<lambda>(pID, i). mkServiceInfo p s pID (addr i))
    (filter (\<lambda>(pID, i). fresh now i) ps) else []"
  have r: "lan_walk_all now name (e # c) = Ret ((n, ?ps) # c', ?is @ infos)"
    by (simp add: e lan_walk_Ret [OF f] IH(1))
  have "set (?is @ infos) = lan_answers now name (e # c)"
  proof -
    have "set ?is = {mkServiceInfo p s pID (addr i) | pID i. map_of ps pID = Some i \<and> glob name n \<and> fresh now i}"
      using w(2) by (force simp: glob_WildcardMatch gomap.entries_lookup)
    moreover have "lan_answers now name (e # c) =
        {mkServiceInfo p s pID (addr i) | pID i. map_of ps pID = Some i \<and> glob name n \<and> fresh now i} \<union>
        lan_answers now name c"
      unfolding lan_answers_def e using none f by (auto simp: provider_at_Cons split: if_splits) (metis option.distinct(1))+
    ultimately show ?thesis using IH(2) by simp
  qed
  moreover have "lan_pruned now name (e # c) ((n, ?ps) # c')"
    using IH(3) w e none
    by (auto simp: lan_pruned_def provider_at_Cons map_of_filter_fresh glob_WildcardMatch wf_table_def
        wf_map_def distinct_map_filter split: option.splits)
  ultimately show ?case using r by blast
qed

lemma literal_answers:
  assumes "wf_table c" and "\<not> str_contains name ''*''" and "fromPublisherServiceName name = Ret (p, s)"
    and "map_of c name = Some ps"
  shows "lan_answers now name c =
    set (map (\<lambda>(pID, i). mkServiceInfo p s pID (addr i)) (filter (\<lambda>(pID, i). fresh now i) ps))"
proof -
  have lit: "glob name n \<longleftrightarrow> n = name" for n
    using assms(2) WildcardMatch_literal [of name n] by (auto simp: glob_WildcardMatch [symmetric])
  show ?thesis
    using assms(3,4) wf_table_lookup [OF assms(1,4)]
    by (force simp: lan_answers_def lit provider_at_def gomap.entries_lookup)
qed

lemma getServiceInfos_Ret:
  assumes "lan_valid r"
  shows "\<exists>c infos. getServiceInfos now name r = Ret (r\<lparr>serviceCache := c\<rparr>, infos) \<and>
    set infos = lan_answers now name (serviceCache r) \<and> lan_pruned now name (serviceCache r) c"
proof (cases "str_contains name ''*''")
  case True
  with assms lan_walk_all_Ret [of "serviceCache r" now name] show ?thesis
    by (force simp: getServiceInfos_def lan_valid_def)
next
  case False
  have wf: "wf_table (serviceCache r)" using assms by (simp add: lan_valid_def)
  have lit: "glob name n \<longleftrightarrow> n = name" for n
    using False WildcardMatch_literal [of name n] by (auto simp: glob_WildcardMatch [symmetric])
  show ?thesis
  proof (cases "map_of (serviceCache r) name")
    case None
    then have "lan_answers now name (serviceCache r) = {}" "lan_pruned now name (serviceCache r) (serviceCache r)"
      using wf by (auto simp: lan_answers_def lan_pruned_def lit provider_at_def split: option.splits)
    with None False show ?thesis
      by (intro exI [of _ "serviceCache r"]) (simp add: getServiceInfos_def)
  next
    case (Some ps)
    then have mem: "name \<in> fst ` set (serviceCache r)" by (force dest: map_of_SomeD)
    then obtain p s where f: "fromPublisherServiceName name = Ret (p, s)" using assms by (auto simp: lan_valid_def)
    have wp: "wf_map ps" using wf_table_lookup [OF wf Some] .
    let ?c = "AList.update name (filter (\<lambda>(pID, i). fresh now i) ps) (serviceCache r)"
    have "lan_pruned now name (serviceCache r) ?c"
      unfolding lan_pruned_def
    proof (intro conjI allI)
      show "wf_table ?c" using wf wp by (auto intro: wf_table_update wf_map_filter)
      show "fst ` set ?c = fst ` set (serviceCache r)" using mem by (auto simp: dom_update)
      show "provider_at ?c (n, pID) = (case provider_at (serviceCache r) (n, pID) of None \<Rightarrow> None
        | Some i \<Rightarrow> if glob name n \<and> \<not> fresh now i then None else Some i)" for n pID
        using Some wp by (auto simp: provider_at_def lit map_of_filter_fresh split: option.splits)
    qed
    with False Some f literal_answers [OF wf False f Some, of now] show ?thesis
      by (intro exI [of _ ?c]) (simp add: getServiceInfos_def lan_walk_Ret)
  qed
qed

lemma lan_valid_pruned:
  "lan_valid r \<Longrightarrow> lan_pruned now name (serviceCache r) c \<Longrightarrow> lan_valid (r\<lparr>serviceCache := c\<rparr>)"
  by (simp add: lan_valid_def lan_pruned_def)

section \<open>Runs of the loop\<close>

text \<open>Packets come from registries of other hosts; they carry names of published services.\<close>

fun lan_ok :: "int \<times> lan_event \<Rightarrow> bool" where
  "lan_ok (now, Packet (FoundInLAN f) raddr) = (\<exists>p s. fromPublisherServiceName (fil_name f) = Ret (p, s))"
| "lan_ok (now, e) = True"

definition lan_step :: "(string \<Rightarrow> bool) \<Rightarrow> (string \<Rightarrow> bool) \<Rightarrow> registryLAN \<Rightarrow> int \<times> lan_event \<Rightarrow> registryLAN" where
  "lan_step write_ok ping r e =
     (case lan_handle write_ok ping (fst e) r (snd e) of Ret (r', outs) \<Rightarrow> r' | Panic m \<Rightarrow> r)"

lemma lan_valid_pending [simp]: "lan_valid (r\<lparr>pending := ps\<rparr>) = lan_valid r"
  by (simp add: lan_valid_def)

lemma del_provider_keys: "wf_table c \<Longrightarrow> fst ` set (del_provider n q c) = fst ` set c"
  by (auto simp: del_provider_def dom_update split: option.splits dest: map_of_SomeD)
     (force dest: map_of_SomeD)

lemma lan_valid_del: "lan_valid r \<Longrightarrow> lan_valid (delService name r)"
  by (simp add: lan_valid_def delService_def wf_del_provider del_provider_keys)

lemma lan_valid_local: "lan_valid r \<Longrightarrow> lan_valid (r\<lparr>localServiceTable := AList.update n lsi (localServiceTable r)\<rparr>)"
  by (simp add: lan_valid_def)

lemma lan_valid_tick: "lan_valid r \<Longrightarrow> lan_valid (tick ping t r)"
proof -
  have "lan_valid (foldl (tick_one ping t) r es)" if "lan_valid r" for es r
    using that by (induction es arbitrary: r)
      (auto simp: tick_one_def lan_valid_del lan_valid_local split: prod.splits)
  then show "lan_valid r \<Longrightarrow> lan_valid (tick ping t r)" by (simp add: tick_def)
qed

lemma lan_valid_found:
  "lan_valid r \<Longrightarrow> fromPublisherServiceName n = Ret (p, s) \<Longrightarrow>
   lan_valid (r\<lparr>serviceCache := set_provider n q i (serviceCache r)\<rparr>)"
  by (auto simp: lan_valid_def wf_set_provider) (auto simp: set_provider_def gomap.entries_update wf_table_def)

lemma lan_handle_Ret:
  assumes "lan_valid r" and "lan_ok (now, e)"
  shows "\<exists>r' outs. lan_handle write_ok ping now r e = Ret (r', outs) \<and> lan_valid r'"
  using assms
proof (cases "(write_ok, ping, now, r, e)" rule: lan_handle.cases)
  case (4 write_ok ping now r name)
  with assms getServiceInfos_Ret [of r now name] show ?thesis
    by (auto simp: lan_valid_pruned)
qed (auto simp: lan_valid_local lan_valid_del lan_valid_tick lan_valid_found split_beta)

interpretation lan: transition "lan_step write_ok ping" lan_ok lan_valid
proof unfold_locales
  fix r e assume "lan_valid r" "lan_ok e"
  with lan_handle_Ret [of r "fst e" "snd e" write_ok ping] show "lan_valid (lan_step write_ok ping r e)"
    by (auto simp: lan_step_def)
qed

lemma lan_valid_new: "lan_valid (newLANRegistry pid lans t rec)"
proof -
  have "wf_map (foldl (\<lambda>tbl ws. case ws of [name, port] \<Rightarrow> AList.update name \<lparr>lsi_timeStamp = t, lsi_port = port\<rparr> tbl
      | _ \<Rightarrow> tbl) tbl rows)" if "wf_map tbl" for rows tbl
    using that by (induction rows arbitrary: tbl) (auto split: list.splits)
  then show ?thesis by (simp add: lan_valid_def newLANRegistry_def load_local_def wf_table_def split: option.splits)
qed

lemma broadcast_ok: "snd (broadcast write_ok msg as) \<longleftrightarrow> (\<forall>a\<in>set as. write_ok a)"
  by (induction as) (auto simp: split_beta)

lemma lan_reply_mem:
  assumes "wf_map (localServiceTable r)"
  shows "SendTo (FoundInLAN f) raddr \<in> set (lan_reply name raddr r) \<longleftrightarrow>
    glob name (fil_name f) \<and> fil_providerID f = lan_providerID r \<and>
    (\<exists>lsi. map_of (localServiceTable r) (fil_name f) = Some lsi \<and> fil_port f = lsi_port lsi)"
proof (cases "str_contains name ''*''")
  case True
  with assms show ?thesis
    by (cases f) (force simp: lan_reply_def glob_WildcardMatch gomap.entries_lookup)
next
  case False
  have lit: "glob name n \<longleftrightarrow> n = name" for n
    using False WildcardMatch_literal [of name n] by (auto simp: glob_WildcardMatch [symmetric])
  show ?thesis
  proof (cases "map_of (localServiceTable r) name")
    case None
    with False show ?thesis by (auto simp: lan_reply_def lit)
  next
    case (Some lsi)
    with False have "lan_reply name raddr r = [SendTo (FoundInLAN \<lparr>fil_name = name,
        fil_providerID = lan_providerID r, fil_port = lsi_port lsi\<rparr>) raddr]"
      by (simp add: lan_reply_def)
    with Some show ?thesis by (cases f) (auto simp: lit)
  qed
qed

section \<open>Properties\<close>


definition demo_found :: foundInLAN where
  "demo_found = \<lparr>fil_name = ''pub_echo'', fil_providerID = ''id9'', fil_port = ''80''\<rparr>"


text \<open>
  C30 (LAN discovery, two registries): when a service is registered at host A, and host B has a query
  pending whose broadcast reaches A, A answers with a packet which, handled by B before the timer
  of the query, makes B's answer contain the service with A's provider id and address.
\<close>

theorem lan_discovery:
  assumes "lan_valid a" and "lan_valid b" and "valid_name p" and "valid_name s"
    and "map_of (localServiceTable a) (toPublisherServiceName p s) = Some lsi"
    and "glob pat (toPublisherServiceName p s)" and "pat \<in> set (pending b)"
    and "write_ok baddr" and "t3 - t2 \<le> 5 * minute"
  shows "\<exists>outs f b1 b2 infos.
    lan_handle write_ok ping t1 a (Packet (QueryInLAN pat) baddr) = Ret (a, outs) \<and>
    SendTo (FoundInLAN f) baddr \<in> set outs \<and>
    lan_handle write_ok' ping' t2 b (Packet (FoundInLAN f) aaddr) = Ret (b1, []) \<and>
    lan_handle write_ok' ping' t3 b1 (Delayed pat) = Ret (b2, [Answer pat infos]) \<and>
    mkServiceInfo p s (lan_providerID a) (host_of aaddr @ '':'' @ lsi_port lsi) \<in> set infos"
proof -
  let ?n = "toPublisherServiceName p s"
  let ?f = "\<lparr>fil_name = ?n, fil_providerID = lan_providerID a, fil_port = lsi_port lsi\<rparr>"
  let ?i = "\<lparr>timeStamp = t2, addr = host_of aaddr @ '':'' @ lsi_port lsi, proxied = False\<rparr>"
  let ?b1 = "b\<lparr>serviceCache := set_provider ?n (lan_providerID a) ?i (serviceCache b)\<rparr>"
  have n: "fromPublisherServiceName ?n = Ret (p, s)" using from_toPublisherServiceName [OF assms(3,4)] .
  have "SendTo (FoundInLAN ?f) baddr \<in> set (lan_reply pat baddr a)"
    using assms(1,5,6) by (simp add: lan_reply_mem lan_valid_def)
  then have s1: "SendTo (FoundInLAN ?f) baddr \<in>
      set (filter (\<lambda>out. case out of SendTo m x \<Rightarrow> write_ok x | _ \<Rightarrow> True) (lan_reply pat baddr a))"
    using assms(8) by simp
  have v: "lan_valid ?b1" using lan_valid_found [OF assms(2) n] .
  then obtain c infos where g: "getServiceInfos t3 pat ?b1 = Ret (?b1\<lparr>serviceCache := c\<rparr>, infos)"
    "set infos = lan_answers t3 pat (serviceCache ?b1)"
    using getServiceInfos_Ret by blast
  have "provider_at (serviceCache ?b1) (?n, lan_providerID a) = Some ?i"
    using prov.lookup_update [of "(?n, lan_providerID a)" ?i "serviceCache b"] by simp
  then have "mkServiceInfo p s (lan_providerID a) (addr ?i) \<in> set infos"
    unfolding g(2) lan_answers_def using assms(6,9) n by (force simp: fresh_def)
  with s1 g(1) assms(7) show ?thesis by (intro exI conjI) (auto simp: split_beta)
qed

theorem lan_discovery_witness:
  "\<exists>outs f b1 b2 infos.
    lan_handle (\<lambda>a. True) (\<lambda>a. True) 0
      (newLANRegistry ''idA'' [] 0 (Some (print_line [''pub_echo'', ''80'']))) (Packet (QueryInLAN ''pub_*'') ''10.0.0.2:9923'') =
      Ret (newLANRegistry ''idA'' [] 0 (Some (print_line [''pub_echo'', ''80''])), outs) \<and>
    SendTo (FoundInLAN f) ''10.0.0.2:9923'' \<in> set outs \<and>
    lan_handle (\<lambda>a. True) (\<lambda>a. True) 1 ((newLANRegistry ''idB'' [] 0 None)\<lparr>pending := [''pub_*'']\<rparr>)
      (Packet (FoundInLAN f) ''10.0.0.1:9923'') = Ret (b1, []) \<and>
    lan_handle (\<lambda>a. True) (\<lambda>a. True) 2 b1 (Delayed ''pub_*'') = Ret (b2, [Answer ''pub_*'' infos]) \<and>
    mkServiceInfo ''pub'' ''echo'' ''idA'' ''10.0.0.1:80'' \<in> set infos"
proof -
  let ?a = "newLANRegistry ''idA'' [] 0 (Some (print_line [''pub_echo'', ''80'']))"
  let ?b = "(newLANRegistry ''idB'' [] 0 None)\<lparr>pending := [''pub_*'']\<rparr>"
  have "scan_lines (Suc 1) (concat (map print_line [[''pub_echo'', ''80'']])) = [[''pub_echo'', ''80'']]"
    by (rule scan_lines_print) (auto simp: word_def is_space_def)
  then have m: "map_of (localServiceTable ?a) (toPublisherServiceName ''pub'' ''echo'') =
      Some \<lparr>lsi_timeStamp = 0, lsi_port = ''80''\<rparr>"
    by (simp add: newLANRegistry_def load_local_def toPublisherServiceName_def numeral_2_eq_2)
  have "lan_valid ?a" "lan_valid ?b" using lan_valid_new by simp_all
  moreover have "valid_name ''pub''" "valid_name ''echo''" by (simp_all add: checkNameConvention_def)
  moreover have "glob ''pub_*'' (toPublisherServiceName ''pub'' ''echo'')" by (simp add: toPublisherServiceName_def)
  moreover have "''pub_*'' \<in> set (pending ?b)" by simp
  moreover have "lan_providerID ?a = ''idA''" "host_of ''10.0.0.1:9923'' = ''10.0.0.1''"
    by (simp_all add: newLANRegistry_def host_of_def)
  ultimately show ?thesis
    using lan_discovery [of ?a ?b "''pub''" "''echo''" _ "''pub_*''" "\<lambda>a. True" "''10.0.0.2:9923''" 2 1
      "\<lambda>a. True" 0 "\<lambda>a. True" "\<lambda>a. True" "''10.0.0.1:9923''"] m by fastforce
qed

text \<open>
  The client's query answers from its cache only what it stored less than 15
  seconds ago, otherwise what the loop answers now, which it stores; the cache stays below 1002
  entries. It does not return when the loop does not answer.
\<close>

theorem lan_query_cached:
  assumes "wf_map (serviceInfoCache r)" and "length (serviceInfoCache r) \<le> 1001"
  shows "case queryServiceInLAN now later ask p s r of
      None \<Rightarrow> ask (toPublisherServiceName p s) = None
    | Some (r', si) \<Rightarrow> length (serviceInfoCache r') \<le> 1001 \<and> wf_map (serviceInfoCache r') \<and>
        (\<exists>sit. map_of (serviceInfoCache r') (toPublisherServiceName p s) = Some sit \<and> sit_si sit = si \<and>
          (sit_timeStamp sit = later \<and> ask (toPublisherServiceName p s) = Some si \<or>
           now - sit_timeStamp sit < 15 * second \<and> map_of (serviceInfoCache r) (toPublisherServiceName p s) = Some sit))"
proof -
  have len: "length (AList.update k v m) \<le> Suc (length m)" for k :: string and v :: serviceInfoTime and m
    by (induction m) auto
  define r1 where "r1 = (if length (serviceInfoCache r) > 1000 then r\<lparr>serviceInfoCache := []\<rparr> else r)"
  have r1: "length (serviceInfoCache r1) \<le> 1000" "wf_map (serviceInfoCache r1)"
      "map_of (serviceInfoCache r1) n = Some sit \<Longrightarrow> map_of (serviceInfoCache r) n = Some sit" for n sit
    using assms by (auto simp: r1_def split: if_splits)
  have l: "length (AList.update n v (serviceInfoCache r1)) \<le> 1001" for n v
    using len [of n v "serviceInfoCache r1"] r1(1) by simp
  show ?thesis
    using r1 l unfolding queryServiceInLAN_def Let_def r1_def [symmetric]
    by (auto split: option.splits if_splits intro: le_trans [OF _ l])
qed

theorem lan_query_cached_witness:
  "case queryServiceInLAN (20 * second) (21 * second) (\<lambda>n. Some []) ''pub'' ''echo''
      ((newLANRegistry ''id'' [] 0 None)\<lparr>serviceInfoCache :=
         [(''pub_echo'', \<lparr>sit_timeStamp = 0, sit_si = [mkServiceInfo [] [] [] []]\<rparr>)]\<rparr>) of
     None \<Rightarrow> False | Some (r', si) \<Rightarrow> si = []"
proof -
  let ?r = "(newLANRegistry ''id'' [] 0 None)\<lparr>serviceInfoCache :=
         [(''pub_echo'', \<lparr>sit_timeStamp = 0, sit_si = [mkServiceInfo [] [] [] []]\<rparr>)]\<rparr>"
  have "wf_map (serviceInfoCache ?r)" "length (serviceInfoCache ?r) \<le> 1001" by (simp_all add: wf_map_def)
  from lan_query_cached [OF this, where now = "20 * second" and later = "21 * second" and
      ask = "\<lambda>n. Some []" and p = "''pub''" and s = "''echo''"]
  show ?thesis by (auto simp: toPublisherServiceName_def split: option.splits)
qed

text \<open>The outputs of a run.\<close>

fun lan_outs :: "(string \<Rightarrow> bool) \<Rightarrow> (string \<Rightarrow> bool) \<Rightarrow> registryLAN \<Rightarrow> (int \<times> lan_event) list \<Rightarrow> lan_out list" where
  "lan_outs write_ok ping r [] = []"
| "lan_outs write_ok ping r ((now, e) # es) =
     (case lan_handle write_ok ping now r e of
        Ret (r', outs) \<Rightarrow> outs @ lan_outs write_ok ping r' es
      | Panic m \<Rightarrow> [])"

lemma broadcast_sends: "out \<in> set (fst (broadcast write_ok msg as)) \<Longrightarrow> \<exists>a. out = SendTo msg a"
  by (induction as) (auto simp: split_beta split: if_splits)

lemma tick_pending [simp]: "pending (tick ping t r) = pending r"
proof -
  have "pending (foldl (tick_one ping t) r es) = pending r" for es
    by (induction es arbitrary: r) (auto simp: tick_one_def delService_def split: prod.splits)
  then show ?thesis by (simp add: tick_def)
qed

lemma getServiceInfos_pending: "getServiceInfos now name r = Ret (r', infos) \<Longrightarrow> pending r' = pending r"
  by (auto simp: getServiceInfos_def bind_outcome_Ret_iff split: if_splits option.splits)

lemma not_pending_step:
  assumes "lan_handle write_ok ping now r e = Ret (r', outs)" and "name \<notin> set (pending r)"
    and "e \<noteq> Cmd (CmdLANQuery name)"
  shows "name \<notin> set (pending r') \<and> Answer name infos \<notin> set outs"
  using assms
proof (cases "(write_ok, ping, now, r, e)" rule: lan_handle.cases)
  case (3 w p t q n)
  with assms show ?thesis
    using broadcast_sends [of "Answer name infos" write_ok "QueryInLAN n" "infoLANs r"]
    by (auto simp: split_beta split: if_splits)
next
  case (4 w p t q n)
  with assms show ?thesis
    by (auto simp: bind_outcome_Ret_iff split: if_splits dest!: getServiceInfos_pending
        dest: notin_set_remove1)
qed (use assms in \<open>auto simp: delService_def lan_reply_def\<close>)

lemma not_pending_run:
  "name \<notin> set (pending r) \<Longrightarrow> (\<And>t. (t, Cmd (CmdLANQuery name)) \<notin> set es) \<Longrightarrow>
   Answer name infos \<notin> set (lan_outs write_ok ping r es)"
proof (induction es arbitrary: r)
  case (Cons te es)
  obtain t e where te: "te = (t, e)" by force
  show ?case
  proof (cases "lan_handle write_ok ping t r e")
    case (Ret x)
    obtain r' outs where x: "x = (r', outs)" by force
    have "e \<noteq> Cmd (CmdLANQuery name)" using Cons.prems(2) [of t] te by auto
    with not_pending_step [of write_ok ping t r e r' outs name infos] Ret x Cons.prems(1)
    have "name \<notin> set (pending r')" "Answer name infos \<notin> set outs" by auto
    with Cons Ret x te show ?thesis by auto
  qed (simp add: te)
qed simp

text \<open>
  A deviation. When the broadcast of a query fails on some interface, the
  loop forgets the query: it never sends an answer for that name, whatever happens afterwards,
  unless the name is asked for again; the client blocks in \<open>queryServiceInLAN\<close>.
\<close>

theorem lan_query_lost:
  assumes "a \<in> set (infoLANs r)" and "\<not> write_ok a" and "name \<notin> set (pending r)"
    and "\<And>t. (t, Cmd (CmdLANQuery name)) \<notin> set es"
  shows "\<exists>outs. lan_handle write_ok ping now r (Cmd (CmdLANQuery name)) = Ret (r, outs) \<and>
    Answer name infos \<notin> set (lan_outs write_ok ping r es)"
  using assms broadcast_ok [of write_ok "QueryInLAN name" "infoLANs r"] not_pending_run [OF assms(3,4)]
  by (auto simp: split_beta)

theorem lan_query_lost_witness:
  "\<exists>outs. lan_handle (\<lambda>a. False) (\<lambda>a. True) 0 (newLANRegistry ''id'' [''10.0.0.255:9923''] 0 None)
      (Cmd (CmdLANQuery ''pub_echo'')) = Ret (newLANRegistry ''id'' [''10.0.0.255:9923''] 0 None, outs) \<and>
    Answer ''pub_echo'' [] \<notin> set (lan_outs (\<lambda>a. False) (\<lambda>a. True)
      (newLANRegistry ''id'' [''10.0.0.255:9923''] 0 None) [(second, Delayed ''pub_echo''), (minute, Tick)])"
  by (rule lan_query_lost [where a = "''10.0.0.255:9923''"]) (simp_all add: newLANRegistry_def)

lemma tick_lookup:
  assumes "distinct (map fst es)"
  shows "map_of (localServiceTable (foldl (tick_one ping t) r es)) n =
    (case map_of es n of
       None \<Rightarrow> map_of (localServiceTable r) n
     | Some lsi \<Rightarrow>
         if ping (''127.0.0.1:'' @ lsi_port lsi) then Some (lsi\<lparr>lsi_timeStamp := t\<rparr>)
         else if t > lsi_timeStamp lsi + 5 * minute then None else map_of (localServiceTable r) n)"
  using assms
proof (induction es arbitrary: r)
  case (Cons e es)
  obtain m lsi where e: "e = (m, lsi)" by force
  have "map_of es m = None" using Cons.prems e by (simp add: map_of_eq_None_iff)
  with Cons e show ?case by (auto simp: tick_one_def delService_def split: option.splits)
qed simp

text \<open>
  A tick keeps exactly the local services that answer, with
  a fresh time stamp, and those that have not answered for at most five minutes. The record file
  written when the loop ends lets the next one start with the same services and ports, if names
  and ports are words.
\<close>

theorem lan_local_services:
  assumes "wf_map (localServiceTable r)"
  shows "map_of (localServiceTable (tick ping t r)) n =
      (case map_of (localServiceTable r) n of
         None \<Rightarrow> None
       | Some lsi \<Rightarrow>
           if ping (''127.0.0.1:'' @ lsi_port lsi) then Some (lsi\<lparr>lsi_timeStamp := t\<rparr>)
           else if t > lsi_timeStamp lsi + 5 * minute then None else Some lsi) \<and>
    ((\<forall>(name, lsi) \<in> set (localServiceTable r). word name \<and> word (lsi_port lsi)) \<longrightarrow>
       map_of (load_local t (Some (local_record r))) n =
         map_option (\<lambda>lsi. lsi\<lparr>lsi_timeStamp := t\<rparr>) (map_of (localServiceTable r) n))"
proof (intro conjI impI)
  show "map_of (localServiceTable (tick ping t r)) n =
      (case map_of (localServiceTable r) n of
         None \<Rightarrow> None
       | Some lsi \<Rightarrow>
           if ping (''127.0.0.1:'' @ lsi_port lsi) then Some (lsi\<lparr>lsi_timeStamp := t\<rparr>)
           else if t > lsi_timeStamp lsi + 5 * minute then None else Some lsi)"
    using assms tick_lookup [of "localServiceTable r" ping t r n]
    by (auto simp: tick_def wf_map_def split: option.splits)
next
  let ?tbl = "localServiceTable r"
  let ?rows = "map (\<lambda>(name, lsi). [name, lsi_port lsi]) ?tbl"
  let ?ins = "\<lambda>tbl ws. case ws of [name, port] \<Rightarrow> AList.update name \<lparr>lsi_timeStamp = t, lsi_port = port\<rparr> tbl | _ \<Rightarrow> tbl"
  assume w: "\<forall>(name, lsi) \<in> set ?tbl. word name \<and> word (lsi_port lsi)"
  have "scan_lines (Suc 1) (concat (map print_line ?rows)) = ?rows"
    by (rule scan_lines_print) (use w in auto)
  moreover have "local_record r = concat (map print_line ?rows)"
    by (auto simp: local_record_def intro!: arg_cong [where f = concat])
  moreover have "distinct (map fst es) \<Longrightarrow>
      map_of (foldl ?ins tbl (map (\<lambda>(name, lsi). [name, lsi_port lsi]) es)) n =
      (case map_of es n of None \<Rightarrow> map_of tbl n | Some lsi \<Rightarrow> Some (lsi\<lparr>lsi_timeStamp := t\<rparr>))"
    for tbl and es :: "(string, localSvcInfo) gomap"
  proof (induction es arbitrary: tbl)
    case (Cons e es)
    obtain m lsi where e: "e = (m, lsi)" by force
    have "map_of es m = None" using Cons.prems e by (simp add: map_of_eq_None_iff)
    with Cons e show ?case by (cases lsi) (auto split: option.splits)
  qed simp
  ultimately show "map_of (load_local t (Some (local_record r))) n =
      map_option (\<lambda>lsi. lsi\<lparr>lsi_timeStamp := t\<rparr>) (map_of ?tbl n)"
    using assms by (auto simp: load_local_def wf_map_def numeral_2_eq_2 split: option.splits)
qed

theorem lan_local_services_witness:
  "map_of (localServiceTable (tick (\<lambda>a. False) (6 * minute) ((newLANRegistry ''id'' [] 0 None)
     \<lparr>localServiceTable := [(''pub_echo'', \<lparr>lsi_timeStamp = 0, lsi_port = ''80''\<rparr>)]\<rparr>))) ''pub_echo'' = None"
proof -
  let ?r = "(newLANRegistry ''id'' [] 0 None)
     \<lparr>localServiceTable := [(''pub_echo'', \<lparr>lsi_timeStamp = 0, lsi_port = ''80''\<rparr>)]\<rparr>"
  have "wf_map (localServiceTable ?r)" by (simp add: wf_map_def)
  from lan_local_services [OF this, of "\<lambda>a. False" "6 * minute" "''pub_echo''"] show ?thesis by simp
qed

text \<open>
  For an address of 4 or 16 bytes with a mask as long, the broadcast address is
  computed without a panic, has the network part of the address and all host bits set.
\<close>

theorem broadcastAddr_host_bits:
  assumes "length ip = 4 \<or> length ip = 16" and "length msk = length ip"
  shows "\<exists>bc. broadcastAddr ip msk = Ret bc \<and> length bc = length ip \<and>
    map2 (AND) bc msk = map2 (AND) ip msk \<and> map2 (OR) bc msk = replicate (length ip) (- 1)"
proof -
  let ?bc = "map (\<lambda>i. ip ! i OR NOT (msk ! i)) [0..<length ip]"
  have b: "(a OR NOT m) AND m = a AND m" "(a OR NOT m) OR m = - 1" for a m :: "8 word"
    by (simp_all add: bit_eq_iff bit_simps)
       (auto simp: bit_simps dest: bit_imp_le_length)
  have "broadcastAddr ip msk = Ret ?bc"
    using assms by (auto simp: broadcastAddr_def newIP_def)
  moreover have "map2 (AND) ?bc msk = map2 (AND) ip msk"
    using assms(2) by (intro nth_equalityI) (auto simp: b)
  moreover have "map2 (OR) ?bc msk = replicate (length ip) (- 1)"
    using assms(2) by (intro nth_equalityI) (auto simp: b)
  ultimately show ?thesis by simp
qed

theorem broadcastAddr_host_bits_witness:
  "\<exists>bc. broadcastAddr [192, 168, 1, 7] [255, 255, 255, 0] = Ret bc \<and> length bc = 4"
  using broadcastAddr_host_bits [of "[192, 168, 1, 7]" "[255, 255, 255, 0]"] by auto

end
