(* ===== verification/Channel.thy ===== *)
theory Channel
  imports Prelude
begin

text \<open>
  Buffered Go channels. A channel holds its buffered values in order, its capacity and whether it
  was closed; sending blocks on a full buffer and panics on a closed channel, receiving blocks on an
  empty open one and yields the zero value on an empty closed one. The locale \<open>bounded_fifo\<close> is what
  the message queue, the trace helper and the transports rely on.
\<close>

record 'a chan =
  buffered :: "'a list"
  capacity :: nat
  closed :: bool

definition make_chan :: "nat \<Rightarrow> 'a chan" where
  "make_chan n = \<lparr>buffered = [], capacity = n, closed = False\<rparr>"

text \<open>The outcome of \<open>ch <- x\<close>: \<open>Ret None\<close> is blocking.\<close>

definition chan_send :: "'a \<Rightarrow> 'a chan \<Rightarrow> 'a chan option outcome" where
  "chan_send x ch =
     (if closed ch then Panic ''send on closed channel''
      else if length (buffered ch) < capacity ch then Ret (Some (ch\<lparr>buffered := buffered ch @ [x]\<rparr>))
      else Ret None)"

text \<open>The outcome of \<open>x, ok := <-ch\<close>: \<open>None\<close> is blocking, \<open>Some (None, ch)\<close> is \<open>ok = false\<close>.\<close>

definition chan_recv :: "'a chan \<Rightarrow> ('a option \<times> 'a chan) option" where
  "chan_recv ch =
     (case buffered ch of
        x # xs \<Rightarrow> Some (Some x, ch\<lparr>buffered := xs\<rparr>)
      | [] \<Rightarrow> if closed ch then Some (None, ch) else None)"

definition chan_close :: "'a chan \<Rightarrow> 'a chan outcome" where
  "chan_close ch =
     (if closed ch then Panic ''close of closed channel'' else Ret (ch\<lparr>closed := True\<rparr>))"

definition wf_chan :: "'a chan \<Rightarrow> bool" where
  "wf_chan ch \<longleftrightarrow> length (buffered ch) \<le> capacity ch"

section \<open>The contract\<close>

locale bounded_fifo =
  fixes send :: "'a \<Rightarrow> 'q \<Rightarrow> 'q option"
    and recv :: "'q \<Rightarrow> ('a \<times> 'q) option"
    and contents :: "'q \<Rightarrow> 'a list"
    and bound :: "'q \<Rightarrow> nat"
    and alive :: "'q \<Rightarrow> bool"
  assumes send_None: "alive q \<Longrightarrow> send x q = None \<longleftrightarrow> bound q \<le> length (contents q)"
    and send_Some: "send x q = Some q' \<Longrightarrow>
      contents q' = contents q @ [x] \<and> bound q' = bound q \<and> alive q' = alive q"
    and recv_None: "recv q = None \<longleftrightarrow> contents q = []"
    and recv_Some: "recv q = Some (x, q') \<Longrightarrow>
      contents q = x # contents q' \<and> bound q' = bound q \<and> alive q' = alive q"
begin

fun send_all :: "'a list \<Rightarrow> 'q \<Rightarrow> 'q option" where
  "send_all [] q = Some q"
| "send_all (x # xs) q = (case send x q of None \<Rightarrow> None | Some q' \<Rightarrow> send_all xs q')"

text \<open>The loop \<open>for n != 0 { to <- <-from; n-- }\<close>, \<open>None\<close> when it blocks on the way.\<close>

fun transfer :: "nat \<Rightarrow> 'q \<Rightarrow> 'q \<Rightarrow> ('q \<times> 'q) option" where
  "transfer 0 from to = Some (from, to)"
| "transfer (Suc n) from to =
     (case recv from of
        None \<Rightarrow> None
      | Some (x, from') \<Rightarrow> (case send x to of None \<Rightarrow> None | Some to' \<Rightarrow> transfer n from' to'))"

lemma send_all_contents:
  "send_all xs q = Some q' \<Longrightarrow> contents q' = contents q @ xs \<and> bound q' = bound q"
  by (induction xs arbitrary: q) (auto split: option.splits dest: send_Some)

lemma send_all_fits:
  "alive q \<Longrightarrow> length (contents q) + length xs \<le> bound q \<Longrightarrow> send_all xs q \<noteq> None"
proof (induction xs arbitrary: q)
  case (Cons x xs)
  then obtain q' where q': "send x q = Some q'"
    using send_None [of q x] by (cases "send x q") auto
  moreover have "send_all xs q' \<noteq> None"
    using Cons send_Some [OF q'] by simp
  ultimately show ?case by simp
qed simp

lemma transfer_contents:
  "transfer n from to = Some (from', to') \<Longrightarrow>
   contents to' = contents to @ take n (contents from) \<and> contents from' = drop n (contents from) \<and>
   n \<le> length (contents from) \<and> bound to' = bound to \<and> bound from' = bound from"
proof (induction n arbitrary: "from" to)
  case (Suc n)
  then obtain x f t where "recv from = Some (x, f)" "send x to = Some t"
      "transfer n f t = Some (from', to')"
    by (auto split: option.splits)
  with Suc.IH [of f t] recv_Some [of "from" x f] send_Some [of x to t] show ?case by auto
qed simp

lemma transfer_fits:
  "alive to \<Longrightarrow> n \<le> length (contents from) \<Longrightarrow> length (contents to) + n \<le> bound to \<Longrightarrow>
   transfer n from to \<noteq> None"
proof (induction n arbitrary: "from" to)
  case (Suc n)
  then obtain x f where f: "recv from = Some (x, f)"
    using recv_None [of "from"] by (cases "recv from") auto
  from Suc.prems obtain t where t: "send x to = Some t"
    using send_None [of to x] by (cases "send x to") auto
  from Suc recv_Some [OF f] send_Some [OF t] have "transfer n f t \<noteq> None" by auto
  with f t show ?case by simp
qed simp

end

text \<open>The operations as a client that waits sees them: \<open>None\<close> is not getting through.\<close>

definition try_send :: "'a \<Rightarrow> 'a chan \<Rightarrow> 'a chan option" where
  "try_send x ch = (case chan_send x ch of Ret r \<Rightarrow> r | Panic e \<Rightarrow> None)"

definition try_recv :: "'a chan \<Rightarrow> ('a \<times> 'a chan) option" where
  "try_recv ch = (case chan_recv ch of Some (Some x, ch') \<Rightarrow> Some (x, ch') | _ \<Rightarrow> None)"

interpretation go_chan: bounded_fifo try_send try_recv buffered capacity "\<lambda>ch. \<not> closed ch"
  by unfold_locales
     (auto simp: try_send_def try_recv_def chan_send_def chan_recv_def
       split: if_splits list.splits outcome.splits option.splits)

lemma chan_send_wf: "wf_chan ch \<Longrightarrow> chan_send x ch = Ret (Some ch') \<Longrightarrow> wf_chan ch'"
  by (auto simp: chan_send_def wf_chan_def split: if_splits)

lemma chan_recv_wf: "wf_chan ch \<Longrightarrow> chan_recv ch = Some (y, ch') \<Longrightarrow> wf_chan ch'"
  by (auto simp: chan_recv_def wf_chan_def split: list.splits if_splits)

end
