(* ===== verification/MessageTracer.thy ===== *)
theory MessageTracer
  imports Prelude
begin

text \<open>
  The built-in service messageTracing (\<open>messagetracing_svc.go\<close>): a bounded store of tracing sessions, a
  \<open>container/list\<close> in order of use and a map from tracing ids to the elements of the list. Elements
  have identities, since the map holds pointers to them; an element that was removed from the list
  is no longer moved. The handler of a record takes its locks several times, so its lookup and its
  commit are operations of their own; \<open>tracedMessageRecord_Handle\<close> is the handler run alone.
\<close>

record uuidInfo =
  u_id :: nat
  u_seqNum :: "32 word"

record tracedMessageRecord =
  r_timeStamp :: int
  r_msg :: string
  r_tracingID :: uuidInfo
  r_tag :: string
  r_connInfo :: string

record tracingSession =
  s_tracingID :: uuidInfo
  s_records :: "tracedMessageRecord list"

record messageTracer =
  t_cap :: nat
  t_lru :: "(nat \<times> tracingSession) list"
  t_lut :: "(uuidInfo, nat) gomap"
  t_next :: nat

definition MaxTracingSessions :: nat where
  "MaxTracingSessions = 4096"

definition newMessageTracer :: "nat \<Rightarrow> messageTracer" where
  "newMessageTracer c = \<lparr>t_cap = c, t_lru = [], t_lut = [], t_next = 0\<rparr>"

section \<open>Operations\<close>

text \<open>\<open>uuid.Nil\<close>\<close>

definition uuid_Nil :: nat where
  "uuid_Nil = 0"

definition MoveToFront :: "nat \<Rightarrow> (nat \<times> 'a) list \<Rightarrow> (nat \<times> 'a) list" where
  "MoveToFront e l = (case map_of l e of None \<Rightarrow> l | Some v \<Rightarrow> (e, v) # filter (\<lambda>(e', v). e' \<noteq> e) l)"

definition lookup_session :: "uuidInfo \<Rightarrow> messageTracer \<Rightarrow> nat option" where
  "lookup_session k t = map_of (t_lut t) k"

text \<open>The branch of the handler that found the session's element.\<close>

definition commit_found :: "nat \<Rightarrow> tracedMessageRecord \<Rightarrow> messageTracer \<Rightarrow> messageTracer" where
  "commit_found e r t =
     (let l = map (\<lambda>(e', s). (e', if e' = e then s\<lparr>s_records := s_records s @ [r]\<rparr> else s)) (t_lru t)
      in t\<lparr>t_lru := MoveToFront e l\<rparr>)"

text \<open>The branch that did not: evict the session used longest ago when the list is full, then insert.\<close>

definition commit_new :: "tracedMessageRecord \<Rightarrow> messageTracer \<Rightarrow> messageTracer outcome" where
  "commit_new r t =
     bind_outcome
       (if length (t_lru t) \<ge> t_cap t then
          (if t_lru t = [] then Panic ''invalid memory address or nil pointer dereference''
           else Ret (t\<lparr>t_lru := butlast (t_lru t),
                       t_lut := AList.delete (s_tracingID (snd (last (t_lru t)))) (t_lut t)\<rparr>))
        else Ret t)
       (\<lambda>t. let e = t_next t in
          Ret (t\<lparr>t_lru := (e, \<lparr>s_tracingID = r_tracingID r, s_records = [r]\<rparr>) # t_lru t,
                 t_lut := AList.update (r_tracingID r) e (t_lut t), t_next := Suc e\<rparr>))"

definition tracedMessageRecord_Handle :: "tracedMessageRecord \<Rightarrow> messageTracer \<Rightarrow> messageTracer outcome" where
  "tracedMessageRecord_Handle r t =
     (case lookup_session (r_tracingID r) t of
        Some e \<Rightarrow> Ret (commit_found e r t)
      | None \<Rightarrow> commit_new r t)"

definition readTracedMsg_Handle :: "uuidInfo \<Rightarrow> messageTracer \<Rightarrow> messageTracer \<times> tracedMessageRecord list" where
  "readTracedMsg_Handle k t =
     (if u_id k = uuid_Nil then
        (t\<lparr>t_lru := [], t_lut := []\<rparr>, concat (replicate (length (t_lru t)) [] @ map (\<lambda>(e, s). s_records s) (t_lru t)))
      else
        case map_of (t_lut t) k of
          None \<Rightarrow> (t, [])
        | Some e \<Rightarrow>
            (t\<lparr>t_lut := AList.delete k (t_lut t), t_lru := filter (\<lambda>(e', s). e' \<noteq> e) (t_lru t)\<rparr>,
             case map_of (t_lru t) e of None \<Rightarrow> [] | Some s \<Rightarrow> s_records s))"

section \<open>Specification\<close>

text \<open>A sequence of sessions, the one used last first.\<close>

type_synonym sessions = "(uuidInfo \<times> tracedMessageRecord list) list"

definition spec_record :: "nat \<Rightarrow> sessions \<Rightarrow> tracedMessageRecord \<Rightarrow> sessions" where
  "spec_record n ss r =
     (case map_of ss (r_tracingID r) of
        Some rs \<Rightarrow> (r_tracingID r, rs @ [r]) # filter (\<lambda>(k, rs). k \<noteq> r_tracingID r) ss
      | None \<Rightarrow> (r_tracingID r, [r]) # take (n - 1) ss)"

datatype tracer_event = Traced tracedMessageRecord | Read uuidInfo

fun spec_step :: "nat \<Rightarrow> sessions \<Rightarrow> tracer_event \<Rightarrow> sessions" where
  "spec_step n ss (Traced r) = spec_record n ss r"
| "spec_step n ss (Read k) = (if u_id k = uuid_Nil then [] else filter (\<lambda>(k', rs). k' \<noteq> k) ss)"

definition spec_read :: "sessions \<Rightarrow> uuidInfo \<Rightarrow> tracedMessageRecord list" where
  "spec_read ss k =
     (if u_id k = uuid_Nil then concat (map snd ss)
      else case map_of ss k of None \<Rightarrow> [] | Some rs \<Rightarrow> rs)"

definition sessions_of :: "messageTracer \<Rightarrow> sessions" where
  "sessions_of t = map (\<lambda>(e, s). (s_tracingID s, s_records s)) (t_lru t)"

section \<open>Invariant\<close>

text \<open>The map and the list agree: every element is in the map under its own id and no other is.\<close>

definition tracer_inv :: "messageTracer \<Rightarrow> bool" where
  "tracer_inv t \<longleftrightarrow> 0 < t_cap t \<and> length (t_lru t) \<le> t_cap t \<and> distinct (map fst (t_lru t)) \<and>
     (\<forall>e. e \<in> fst ` set (t_lru t) \<longrightarrow> e < t_next t) \<and>
     (\<forall>k e. map_of (t_lut t) k = Some e \<longleftrightarrow> (\<exists>s. (e, s) \<in> set (t_lru t) \<and> s_tracingID s = k))"

lemma inv_lut_unique:
  "tracer_inv t \<Longrightarrow> (e, s) \<in> set (t_lru t) \<Longrightarrow> (e', s') \<in> set (t_lru t) \<Longrightarrow>
   s_tracingID s = s_tracingID s' \<Longrightarrow> e = e' \<and> s = s'"
  unfolding tracer_inv_def by (metis eq_key_imp_eq_value option.inject)

lemma inv_lut:
  "tracer_inv t \<Longrightarrow> map_of (t_lut t) k = Some e \<longleftrightarrow> (\<exists>s. (e, s) \<in> set (t_lru t) \<and> s_tracingID s = k)"
  by (simp add: tracer_inv_def)

lemma sessions_distinct: "tracer_inv t \<Longrightarrow> distinct (map fst (sessions_of t))"
proof -
  assume inv: "tracer_inv t"
  have m: "map fst (sessions_of t) = map (\<lambda>(e, s). s_tracingID s) (t_lru t)"
    by (auto simp: sessions_of_def)
  have "distinct (t_lru t)" using inv by (simp add: tracer_inv_def distinct_map)
  moreover have "inj_on (\<lambda>(e, s). s_tracingID s) (set (t_lru t))"
    using inv_lut_unique [OF inv] by (fastforce simp: inj_on_def)
  ultimately show ?thesis unfolding m by (simp add: distinct_map)
qed

lemma sessions_lookup:
  assumes "tracer_inv t"
  shows "map_of (sessions_of t) k =
    (case map_of (t_lut t) k of None \<Rightarrow> None | Some e \<Rightarrow> map_option s_records (map_of (t_lru t) e))"
proof -
  have d: "distinct (map fst (t_lru t))" using assms by (simp add: tracer_inv_def)
  have "map_of (sessions_of t) k = Some rs \<longleftrightarrow> (\<exists>e s. (e, s) \<in> set (t_lru t) \<and> s_tracingID s = k \<and> s_records s = rs)" for rs
    using sessions_distinct [OF assms] by (force simp: sessions_of_def)
  moreover have "(\<exists>e s. (e, s) \<in> set (t_lru t) \<and> s_tracingID s = k \<and> s_records s = rs) \<longleftrightarrow>
    (\<exists>e. map_of (t_lut t) k = Some e \<and> map_option s_records (map_of (t_lru t) e) = Some rs)" for rs
    using assms d unfolding tracer_inv_def by (auto simp: map_of_eq_Some_iff) (metis map_of_eq_Some_iff option.inject)+
  ultimately have "map_of (sessions_of t) k = Some rs \<longleftrightarrow>
      (case map_of (t_lut t) k of None \<Rightarrow> None | Some e \<Rightarrow> map_option s_records (map_of (t_lru t) e)) = Some rs" for rs
    by (auto split: option.splits)
  then show ?thesis by (metis not_None_eq)
qed

lemma commit_found_lru:
  assumes "tracer_inv t" and "(e, s) \<in> set (t_lru t)"
  shows "t_lru (commit_found e r t) =
    (e, s\<lparr>s_records := s_records s @ [r]\<rparr>) # filter (\<lambda>(e', s). e' \<noteq> e) (t_lru t)"
proof -
  let ?f = "\<lambda>(e', s). (e', if e' = e then s\<lparr>s_records := s_records s @ [r]\<rparr> else s)"
  have d: "distinct (map fst (t_lru t))" using assms(1) by (simp add: tracer_inv_def)
  have m: "map_of (map ?f l) e = map_option (\<lambda>s. s\<lparr>s_records := s_records s @ [r]\<rparr>) (map_of l e)" for l
    by (induction l) auto
  have "filter (\<lambda>(e', s). e' \<noteq> e) (map ?f l) = filter (\<lambda>(e', s). e' \<noteq> e) l" for l
    by (induction l) auto
  then show ?thesis
    using m [of "t_lru t"] assms(2) d by (simp add: commit_found_def MoveToFront_def Let_def)
qed

lemma commit_found_inv:
  assumes "tracer_inv t" and "map_of (t_lut t) (r_tracingID r) = Some e"
  shows "tracer_inv (commit_found e r t) \<and>
    sessions_of (commit_found e r t) = spec_record (t_cap t) (sessions_of t) r"
proof -
  from assms obtain s where s: "(e, s) \<in> set (t_lru t)" "s_tracingID s = r_tracingID r"
    by (auto simp: tracer_inv_def)
  note l = commit_found_lru [OF assms(1) s(1), of r]
  have d: "distinct (map fst (t_lru t))" using assms(1) by (simp add: tracer_inv_def)
  have c: "t_cap (commit_found e r t) = t_cap t" "t_lut (commit_found e r t) = t_lut t"
      "t_next (commit_found e r t) = t_next t"
    by (simp_all add: commit_found_def Let_def)
  have len: "length (filter (\<lambda>(e', s). e' \<noteq> e) (t_lru t)) < length (t_lru t)"
    using s(1) by (intro length_filter_less) auto
  have "tracer_inv (commit_found e r t)"
    unfolding tracer_inv_def l c
  proof (intro conjI allI)
    show "map_of (t_lut t) k = Some e' \<longleftrightarrow> (\<exists>s'. (e', s') \<in> set ((e, s\<lparr>s_records := s_records s @ [r]\<rparr>) #
        filter (\<lambda>(e', s). e' \<noteq> e) (t_lru t)) \<and> s_tracingID s' = k)" for k e'
    proof (cases "e' = e")
      case True
      have "map_of (t_lut t) k = Some e \<longleftrightarrow> s_tracingID s = k"
        using inv_lut [OF assms(1), of k e] s(1) eq_key_imp_eq_value [OF d s(1)] by blast
      with True show ?thesis by simp
    next
      case False
      then show ?thesis using inv_lut [OF assms(1), of k e'] by auto
    qed
    show "0 < t_cap t" using assms(1) by (simp add: tracer_inv_def)
    show "length ((e, s\<lparr>s_records := s_records s @ [r]\<rparr>) # filter (\<lambda>(e', s). e' \<noteq> e) (t_lru t)) \<le> t_cap t"
      using len assms(1) by (simp add: tracer_inv_def)
    show "distinct (map fst ((e, s\<lparr>s_records := s_records s @ [r]\<rparr>) # filter (\<lambda>(e', s). e' \<noteq> e) (t_lru t)))"
      using d by (auto simp: distinct_map_filter)
    show "e' \<in> fst ` set ((e, s\<lparr>s_records := s_records s @ [r]\<rparr>) # filter (\<lambda>(e', s). e' \<noteq> e) (t_lru t)) \<longrightarrow>
        e' < t_next t" for e'
      using assms(1) s(1) unfolding tracer_inv_def by force
  qed
  moreover have "filter (\<lambda>(e', s). e' \<noteq> e) (t_lru t) = filter (\<lambda>(e', s). s_tracingID s \<noteq> r_tracingID r) (t_lru t)"
  proof (rule filter_cong)
    fix x assume x: "x \<in> set (t_lru t)"
    obtain e' s' where xe: "x = (e', s')" by (cases x)
    have "e' = e \<longleftrightarrow> s_tracingID s' = r_tracingID r"
    proof
      assume "e' = e"
      with x xe have "s' = s" using eq_key_imp_eq_value [OF d, of e s s'] s(1) by simp
      with s(2) show "s_tracingID s' = r_tracingID r" by simp
    next
      assume "s_tracingID s' = r_tracingID r"
      with x xe s show "e' = e" using inv_lut_unique [OF assms(1), of e' s' e s] by simp
    qed
    with xe show "(case x of (e', s) \<Rightarrow> e' \<noteq> e) = (case x of (e', s) \<Rightarrow> s_tracingID s \<noteq> r_tracingID r)" by simp
  qed simp
  then have "sessions_of (commit_found e r t) =
      (r_tracingID r, s_records s @ [r]) # filter (\<lambda>(k, rs). k \<noteq> r_tracingID r) (sessions_of t)"
    by (simp add: sessions_of_def l s(2) filter_map comp_def split_def)
  moreover have "map_of (sessions_of t) (r_tracingID r) = Some (s_records s)"
    using sessions_lookup [OF assms(1)] assms(2) s(1) d by simp
  ultimately show ?thesis by (simp add: spec_record_def)
qed

lemma inv_push:
  assumes inv: "tracer_inv t" and room: "length (t_lru t) < t_cap t" and new: "map_of (t_lut t) k = None"
    and k: "s_tracingID s = k"
  shows "tracer_inv (t\<lparr>t_lru := (t_next t, s) # t_lru t, t_lut := AList.update k (t_next t) (t_lut t),
    t_next := Suc (t_next t)\<rparr>)"
proof -
  have fr: "t_next t \<notin> fst ` set (t_lru t)" using inv by (auto simp: tracer_inv_def)
  then have no: "(t_next t, s') \<notin> set (t_lru t)" for s' by (metis fst_conv image_eqI)
  have "map_of (AList.update k (t_next t) (t_lut t)) k' = Some e \<longleftrightarrow>
      (\<exists>s'. (e, s') \<in> set ((t_next t, s) # t_lru t) \<and> s_tracingID s' = k')" for k' e
  proof (cases "k' = k")
    case True
    have "(e, s') \<notin> set (t_lru t)" if "s_tracingID s' = k" for s'
      using inv_lut [OF inv, of k e] new that by auto
    with True k show ?thesis by auto
  next
    case False
    with k no inv_lut [OF inv, of k' e] show ?thesis by auto
  qed
  with inv fr room show ?thesis by (auto simp: tracer_inv_def less_Suc_eq)
qed

lemma inv_evict:
  assumes inv: "tracer_inv t" and l: "t_lru t = l @ [(e0, s0)]"
  shows "tracer_inv (t\<lparr>t_lru := l, t_lut := AList.delete (s_tracingID s0) (t_lut t)\<rparr>)"
proof -
  have d: "distinct (map fst (l @ [(e0, s0)]))" using inv l by (simp add: tracer_inv_def)
  then have ne: "e \<noteq> e0" if "(e, s) \<in> set l" for e s using that by (metis append_Cons append_Nil
        distinct_append distinct_map fst_conv image_eqI list.set_map list.simps(9) map_append not_distinct_conv_prefix)
  have "map_of (AList.delete (s_tracingID s0) (t_lut t)) k = Some e \<longleftrightarrow>
      (\<exists>s. (e, s) \<in> set l \<and> s_tracingID s = k)" for k e
  proof (cases "k = s_tracingID s0")
    case True
    have "(e, s) \<notin> set l" if "s_tracingID s = s_tracingID s0" for s
      using inv_lut_unique [OF inv, of e s e0 s0] l that ne by auto
    with True show ?thesis by auto
  next
    case False
    with inv_lut [OF inv, of k e] l show ?thesis by auto
  qed
  with inv l d show ?thesis by (auto simp: tracer_inv_def)
qed

lemma commit_new_inv:
  assumes inv: "tracer_inv t" and new: "map_of (t_lut t) (r_tracingID r) = None"
  shows "\<exists>t'. commit_new r t = Ret t' \<and> tracer_inv t' \<and> t_cap t' = t_cap t \<and>
    sessions_of t' = spec_record (t_cap t) (sessions_of t) r"
proof -
  let ?k = "r_tracingID r"
  let ?s = "\<lparr>s_tracingID = ?k, s_records = [r]\<rparr>"
  have no: "map_of (sessions_of t) ?k = None" using sessions_lookup [OF inv] new by simp
  have pos: "0 < t_cap t" "length (t_lru t) \<le> t_cap t" using inv by (auto simp: tracer_inv_def)
  show ?thesis
  proof (cases "length (t_lru t) \<ge> t_cap t")
    case True
    with pos have ne: "t_lru t \<noteq> []" and full: "length (t_lru t) = t_cap t" by auto
    then obtain l e0 s0 where l: "t_lru t = l @ [(e0, s0)]" by (metis rev_exhaust surj_pair)
    let ?t1 = "t\<lparr>t_lru := l, t_lut := AList.delete (s_tracingID s0) (t_lut t)\<rparr>"
    let ?t = "?t1\<lparr>t_lru := (t_next ?t1, ?s) # t_lru ?t1, t_lut := AList.update ?k (t_next ?t1) (t_lut ?t1),
       t_next := Suc (t_next ?t1)\<rparr>"
    have "commit_new r t = Ret ?t" using True l by (simp add: commit_new_def Let_def)
    moreover have "tracer_inv ?t"
      by (rule inv_push [OF inv_evict [OF inv l]]) (use l full new in auto)
    moreover have "sessions_of ?t = spec_record (t_cap t) (sessions_of t) r"
    proof -
      have "t_cap t - 1 = length l" using full l by simp
      moreover have "spec_record (t_cap t) (sessions_of t) r = (?k, [r]) # take (t_cap t - 1) (sessions_of t)"
        using no by (simp add: spec_record_def)
      ultimately show ?thesis using l by (simp add: sessions_of_def)
    qed
    ultimately show ?thesis by auto
  next
    case False
    let ?t = "t\<lparr>t_lru := (t_next t, ?s) # t_lru t, t_lut := AList.update ?k (t_next t) (t_lut t),
       t_next := Suc (t_next t)\<rparr>"
    have "commit_new r t = Ret ?t" using False by (simp add: commit_new_def Let_def)
    moreover have "tracer_inv ?t" using inv False new by (intro inv_push) auto
    moreover have "sessions_of ?t = spec_record (t_cap t) (sessions_of t) r"
      using no False by (simp add: spec_record_def sessions_of_def)
    ultimately show ?thesis by auto
  qed
qed

lemma read_inv:
  assumes inv: "tracer_inv t"
  shows "tracer_inv (fst (readTracedMsg_Handle k t)) \<and> t_cap (fst (readTracedMsg_Handle k t)) = t_cap t \<and>
    sessions_of (fst (readTracedMsg_Handle k t)) = spec_step (t_cap t) (sessions_of t) (Read k) \<and>
    snd (readTracedMsg_Handle k t) = spec_read (sessions_of t) k"
proof (cases "u_id k = uuid_Nil")
  case True
  have "concat (map (\<lambda>(e, s). s_records s) l) = concat (map snd (map (\<lambda>(e, s). (s_tracingID s, s_records s)) l))" for l :: "(nat \<times> tracingSession) list"
    by (induction l) auto
  with True inv show ?thesis
    by (simp add: readTracedMsg_Handle_def tracer_inv_def sessions_of_def spec_read_def concat_replicate_trivial)
next
  case False
  note lk = sessions_lookup [OF inv, of k]
  show ?thesis
  proof (cases "map_of (t_lut t) k")
    case None
    have "k \<notin> fst ` set (sessions_of t)" using lk None by (simp add: map_of_eq_None_iff)
    then have "filter (\<lambda>(k', rs). k' \<noteq> k) (sessions_of t) = sessions_of t"
      by (intro filter_True) force
    with None False lk inv show ?thesis by (simp add: readTracedMsg_Handle_def spec_read_def)
  next
    case (Some e)
    let ?t = "t\<lparr>t_lut := AList.delete k (t_lut t), t_lru := filter (\<lambda>(e', s). e' \<noteq> e) (t_lru t)\<rparr>"
    have d: "distinct (map fst (t_lru t))" using inv by (simp add: tracer_inv_def)
    obtain s where s: "(e, s) \<in> set (t_lru t)" "s_tracingID s = k" using inv_lut [OF inv] Some by blast
    have same: "e' = e \<longleftrightarrow> s_tracingID s' = k" if "(e', s') \<in> set (t_lru t)" for e' s'
      using that inv_lut_unique [OF inv that s(1)] eq_key_imp_eq_value [OF d s(1), of s'] s(2) by auto
    have "map_of (AList.delete k (t_lut t)) k' = Some e' \<longleftrightarrow>
        (\<exists>s'. (e', s') \<in> set (filter (\<lambda>(e', s). e' \<noteq> e) (t_lru t)) \<and> s_tracingID s' = k')" for k' e'
      using inv_lut [OF inv, of k' e'] same by auto
    moreover have "length (filter (\<lambda>(e', s). e' \<noteq> e) (t_lru t)) \<le> t_cap t"
      by (rule le_trans [OF length_filter_le]) (use inv in \<open>simp add: tracer_inv_def\<close>)
    ultimately have "tracer_inv ?t"
      using inv d by (auto simp: tracer_inv_def distinct_map_filter)
    moreover have "filter (\<lambda>(e', s). e' \<noteq> e) (t_lru t) = filter (\<lambda>(e', s). s_tracingID s \<noteq> k) (t_lru t)"
      using same by (intro filter_cong) auto
    then have "sessions_of ?t = filter (\<lambda>(k', rs). k' \<noteq> k) (sessions_of t)"
      by (simp add: sessions_of_def filter_map comp_def split_def)
    ultimately show ?thesis
      using Some False lk by (auto simp: readTracedMsg_Handle_def spec_read_def split: option.splits)
  qed
qed

section \<open>Runs\<close>

fun tracer_step :: "messageTracer \<Rightarrow> tracer_event \<Rightarrow> messageTracer" where
  "tracer_step t (Traced r) = (case tracedMessageRecord_Handle r t of Ret t' \<Rightarrow> t' | Panic e \<Rightarrow> t)"
| "tracer_step t (Read k) = fst (readTracedMsg_Handle k t)"

lemma record_inv:
  assumes "tracer_inv t"
  shows "\<exists>t'. tracedMessageRecord_Handle r t = Ret t' \<and> tracer_inv t' \<and> t_cap t' = t_cap t \<and>
    sessions_of t' = spec_record (t_cap t) (sessions_of t) r"
proof (cases "map_of (t_lut t) (r_tracingID r)")
  case None
  with commit_new_inv [OF assms, of r] show ?thesis
    by (simp add: tracedMessageRecord_Handle_def lookup_session_def)
next
  case (Some e)
  have "t_cap (commit_found e r t) = t_cap t" by (simp add: commit_found_def Let_def)
  with Some commit_found_inv [OF assms Some] show ?thesis
    by (simp add: tracedMessageRecord_Handle_def lookup_session_def)
qed

interpretation tracer: simulation tracer_step "\<lambda>e. True" "\<lambda>t. tracer_inv t \<and> t_cap t = n" sessions_of "spec_step n"
proof unfold_locales
  fix t e assume inv: "tracer_inv t \<and> t_cap t = n"
  show "tracer_inv (tracer_step t e) \<and> t_cap (tracer_step t e) = n"
  proof (cases e)
    case (Traced r)
    with inv record_inv [of t r] show ?thesis by auto
  next
    case (Read k)
    with inv read_inv [of t k] show ?thesis by simp
  qed
  show "sessions_of (tracer_step t e) = spec_step n (sessions_of t) e"
  proof (cases e)
    case (Traced r)
    with inv record_inv [of t r] show ?thesis by auto
  next
    case (Read k)
    with inv read_inv [of t k] show ?thesis by simp
  qed
qed

lemma tracer_inv_new: "0 < n \<Longrightarrow> tracer_inv (newMessageTracer n) \<and> t_cap (newMessageTracer n) = n"
  by (simp add: tracer_inv_def newMessageTracer_def)

text \<open>Within its capacity the store keeps every record of every session, in order.\<close>

definition records_of :: "tracer_event list \<Rightarrow> tracedMessageRecord list" where
  "records_of es = List.map_filter (\<lambda>e. case e of Traced r \<Rightarrow> Some r | Read k \<Rightarrow> None) es"

definition spec_complete :: "tracedMessageRecord list \<Rightarrow> sessions \<Rightarrow> bool" where
  "spec_complete rs ss \<longleftrightarrow> distinct (map fst ss) \<and> fst ` set ss = r_tracingID ` set rs \<and>
     (\<forall>k xs. (k, xs) \<in> set ss \<longrightarrow> xs = filter (\<lambda>r. r_tracingID r = k) rs)"

lemma spec_complete_step:
  assumes "spec_complete rs ss" and "card (r_tracingID ` set (rs @ [r])) \<le> n"
  shows "spec_complete (rs @ [r]) (spec_record n ss r)"
proof (cases "map_of ss (r_tracingID r)")
  case None
  then have new: "r_tracingID r \<notin> fst ` set ss" by (simp add: map_of_eq_None_iff)
  have d: "distinct (map fst ss)" "fst ` set ss = r_tracingID ` set rs"
    using assms(1) by (auto simp: spec_complete_def)
  have "length ss = card (r_tracingID ` set rs)"
    using d distinct_card [OF d(1)] by simp
  moreover have "card (r_tracingID ` set (rs @ [r])) = Suc (card (r_tracingID ` set rs))"
    using new d(2) by simp
  ultimately have "take (n - 1) ss = ss" using assms(2) by simp
  moreover have "filter (\<lambda>r'. r_tracingID r' = r_tracingID r) rs = []"
    using new d(2) unfolding filter_empty_conv by (metis image_eqI)
  ultimately show ?thesis
    using assms(1) None new by (auto simp: spec_record_def spec_complete_def)
next
  case (Some xs)
  let ?rest = "filter (\<lambda>(k, rs). k \<noteq> r_tracingID r) ss"
  have c: "distinct (map fst ss)" "fst ` set ss = r_tracingID ` set rs"
      "\<And>k xs. (k, xs) \<in> set ss \<Longrightarrow> xs = filter (\<lambda>r. r_tracingID r = k) rs"
    using assms(1) by (auto simp: spec_complete_def)
  have m: "(r_tracingID r, xs) \<in> set ss" using Some by (rule map_of_SomeD)
  have xs: "xs = filter (\<lambda>r'. r_tracingID r' = r_tracingID r) rs" using c(3) [OF m] .
  have f: "fst ` set ?rest = fst ` set ss - {r_tracingID r}" by force
  have r: "r_tracingID r \<in> fst ` set ss" using m by (metis fst_conv image_eqI)
  have "distinct (map fst ?rest)" using c(1) by (rule distinct_map_filter)
  moreover have "ys = filter (\<lambda>r. r_tracingID r = k) (rs @ [r])" if "(k, ys) \<in> set ?rest" for k ys
    using c(3) [of k ys] that by auto
  ultimately show ?thesis
    using Some f r c(2) xs by (auto simp: spec_record_def spec_complete_def simp del: set_filter)
qed

lemma spec_complete_run:
  "card (r_tracingID ` set rs) \<le> n \<Longrightarrow> spec_complete rs (foldl (spec_step n) [] (map Traced rs))"
proof (induction rs rule: rev_induct)
  case Nil
  then show ?case by (simp add: spec_complete_def)
next
  case (snoc r rs)
  have "card (r_tracingID ` set rs) \<le> card (r_tracingID ` set (rs @ [r]))"
    by (intro card_mono) auto
  with snoc show ?case by (simp add: spec_complete_step)
qed

section \<open>Properties\<close>

text \<open>
  C18 (messageTracing service): for any sequence of records and reads, handled one after the other, no
  handler panics, the list and the map stay in agreement and within the capacity, and the store
  behaves as the specification: a record joins its session, which becomes the most recent one, or
  opens a session, dropping the session used longest ago when the store is full; a read returns
  the session's records and removes it, and a read with the zero id returns and removes all.
\<close>

theorem tracer_refines_lru:
  assumes "0 < n" and "t = foldl tracer_step (newMessageTracer n) es"
  shows "sessions_of t = foldl (spec_step n) [] es \<and>
    snd (readTracedMsg_Handle k t) = spec_read (foldl (spec_step n) [] es) k \<and>
    length (t_lru t) \<le> n \<and> (\<exists>t'. tracedMessageRecord_Handle r t = Ret t') \<and>
    (\<forall>k e. lookup_session k t = Some e \<longleftrightarrow> (\<exists>s. (e, s) \<in> set (t_lru t) \<and> s_tracingID s = k))"
proof -
  have ok: "list_all (\<lambda>e. True) es" by (simp add: list_all_iff)
  have inv: "tracer_inv t \<and> t_cap t = n"
    unfolding assms(2) by (rule tracer.run_inv [OF tracer_inv_new [OF assms(1)] ok])
  have abs: "sessions_of t = foldl (spec_step n) [] es"
    unfolding assms(2) tracer.run_abs [OF tracer_inv_new [OF assms(1)] ok]
    by (simp add: sessions_of_def newMessageTracer_def)
  show ?thesis
    using inv abs read_inv [of t k] record_inv [of t r] inv_lut [of t]
    by (auto simp: tracer_inv_def lookup_session_def)
qed

definition demo_rec :: "nat \<Rightarrow> string \<Rightarrow> tracedMessageRecord" where
  "demo_rec k m = \<lparr>r_timeStamp = 0, r_msg = m, r_tracingID = \<lparr>u_id = k, u_seqNum = 0\<rparr>, r_tag = ''client send'',
     r_connInfo = []\<rparr>"

theorem tracer_refines_lru_witness:
  "snd (readTracedMsg_Handle \<lparr>u_id = 1, u_seqNum = 0\<rparr> (foldl tracer_step (newMessageTracer 2)
     [Traced (demo_rec 1 ''a''), Traced (demo_rec 2 ''b''), Traced (demo_rec 1 ''c''), Traced (demo_rec 3 ''d'')])) =
     [demo_rec 1 ''a'', demo_rec 1 ''c'']"
proof -
  let ?es = "[Traced (demo_rec 1 ''a''), Traced (demo_rec 2 ''b''), Traced (demo_rec 1 ''c''), Traced (demo_rec 3 ''d'')]"
  have "spec_read (foldl (spec_step 2) [] ?es) \<lparr>u_id = 1, u_seqNum = 0\<rparr> = [demo_rec 1 ''a'', demo_rec 1 ''c'']"
    by (simp add: spec_read_def spec_record_def demo_rec_def uuid_Nil_def)
  then show ?thesis
    using tracer_refines_lru [of 2 _ ?es "\<lparr>u_id = 1, u_seqNum = 0\<rparr>", OF _ refl] by simp
qed

text \<open>
  As long as no more sessions than the capacity of 4096 were traced since
  the store was empty, nothing is lost: reading a session returns all its records, in the order
  in which they came.
\<close>

theorem tracer_complete_within_capacity:
  assumes "card (r_tracingID ` set rs) \<le> MaxTracingSessions" and "u_id k \<noteq> uuid_Nil"
  shows "snd (readTracedMsg_Handle k (foldl tracer_step (newMessageTracer MaxTracingSessions) (map Traced rs))) =
    filter (\<lambda>r. r_tracingID r = k) rs"
proof -
  let ?n = MaxTracingSessions
  let ?t = "foldl tracer_step (newMessageTracer ?n) (map Traced rs)"
  let ?ss = "foldl (spec_step ?n) [] (map Traced rs)"
  have n: "0 < ?n" by (simp add: MaxTracingSessions_def)
  have ok: "list_all (\<lambda>e. True) (map Traced rs)" by (simp add: list_all_iff)
  have inv: "tracer_inv ?t" using tracer.run_inv [OF tracer_inv_new [OF n] ok] by simp
  have "sessions_of ?t = ?ss"
    using tracer.run_abs [OF tracer_inv_new [OF n] ok] by (simp add: sessions_of_def newMessageTracer_def)
  with read_inv [OF inv, of k] have r: "snd (readTracedMsg_Handle k ?t) = spec_read ?ss k" by simp
  have c: "spec_complete rs ?ss" using spec_complete_run [OF assms(1)] .
  show ?thesis
  proof (cases "map_of ?ss k")
    case None
    then have "k \<notin> r_tracingID ` set rs" using c by (auto simp: spec_complete_def map_of_eq_None_iff)
    then have "filter (\<lambda>r. r_tracingID r = k) rs = []" unfolding filter_empty_conv by (metis image_eqI)
    with None r assms(2) show ?thesis by (simp add: spec_read_def)
  next
    case (Some xs)
    then have "xs = filter (\<lambda>r. r_tracingID r = k) rs" using c by (auto simp: spec_complete_def dest: map_of_SomeD)
    with Some r assms(2) show ?thesis by (simp add: spec_read_def)
  qed
qed

theorem tracer_complete_within_capacity_witness:
  "snd (readTracedMsg_Handle \<lparr>u_id = 1, u_seqNum = 0\<rparr> (foldl tracer_step (newMessageTracer MaxTracingSessions)
     (map Traced [demo_rec 1 ''a'', demo_rec 2 ''b'', demo_rec 1 ''c'']))) = [demo_rec 1 ''a'', demo_rec 1 ''c'']"
proof -
  have "card (r_tracingID ` set [demo_rec 1 ''a'', demo_rec 2 ''b'', demo_rec 1 ''c'']) \<le> card (set [demo_rec 1 ''a'', demo_rec 2 ''b'', demo_rec 1 ''c''])"
    by (rule card_image_le) simp
  also have "\<dots> \<le> MaxTracingSessions"
    using card_length [of "[demo_rec 1 ''a'', demo_rec 2 ''b'', demo_rec 1 ''c'']"] by (simp add: MaxTracingSessions_def)
  finally show ?thesis
    by (subst tracer_complete_within_capacity) (auto simp: uuid_Nil_def demo_rec_def)
qed

text \<open>
  A deviation. Two handlers of the first two records of a session
  may run at once: both look the session up before either has inserted it. Each then inserts a
  session of its own, the map keeps the second only, and a read of the session returns one of the
  two records.
\<close>

theorem concurrent_first_records_lost:
  "\<exists>t1 t2. lookup_session \<lparr>u_id = 1, u_seqNum = 0\<rparr> (newMessageTracer MaxTracingSessions) = None \<and>
     commit_new (demo_rec 1 ''a'') (newMessageTracer MaxTracingSessions) = Ret t1 \<and>
     commit_new (demo_rec 1 ''b'') t1 = Ret t2 \<and>
     snd (readTracedMsg_Handle \<lparr>u_id = 1, u_seqNum = 0\<rparr> t2) = [demo_rec 1 ''b'']"
  by (simp add: lookup_session_def newMessageTracer_def commit_new_def demo_rec_def MaxTracingSessions_def
      readTracedMsg_Handle_def uuid_Nil_def Let_def)

end
