(* ===== verification/Messages.thy ===== *)
theory Messages
  imports Channel MessageTracer
begin

text \<open>
  Messages as the transports see them (\<open>message.go\<close>), the context of a stream (\<open>context.go\<close>) and the
  registry of message types (\<open>adaptiveservice.go\<close>). A Go value is its dynamic type and a payload; a
  pointer carries the payload of what it points to, payload 0 is the zero value. Which types have
  the method \<open>Handle\<close> is a parameter of what follows.
\<close>

section \<open>Values\<close>

datatype gotype = TName string | TPtr gotype | TAny

datatype govalue = V gotype nat | NilPtr gotype

fun type_of :: "govalue \<Rightarrow> gotype" where
  "type_of (V t d) = t"
| "type_of (NilPtr t) = TPtr t"

fun is_TPtr :: "gotype \<Rightarrow> bool" where
  "is_TPtr (TPtr t) = True"
| "is_TPtr _ = False"

text \<open>\<open>reflect.Value.Elem\<close> of a pointer; \<open>None\<close> is the invalid value that a nil pointer gives.\<close>

fun elem_of :: "govalue \<Rightarrow> govalue option" where
  "elem_of (V (TPtr t) d) = Some (V t d)"
| "elem_of _ = None"

fun zero_of :: "gotype \<Rightarrow> govalue" where
  "zero_of (TPtr t) = NilPtr t"
| "zero_of t = V t 0"

text \<open>An error made by \<open>errors.New\<close>, which \<open>%#v\<close> prints with its text, or any other error value.\<close>

datatype goerror = ErrorString string | OtherError string

definition io_EOF :: goerror where "io_EOF = ErrorString ''EOF''"
definition ErrConnReset :: goerror where "ErrConnReset = ErrorString ''connection reset by peer''"
definition ErrRecvTimeout :: goerror where "ErrRecvTimeout = ErrorString ''receive timeout''"
definition ErrMsgTooLarge :: goerror where "ErrMsgTooLarge = ErrorString ''message size exceeds uint32''"

datatype gomsg = MValue govalue | MError goerror

definition streamCloseMsg :: gomsg where
  "streamCloseMsg = MValue (V (TName ''adaptiveservice.streamCloseMsg'') 0)"

definition is_streamCloseMsg :: "gomsg \<Rightarrow> bool" where
  "is_streamCloseMsg msg =
     (case msg of MValue v \<Rightarrow> type_of v = TName ''adaptiveservice.streamCloseMsg'' | MError e \<Rightarrow> False)"

text \<open>The features that travel with a message: the tracing id, when there is one.\<close>

type_synonym transportFeats = "uuidInfo list"

record metaMsg =
  mm_msg :: gomsg
  mm_feats :: transportFeats

definition getTracingID_feats :: "transportFeats \<Rightarrow> uuidInfo option" where
  "getTracingID_feats tfs = (if length tfs = 0 then None else Some (tfs ! 0))"

section \<open>What a pointer argument receives\<close>

text \<open>The argument of \<open>Recv\<close> and \<open>GetVar\<close>: nil, something that is not a non-nil pointer, or a pointer.\<close>

datatype target = TargetNil | TargetBad | Target gotype

text \<open>
  \<open>rv.Set(mrv)\<close>: the value is stored if its type is the variable's or the variable is an interface,
  otherwise \<open>Set\<close> panics and the caller recovers. With \<open>deref\<close> a pointer is followed when the variable
  is not a pointer.
\<close>

definition assign :: "bool \<Rightarrow> gotype \<Rightarrow> govalue \<Rightarrow> govalue option" where
  "assign deref t v =
     (case (if deref \<and> \<not> is_TPtr t \<and> is_TPtr (type_of v) then elem_of v else Some v) of
        None \<Rightarrow> None
      | Some v' \<Rightarrow> if t = TAny \<or> type_of v' = t then Some v' else None)"

section \<open>Context\<close>

record contextImpl =
  kv :: "(gotype, govalue) gomap option"
  ctx :: "govalue option"

definition new_context :: contextImpl where
  "new_context = \<lparr>kv = None, ctx = None\<rparr>"

definition PutVar :: "govalue \<Rightarrow> contextImpl \<Rightarrow> contextImpl" where
  "PutVar v c =
     (let m = (case kv c of None \<Rightarrow> [] | Some m \<Rightarrow> m)
      in c\<lparr>kv := Some (AList.update (type_of v) v m)\<rparr>)"

definition GetVar :: "target \<Rightarrow> contextImpl \<Rightarrow> govalue outcome" where
  "GetVar p c =
     (case p of
        Target t \<Rightarrow>
          Ret (case kv c of
                 None \<Rightarrow> zero_of t
               | Some m \<Rightarrow> (case map_of m t of None \<Rightarrow> zero_of t | Some v \<Rightarrow> v))
      | _ \<Rightarrow> Panic ''not a pointer or nil pointer'')"

fun is_pointer :: "govalue \<Rightarrow> bool" where
  "is_pointer (V (TPtr t) d) = True"
| "is_pointer _ = False"

definition SetContext :: "govalue \<Rightarrow> contextImpl \<Rightarrow> contextImpl outcome" where
  "SetContext v c = (if \<not> is_pointer v then Panic ''not a pointer or nil pointer'' else Ret (c\<lparr>ctx := Some v\<rparr>))"

definition GetContext :: "contextImpl \<Rightarrow> govalue option" where
  "GetContext c = ctx c"

text \<open>The variables of a context are a map from types to values.\<close>

definition var_at :: "contextImpl \<Rightarrow> gotype \<Rightarrow> govalue option" where
  "var_at c t = (case kv c of None \<Rightarrow> None | Some m \<Rightarrow> map_of m t)"

lemma GetVar_at: "GetVar (Target t) c = Ret (case var_at c t of None \<Rightarrow> zero_of t | Some v \<Rightarrow> v)"
  by (auto simp: GetVar_def var_at_def split: option.splits)

lemma var_at_Put: "var_at (PutVar v c) t = (if t = type_of v then Some v else var_at c t)"
  by (auto simp: var_at_def PutVar_def Let_def split: option.splits)

section \<open>Registered types\<close>

type_synonym type_registry = "(string, gotype) gomap"

fun type_name :: "gotype \<Rightarrow> string" where
  "type_name (TName n) = n"
| "type_name (TPtr t) = ''*'' @ type_name t"
| "type_name TAny = ''interface {}''"

definition RegisterType :: "gotype \<Rightarrow> type_registry \<Rightarrow> type_registry" where
  "RegisterType rt reg =
     (let name = type_name rt in
      case map_of reg name of Some t \<Rightarrow> reg | None \<Rightarrow> AList.update name rt reg)"

definition GetAllMessageTypes :: "type_registry \<Rightarrow> string list" where
  "GetAllMessageTypes reg = map fst reg"

definition GetKnownMessageTypes :: "(gotype \<Rightarrow> bool) \<Rightarrow> type_registry \<Rightarrow> string list" where
  "GetKnownMessageTypes handles reg = map fst (filter (\<lambda>(name, rt). handles rt) reg)"

definition GetRegisteredTypeByName :: "string \<Rightarrow> type_registry \<Rightarrow> gotype option" where
  "GetRegisteredTypeByName name reg = map_of reg name"

lemma RegisterType_first:
  "map_of (RegisterType rt reg) n =
     (case map_of reg n of Some t \<Rightarrow> Some t | None \<Rightarrow> if n = type_name rt then Some rt else None)"
  by (auto simp: RegisterType_def Let_def split: option.splits)

end
