(* ===== verification/Transport.thy ===== *)
theory Transport
  imports Messages Naming
begin

text \<open>
  The message layer of the two transports. The server side dispatches what a connection brings
  (\<open>handleConn\<close> in \<open>streamtransportserver.go\<close>, the goroutine of \<open>receiver\<close> in \<open>chantransportserver.go\<close>):
  messages are sorted into streams by the client's channel, known messages go to the message queue
  and all others to the private channel of their stream. A stream has \<open>Send\<close>, \<open>Recv\<close> and \<open>SendRecv\<close> on
  both sides (four types). \<open>None\<close> is blocking on a full or empty channel. When a \<open>select\<close> of \<open>Recv\<close> has
  several ready cases, the argument \<open>choice\<close> says which one it takes. What \<open>getTracingID\<close> returns for
  a message is the argument \<open>tid\<close>; what is handed to \<open>traceMsg\<close> is collected in the stream (\<open>traced\<close>).
  Which types are known messages is \<open>handles\<close>; decoding yields a transport message or an error.
\<close>

section \<open>Dispatch\<close>

text \<open>
  A service; of its functions only whether they are set. Of its server it carries what it reads:
  \<open>msgTypeCheck\<close> and the queue size.
\<close>

record service =
  publisherName :: string
  serviceName :: string
  svc_providerID :: string
  knownMsgTypes :: "gotype list"
  msgTypeCheck :: bool
  svc_scope :: Scope
  useNamedUDS :: bool
  fnOnConnect :: bool
  fnOnDisconnect :: bool
  fnOnNewStream :: bool
  fnOnStreamClose :: bool
  svc_qsize :: nat

definition canHandle :: "(gotype \<Rightarrow> bool) \<Rightarrow> service \<Rightarrow> gomsg \<Rightarrow> bool" where
  "canHandle handles svc msg =
     (case msg of
        MError e \<Rightarrow> False
      | MValue v \<Rightarrow>
          if \<not> handles (type_of v) then False
          else if msgTypeCheck svc then type_of v \<in> set (knownMsgTypes svc) else True)"

text \<open>A message as it comes from the connection; a failed decoding leaves the error in it.\<close>

record 'id transportMsg =
  tm_chan :: 'id
  tm_msg :: gomsg
  tm_feats :: transportFeats
  tm_decErr :: "goerror option"

record serverStream =
  ss_ctx :: contextImpl
  privateChan :: "metaMsg chan"

datatype 'id hook = OnNewStream 'id | OnStreamClose 'id

record 'id connState =
  ssMap :: "('id, serverStream) gomap"
  enqueued :: "('id \<times> metaMsg) list"
  replied :: "('id \<times> gomsg) list"
  hooks :: "'id hook list"

definition new_connState :: "'id connState" where
  "new_connState = \<lparr>ssMap = [], enqueued = [], replied = [], hooks = []\<rparr>"

text \<open>The stream of the message's channel, created when it is not known yet; \<open>mqv\<close> is the queue pointer.\<close>

definition get_stream :: "service \<Rightarrow> govalue \<Rightarrow> nat \<Rightarrow> 'id \<Rightarrow> 'id connState \<Rightarrow> serverStream \<times> 'id connState" where
  "get_stream svc mqv n i st =
     (case map_of (ssMap st) i of
        Some ss \<Rightarrow> (ss, st)
      | None \<Rightarrow>
          (let ss = \<lparr>ss_ctx = PutVar mqv new_context, privateChan = make_chan n\<rparr>
           in (ss, st\<lparr>ssMap := AList.update i ss (ssMap st),
                      hooks := hooks st @ (if fnOnNewStream svc then [OnNewStream i] else [])\<rparr>)))"

definition close_stream :: "service \<Rightarrow> 'id \<Rightarrow> 'id connState \<Rightarrow> 'id connState" where
  "close_stream svc i st =
     st\<lparr>ssMap := AList.delete i (ssMap st),
        hooks := hooks st @ (if fnOnStreamClose svc then [OnStreamClose i] else [])\<rparr>"

text \<open>One turn of \<open>handleConn\<close>'s loop after reading.\<close>

definition stream_dispatch ::
  "(gotype \<Rightarrow> bool) \<Rightarrow> service \<Rightarrow> govalue \<Rightarrow> 'id transportMsg \<Rightarrow> 'id connState \<Rightarrow> 'id connState option" where
  "stream_dispatch handles svc mqv tm st =
     (let i = tm_chan tm;
          (ss, st) = get_stream svc mqv (svc_qsize svc) i st
      in if is_streamCloseMsg (tm_msg tm) then Some (close_stream svc i st)
         else case tm_decErr tm of
           Some e \<Rightarrow> Some (st\<lparr>replied := replied st @ [(i, MError e)]\<rparr>)
         | None \<Rightarrow>
             (let mm = \<lparr>mm_msg = tm_msg tm, mm_feats = tm_feats tm\<rparr> in
              if canHandle handles svc (tm_msg tm) then Some (st\<lparr>enqueued := enqueued st @ [(i, mm)]\<rparr>)
              else map_option (\<lambda>ch. st\<lparr>ssMap := AList.update i (ss\<lparr>privateChan := ch\<rparr>) (ssMap st)\<rparr>)
                     (try_send mm (privateChan ss))))"

text \<open>One turn of the loop of the channel transport; \<open>n\<close> is the capacity of the client's channel.\<close>

definition chan_dispatch ::
  "(gotype \<Rightarrow> bool) \<Rightarrow> service \<Rightarrow> govalue \<Rightarrow> nat \<Rightarrow> 'id transportMsg \<Rightarrow> 'id connState \<Rightarrow> 'id connState option" where
  "chan_dispatch handles svc mqv n tm st =
     (let i = tm_chan tm;
          (ss, st) = get_stream svc mqv n i st
      in if is_streamCloseMsg (tm_msg tm) then Some (close_stream svc i st)
         else
           (let mm = \<lparr>mm_msg = tm_msg tm, mm_feats = tm_feats tm\<rparr> in
            if canHandle handles svc (tm_msg tm) then Some (st\<lparr>enqueued := enqueued st @ [(i, mm)]\<rparr>)
            else map_option (\<lambda>ch. st\<lparr>ssMap := AList.update i (ss\<lparr>privateChan := ch\<rparr>) (ssMap st)\<rparr>)
                   (try_send mm (privateChan ss))))"

text \<open>
  The goroutine of a channel connection: \<open>CloseSeen\<close> is the \<open>select\<close> taking the closed \<open>connClose\<close>,
  after which it closes its receive channel and only drains it; \<open>Incoming\<close> takes the next message.
\<close>

record 'id chanConn =
  cc_closing :: bool
  cc_recv :: "'id transportMsg chan"
  cc_state :: "'id connState"
  cc_ended :: bool

datatype chan_choice = CloseSeen | Incoming

definition chan_turn ::
  "(gotype \<Rightarrow> bool) \<Rightarrow> service \<Rightarrow> govalue \<Rightarrow> nat \<Rightarrow> chan_choice \<Rightarrow> 'id chanConn \<Rightarrow> 'id chanConn option" where
  "chan_turn handles svc mqv n choice c =
     (case choice of
        CloseSeen \<Rightarrow>
          (if cc_closing c \<or> cc_ended c then None
           else Some (c\<lparr>cc_closing := True, cc_recv := (cc_recv c)\<lparr>closed := True\<rparr>\<rparr>))
      | Incoming \<Rightarrow>
          (if cc_ended c then None
           else case chan_recv (cc_recv c) of
             None \<Rightarrow> None
           | Some (None, ch) \<Rightarrow> Some (c\<lparr>cc_ended := True\<rparr>)
           | Some (Some tm, ch) \<Rightarrow>
               map_option (\<lambda>st. c\<lparr>cc_recv := ch, cc_state := st\<rparr>)
                 (chan_dispatch handles svc mqv n tm (cc_state c))))"

section \<open>Streams\<close>

datatype recv_choice = TakeClosed | TakeTimeout | TakeMsg

datatype recv_result = Received "govalue option" | RecvErr goerror

text \<open>What \<open>Recv\<close> does with a message it took; \<open>deref\<close> as in \<open>assign\<close>.\<close>

definition recv_msg :: "bool \<Rightarrow> target \<Rightarrow> gomsg \<Rightarrow> recv_result" where
  "recv_msg deref p msg =
     (case msg of
        MError e \<Rightarrow> RecvErr e
      | MValue v \<Rightarrow>
          (case p of
             Target t \<Rightarrow>
               (case assign deref t v of
                  None \<Rightarrow> RecvErr (OtherError ''message type mismatch'')
                | Some v' \<Rightarrow> Received (Some v'))
           | _ \<Rightarrow> Received None))"

text \<open>A call of \<open>traceMsg\<close> when there is a tracing id: the message, its id and the tag.\<close>

type_synonym traced_call = "gomsg \<times> uuidInfo \<times> string"

definition note_trace :: "uuidInfo option \<Rightarrow> string \<Rightarrow> gomsg \<Rightarrow> traced_call list \<Rightarrow> traced_call list" where
  "note_trace tid tag msg l = (case tid of None \<Rightarrow> l | Some u \<Rightarrow> l @ [(msg, u, tag)])"

definition mk_feats :: "uuidInfo option \<Rightarrow> transportFeats" where
  "mk_feats tid = (case tid of None \<Rightarrow> [] | Some u \<Rightarrow> [u])"

text \<open>
  The client's stream over a channel: its own channel, nil after EOF was received, the server's
  receive channel, the timeout.
\<close>

record chanClientStream =
  cs_id :: nat
  cs_msgChan :: "metaMsg chan option"
  cs_serverChan :: "nat transportMsg chan"
  cs_d :: int
  cs_deepCopy :: bool
  cs_traced :: "traced_call list"

definition chanClient_Send ::
  "(gomsg \<Rightarrow> gomsg) \<Rightarrow> uuidInfo option \<Rightarrow> gomsg \<Rightarrow> chanClientStream \<Rightarrow> (goerror option \<times> chanClientStream) option outcome" where
  "chanClient_Send deepcopy tid msg cs =
     (if cs_msgChan cs = None then Ret (Some (Some io_EOF, cs))
      else
        let msg = (if cs_deepCopy cs then deepcopy msg else msg) in
        bind_outcome
          (chan_send \<lparr>tm_chan = cs_id cs, tm_msg = msg, tm_feats = mk_feats tid, tm_decErr = None\<rparr> (cs_serverChan cs))
          (\<lambda>r. Ret (map_option (\<lambda>ch.
             (None, cs\<lparr>cs_serverChan := ch, cs_traced := note_trace tid ''client send'' msg (cs_traced cs)\<rparr>)) r)))"

definition chanClient_Recv ::
  "recv_choice \<Rightarrow> target \<Rightarrow> chanClientStream \<Rightarrow> (recv_result \<times> chanClientStream) option outcome" where
  "chanClient_Recv choice p cs =
     (case cs_msgChan cs of
        None \<Rightarrow> Ret (Some (RecvErr io_EOF, cs))
      | Some ch \<Rightarrow>
          if p = TargetBad then Panic ''not a pointer or nil pointer''
          else Ret (case choice of
              TakeTimeout \<Rightarrow> if cs_d cs > 0 then Some (RecvErr ErrRecvTimeout, cs) else None
            | TakeMsg \<Rightarrow>
                map_option (\<lambda>(mm, ch').
                  let cs = cs\<lparr>cs_traced := note_trace (getTracingID_feats (mm_feats mm)) ''client recv'' (mm_msg mm) (cs_traced cs)\<rparr> in
                  (if mm_msg mm = MError io_EOF then (RecvErr io_EOF, cs\<lparr>cs_msgChan := None\<rparr>)
                   else (recv_msg True p (mm_msg mm), cs\<lparr>cs_msgChan := Some ch'\<rparr>))) (try_recv ch)
            | TakeClosed \<Rightarrow> None))"

text \<open>The client's stream over a network connection; \<open>out\<close> is what was written to the connection.\<close>

record streamClientStream =
  scs_id :: nat
  scs_msgChan :: "metaMsg chan option"
  conn_closed :: bool
  conn_broken :: bool
  scs_out :: "nat transportMsg list"
  encMainCopy :: bool
  scs_d :: int
  scs_traced :: "traced_call list"

text \<open>
  \<open>too_large\<close> says whether the encoded message exceeds the limit. The flag \<open>encMainCopy\<close> is taken by the
  first of several concurrent senders and given back after writing, but not when the message is
  too large.
\<close>

definition streamClient_Send ::
  "(gomsg \<Rightarrow> bool) \<Rightarrow> uuidInfo option \<Rightarrow> gomsg \<Rightarrow> streamClientStream \<Rightarrow> goerror option \<times> streamClientStream" where
  "streamClient_Send too_large tid msg cs =
     (if scs_msgChan cs = None \<or> conn_closed cs then (Some io_EOF, cs)
      else
        let mainCopy = \<not> encMainCopy cs;
            cs = cs\<lparr>encMainCopy := True\<rparr>;
            tm = \<lparr>tm_chan = scs_id cs, tm_msg = msg, tm_feats = mk_feats tid, tm_decErr = None\<rparr>
        in if too_large msg then (Some ErrMsgTooLarge, cs)
           else
             let cs' = (if mainCopy then cs\<lparr>encMainCopy := False\<rparr> else cs) in
             if conn_broken cs then (Some (OtherError ''write error''), cs')
             else (None, cs'\<lparr>scs_out := scs_out cs @ [tm], scs_traced := note_trace tid ''client send'' msg (scs_traced cs)\<rparr>))"

definition streamClient_Recv ::
  "recv_choice \<Rightarrow> target \<Rightarrow> streamClientStream \<Rightarrow> (recv_result \<times> streamClientStream) option outcome" where
  "streamClient_Recv choice p cs =
     (case scs_msgChan cs of
        None \<Rightarrow> Ret (Some (RecvErr io_EOF, cs))
      | Some ch \<Rightarrow>
          if conn_closed cs then Ret (Some (RecvErr io_EOF, cs))
          else if p = TargetBad then Panic ''not a pointer or nil pointer''
          else Ret (case choice of
              TakeClosed \<Rightarrow> if conn_broken cs then Some (RecvErr ErrConnReset, cs) else None
            | TakeTimeout \<Rightarrow> if scs_d cs > 0 then Some (RecvErr ErrRecvTimeout, cs) else None
            | TakeMsg \<Rightarrow>
                map_option (\<lambda>(mm, ch').
                  let cs = cs\<lparr>scs_traced := note_trace (getTracingID_feats (mm_feats mm)) ''client recv'' (mm_msg mm) (scs_traced cs)\<rparr> in
                  (if mm_msg mm = MError io_EOF then (RecvErr io_EOF, cs\<lparr>scs_msgChan := None\<rparr>)
                   else (recv_msg True p (mm_msg mm), cs\<lparr>scs_msgChan := Some ch'\<rparr>))) (try_recv ch)))"

text \<open>
  The server's streams. The connection's \<open>connClose\<close> is shared by its streams: open, closed but not
  yet set to nil, or nil. The goroutine that runs a handler remembers the tracing id of what it
  received last. \<open>sv_who\<close> is the first word of the tags, \<open>publisher/service@provider\<close>.
\<close>

datatype conn_close = CCOpen | CCClosed | CCNil

record serverSide =
  sv_connClose :: conn_close
  sv_private :: "metaMsg chan"
  sv_sent :: "metaMsg list"
  sv_encMainCopy :: bool
  sv_d :: int
  sv_routine :: "uuidInfo option"
  sv_who :: string
  sv_traced :: "traced_call list"

definition chanServer_Send :: "uuidInfo option \<Rightarrow> nat \<Rightarrow> gomsg \<Rightarrow> serverSide \<Rightarrow> (goerror option \<times> serverSide) option" where
  "chanServer_Send tid room msg ss =
     (if sv_connClose ss = CCNil then Some (Some io_EOF, ss)
      else if room = 0 then None
      else Some (None, ss\<lparr>sv_sent := sv_sent ss @ [\<lparr>mm_msg = msg, mm_feats = mk_feats tid\<rparr>],
                         sv_traced := note_trace tid (sv_who ss @ '' send'') msg (sv_traced ss)\<rparr>))"

text \<open>\<open>send\<close> of the network stream: \<open>too_large\<close> and \<open>broken\<close> say whether encoding or writing fails.\<close>

definition streamServer_send ::
  "(gomsg \<Rightarrow> bool) \<Rightarrow> bool \<Rightarrow> metaMsg \<Rightarrow> serverSide \<Rightarrow> goerror option \<times> serverSide" where
  "streamServer_send too_large broken mm ss =
     (let mainCopy = \<not> sv_encMainCopy ss;
          ss = ss\<lparr>sv_encMainCopy := True\<rparr>
      in if too_large (mm_msg mm) then (Some ErrMsgTooLarge, ss)
         else
           let ss' = (if mainCopy then ss\<lparr>sv_encMainCopy := False\<rparr> else ss) in
           if broken then (Some (OtherError ''write error''), ss')
           else (None, ss'\<lparr>sv_sent := sv_sent ss @ [mm]\<rparr>))"

definition streamServer_Send ::
  "(gomsg \<Rightarrow> bool) \<Rightarrow> bool \<Rightarrow> uuidInfo option \<Rightarrow> gomsg \<Rightarrow> serverSide \<Rightarrow> goerror option \<times> serverSide" where
  "streamServer_Send too_large broken tid msg ss =
     (if sv_connClose ss = CCNil then (Some io_EOF, ss)
      else case streamServer_send too_large broken \<lparr>mm_msg = msg, mm_feats = mk_feats tid\<rparr> ss of
             (Some e, ss') \<Rightarrow> (Some e, ss')
           | (None, ss') \<Rightarrow> (None, ss'\<lparr>sv_traced := note_trace tid (sv_who ss @ '' send'') msg (sv_traced ss)\<rparr>))"

definition server_Recv ::
  "bool \<Rightarrow> recv_choice \<Rightarrow> target \<Rightarrow> serverSide \<Rightarrow> (recv_result \<times> serverSide) option outcome" where
  "server_Recv deref choice p ss =
     (if sv_connClose ss = CCNil then Ret (Some (RecvErr io_EOF, ss))
      else if p = TargetBad then Panic ''not a pointer or nil pointer''
      else Ret (case choice of
          TakeClosed \<Rightarrow> if sv_connClose ss = CCClosed then Some (RecvErr io_EOF, ss) else None
        | TakeTimeout \<Rightarrow> if sv_d ss > 0 then Some (RecvErr ErrRecvTimeout, ss) else None
        | TakeMsg \<Rightarrow>
            map_option (\<lambda>(mm, ch').
              (recv_msg deref p (mm_msg mm),
               ss\<lparr>sv_private := ch', sv_routine := getTracingID_feats (mm_feats mm),
                  sv_traced := note_trace (getTracingID_feats (mm_feats mm)) (sv_who ss @ '' recv'') (mm_msg mm) (sv_traced ss)\<rparr>)) (try_recv (sv_private ss))))"

definition chanServer_Recv where "chanServer_Recv = server_Recv False"
definition streamServer_Recv where "streamServer_Recv = server_Recv True"

text \<open>\<open>SendRecv\<close>, the same for all four: an error of \<open>Send\<close> ends it, otherwise it is \<open>Recv\<close>.\<close>

definition SendRecv ::
  "('s \<Rightarrow> (goerror option \<times> 's) option outcome) \<Rightarrow> ('s \<Rightarrow> (recv_result \<times> 's) option outcome) \<Rightarrow>
   's \<Rightarrow> (recv_result \<times> 's) option outcome" where
  "SendRecv send recv s =
     bind_outcome (send s) (\<lambda>r.
       case r of
         None \<Rightarrow> Ret None
       | Some (Some e, s') \<Rightarrow> Ret (Some (RecvErr e, s'))
       | Some (None, s') \<Rightarrow> recv s')"

text \<open>New streams of the client, with a channel of the given capacity, and closing them.\<close>

definition chan_NewStream :: "nat \<Rightarrow> nat transportMsg chan \<Rightarrow> bool \<Rightarrow> chanClientStream" where
  "chan_NewStream i serverChan deep =
     \<lparr>cs_id = i, cs_msgChan = Some (make_chan (capacity serverChan)), cs_serverChan = serverChan, cs_d = 0,
      cs_deepCopy = deep, cs_traced = []\<rparr>"

definition stream_NewStream :: "nat \<Rightarrow> nat \<Rightarrow> streamClientStream" where
  "stream_NewStream i n =
     \<lparr>scs_id = i, scs_msgChan = Some (make_chan n), conn_closed = False, conn_broken = False, scs_out = [],
      encMainCopy = False, scs_d = 0, scs_traced = []\<rparr>"

definition chanClient_Close :: "chanClientStream \<Rightarrow> chanClientStream option outcome" where
  "chanClient_Close cs =
     bind_outcome (chanClient_Send (\<lambda>m. m) None streamCloseMsg cs) (\<lambda>r. Ret (map_option snd r))"

definition streamClient_Close :: "(gomsg \<Rightarrow> bool) \<Rightarrow> streamClientStream \<Rightarrow> streamClientStream" where
  "streamClient_Close too_large cs = snd (streamClient_Send too_large None streamCloseMsg cs)"

text \<open>
  The client's receiver goroutine after decoding a message: it follows the pointer in the message to
  the stream's channel variable. \<open>None\<close> in the table is a variable that is nil, where sending blocks
  forever, as the outcome \<open>Ret None\<close> does. A pointer that is not one of a stream faults, which is
  recovered.
\<close>

type_synonym clientStreams = "(nat, metaMsg chan option) gomap"

definition client_receive :: "nat transportMsg \<Rightarrow> clientStreams \<Rightarrow> clientStreams option outcome" where
  "client_receive tm streams =
     (if tm_chan tm \<noteq> 0 then
        (case map_of streams (tm_chan tm) of
           None \<Rightarrow> Ret (Some streams)
         | Some None \<Rightarrow> Ret None
         | Some (Some ch) \<Rightarrow>
             Ret (map_option (\<lambda>ch'. AList.update (tm_chan tm) (Some ch') streams)
               (try_send \<lparr>mm_msg = tm_msg tm, mm_feats = tm_feats tm\<rparr> ch)))
      else Panic ''msg channel not specified'')"

fun client_receive_all :: "nat transportMsg list \<Rightarrow> clientStreams \<Rightarrow> clientStreams option outcome" where
  "client_receive_all [] streams = Ret (Some streams)"
| "client_receive_all (tm # tms) streams =
     bind_outcome (client_receive tm streams) (\<lambda>r.
       case r of None \<Rightarrow> Ret None | Some streams' \<Rightarrow> client_receive_all tms streams')"

section \<open>The contract of a stream\<close>

text \<open>
  What the users of a stream rely on: once it has ended, both operations report EOF and change nothing;
  taking a message hands over the oldest one, its error or its value.
\<close>

locale message_stream =
  fixes send :: "gomsg \<Rightarrow> 's \<Rightarrow> (goerror option \<times> 's) option outcome"
    and recv :: "recv_choice \<Rightarrow> target \<Rightarrow> 's \<Rightarrow> (recv_result \<times> 's) option outcome"
    and incoming :: "'s \<Rightarrow> metaMsg list"
    and ended :: "'s \<Rightarrow> bool"
    and deref :: bool
  assumes send_ended: "ended s \<Longrightarrow> send m s = Ret (Some (Some io_EOF, s))"
    and recv_ended: "ended s \<Longrightarrow> recv c p s = Ret (Some (RecvErr io_EOF, s))"
    and send_keeps: "send m s = Ret (Some (e, s')) \<Longrightarrow> incoming s' = incoming s"
    and recv_takes: "\<not> ended s \<Longrightarrow> p \<noteq> TargetBad \<Longrightarrow> incoming s = mm # mms \<Longrightarrow>
      \<exists>s'. recv TakeMsg p s = Ret (Some (recv_msg deref p (mm_msg mm), s')) \<and> (ended s' \<or> incoming s' = mms)"
begin

definition op :: "gomsg + recv_choice \<times> target \<Rightarrow> 's \<Rightarrow> (goerror option \<times> 's) option outcome" where
  "op x s =
     (case x of
        Inl m \<Rightarrow> send m s
      | Inr (c, p) \<Rightarrow>
          bind_outcome (recv c p s) (\<lambda>r. Ret (map_option (\<lambda>(res, s').
            (case res of RecvErr e \<Rightarrow> Some e | Received v \<Rightarrow> None, s')) r)))"

fun ops :: "(gomsg + recv_choice \<times> target) list \<Rightarrow> 's \<Rightarrow> goerror option list option outcome" where
  "ops [] s = Ret (Some [])"
| "ops (x # xs) s =
     bind_outcome (op x s) (\<lambda>r.
       case r of
         None \<Rightarrow> Ret None
       | Some (e, s') \<Rightarrow> bind_outcome (ops xs s') (\<lambda>r. Ret (map_option (\<lambda>es. e # es) r)))"

lemma ended_forever: "ended s \<Longrightarrow> ops xs s = Ret (Some (replicate (length xs) (Some io_EOF)))"
  by (induction xs) (auto simp: op_def send_ended recv_ended split: sum.splits)

lemma SendRecv_ended: "ended s \<Longrightarrow> SendRecv (send m) (recv c p) s = Ret (Some (RecvErr io_EOF, s))"
  by (simp add: SendRecv_def send_ended)

lemma SendRecv_reply:
  assumes "send m s = Ret (Some (None, s1))" and "\<not> ended s1" and "p \<noteq> TargetBad" and "incoming s = mm # mms"
  shows "\<exists>s'. SendRecv (send m) (recv TakeMsg p) s = Ret (Some (recv_msg deref p (mm_msg mm), s'))"
  using recv_takes [of s1 p mm mms] send_keeps [OF assms(1)] assms by (auto simp: SendRecv_def)

end

lemma try_recv_Cons: "buffered ch = x # xs \<Longrightarrow> try_recv ch = Some (x, ch\<lparr>buffered := xs\<rparr>)"
  by (simp add: try_recv_def chan_recv_def)

abbreviation chan_incoming :: "metaMsg chan option \<Rightarrow> metaMsg list" where
  "chan_incoming ch \<equiv> case ch of None \<Rightarrow> [] | Some c \<Rightarrow> buffered c"

lemma recv_msg_Error [simp]: "recv_msg d p (MError e) = RecvErr e"
  by (simp add: recv_msg_def)

lemma chanClient_takes:
  assumes "cs_msgChan s \<noteq> None" and "p \<noteq> TargetBad" and "chan_incoming (cs_msgChan s) = mm # mms"
  shows "\<exists>s'. chanClient_Recv TakeMsg p s = Ret (Some (recv_msg True p (mm_msg mm), s')) \<and>
    (cs_msgChan s' = None \<or> chan_incoming (cs_msgChan s') = mms)"
proof -
  obtain ch where ch: "cs_msgChan s = Some ch" "buffered ch = mm # mms" using assms(1,3) by auto
  show ?thesis
    using ch assms(2) try_recv_Cons [OF ch(2)]
    by (cases "mm_msg mm = MError io_EOF") (simp_all add: chanClient_Recv_def Let_def)
qed

lemma streamClient_takes:
  assumes "\<not> (scs_msgChan s = None \<or> conn_closed s)" and "p \<noteq> TargetBad"
    and "chan_incoming (scs_msgChan s) = mm # mms"
  shows "\<exists>s'. streamClient_Recv TakeMsg p s = Ret (Some (recv_msg True p (mm_msg mm), s')) \<and>
    ((scs_msgChan s' = None \<or> conn_closed s') \<or> chan_incoming (scs_msgChan s') = mms)"
proof -
  obtain ch where ch: "scs_msgChan s = Some ch" "buffered ch = mm # mms" using assms(1,3) by auto
  show ?thesis
    using ch assms(1,2) try_recv_Cons [OF ch(2)]
    by (cases "mm_msg mm = MError io_EOF") (simp_all add: streamClient_Recv_def Let_def)
qed

interpretation chan_client: message_stream "chanClient_Send deepcopy tid" chanClient_Recv
  "\<lambda>cs. chan_incoming (cs_msgChan cs)" "\<lambda>cs. cs_msgChan cs = None" True
proof unfold_locales
  show "chan_incoming (cs_msgChan s') = chan_incoming (cs_msgChan s)"
    if "chanClient_Send deepcopy tid m s = Ret (Some (e, s'))" for m s e s'
    using that by (auto simp: chanClient_Send_def Let_def bind_outcome_Ret_iff split: if_splits)
qed (use chanClient_takes in \<open>auto simp: chanClient_Send_def chanClient_Recv_def\<close>)

interpretation stream_client: message_stream "\<lambda>m s. Ret (Some (streamClient_Send too_large tid m s))" streamClient_Recv
  "\<lambda>cs. chan_incoming (scs_msgChan cs)" "\<lambda>cs. scs_msgChan cs = None \<or> conn_closed cs" True
proof unfold_locales
  show "chan_incoming (scs_msgChan s') = chan_incoming (scs_msgChan s)"
    if "Ret (Some (streamClient_Send too_large tid m s)) = Ret (Some (e, s'))" for m s e s'
    using that by (auto simp: streamClient_Send_def Let_def split: if_splits)
  show "streamClient_Recv c p s = Ret (Some (RecvErr io_EOF, s))"
    if "scs_msgChan s = None \<or> conn_closed s" for s c p
    using that by (auto simp: streamClient_Recv_def split: option.splits)
qed (use streamClient_takes in \<open>auto simp: streamClient_Send_def\<close>)

interpretation chan_server: message_stream "\<lambda>m s. Ret (chanServer_Send tid room m s)" chanServer_Recv
  "\<lambda>ss. buffered (sv_private ss)" "\<lambda>ss. sv_connClose ss = CCNil" False
  by unfold_locales
     (auto simp: chanServer_Send_def chanServer_Recv_def server_Recv_def try_recv_Cons split: if_splits)

interpretation stream_server: message_stream "\<lambda>m s. Ret (Some (streamServer_Send too_large broken tid m s))" streamServer_Recv
  "\<lambda>ss. buffered (sv_private ss)" "\<lambda>ss. sv_connClose ss = CCNil" True
  by unfold_locales
     (auto simp: streamServer_Send_def streamServer_send_def Let_def streamServer_Recv_def server_Recv_def try_recv_Cons split: if_splits)

section \<open>Routing\<close>

fun dispatch_all ::
  "(gotype \<Rightarrow> bool) \<Rightarrow> service \<Rightarrow> govalue \<Rightarrow> 'id transportMsg list \<Rightarrow> 'id connState \<Rightarrow> 'id connState option" where
  "dispatch_all handles svc mqv [] st = Some st"
| "dispatch_all handles svc mqv (tm # tms) st =
     (case stream_dispatch handles svc mqv tm st of
        None \<Rightarrow> None | Some st' \<Rightarrow> dispatch_all handles svc mqv tms st')"

definition meta :: "'id transportMsg \<Rightarrow> metaMsg" where
  "meta tm = \<lparr>mm_msg = tm_msg tm, mm_feats = tm_feats tm\<rparr>"

text \<open>The messages of a channel since it was closed last.\<close>

definition live_step :: "'id \<Rightarrow> 'id transportMsg list \<Rightarrow> 'id transportMsg \<Rightarrow> 'id transportMsg list" where
  "live_step i acc tm =
     (if tm_chan tm \<noteq> i then acc else if is_streamCloseMsg (tm_msg tm) then [] else acc @ [tm])"

definition live_msgs :: "'id \<Rightarrow> 'id transportMsg list \<Rightarrow> 'id transportMsg list" where
  "live_msgs i tms = foldl (live_step i) [] tms"

definition to_queue :: "(gotype \<Rightarrow> bool) \<Rightarrow> service \<Rightarrow> 'id transportMsg \<Rightarrow> bool" where
  "to_queue handles svc tm \<longleftrightarrow>
     \<not> is_streamCloseMsg (tm_msg tm) \<and> tm_decErr tm = None \<and> canHandle handles svc (tm_msg tm)"

definition to_private :: "(gotype \<Rightarrow> bool) \<Rightarrow> service \<Rightarrow> 'id transportMsg \<Rightarrow> bool" where
  "to_private handles svc tm \<longleftrightarrow>
     \<not> is_streamCloseMsg (tm_msg tm) \<and> tm_decErr tm = None \<and> \<not> canHandle handles svc (tm_msg tm)"

text \<open>The entry of a channel, given the messages of the channel since it was closed last.\<close>

definition stream_ok ::
  "(gotype \<Rightarrow> bool) \<Rightarrow> service \<Rightarrow> govalue \<Rightarrow> 'id transportMsg list \<Rightarrow> serverStream option \<Rightarrow> bool" where
  "stream_ok handles svc mqv ms entry \<longleftrightarrow>
     (case entry of
        None \<Rightarrow> ms = []
      | Some ss \<Rightarrow> ms \<noteq> [] \<and> ss_ctx ss = PutVar mqv new_context \<and>
          buffered (privateChan ss) = map meta (filter (to_private handles svc) ms))"

definition routed :: "(gotype \<Rightarrow> bool) \<Rightarrow> service \<Rightarrow> govalue \<Rightarrow> 'id transportMsg list \<Rightarrow> 'id connState \<Rightarrow> bool" where
  "routed handles svc mqv tms st \<longleftrightarrow>
     enqueued st = map (\<lambda>tm. (tm_chan tm, meta tm)) (filter (to_queue handles svc) tms) \<and>
     replied st = List.map_filter (\<lambda>tm. if is_streamCloseMsg (tm_msg tm) then None
       else map_option (\<lambda>e. (tm_chan tm, MError e)) (tm_decErr tm)) tms \<and>
     (\<forall>i. stream_ok handles svc mqv (live_msgs i tms) (map_of (ssMap st) i))"

lemma live_msgs_snoc: "live_msgs i (tms @ [tm]) = live_step i (live_msgs i tms) tm"
  by (simp add: live_msgs_def)

lemma try_send_buffered: "try_send x ch = Some ch' \<Longrightarrow> buffered ch' = buffered ch @ [x]"
  using go_chan.send_Some [of x ch ch'] by simp

lemma map_filter_append: "List.map_filter f (xs @ ys) = List.map_filter f xs @ List.map_filter f ys"
  by (induction xs) (auto simp: map_filter_simps split: option.splits)

text \<open>A known stream, or a new one as \<open>get_stream\<close> makes it.\<close>

lemma get_stream_facts:
  assumes "stream_ok handles svc mqv ms (map_of (ssMap st) i)" and "get_stream svc mqv n i st = (ss, st1)"
  shows "enqueued st1 = enqueued st \<and> replied st1 = replied st \<and> ss_ctx ss = PutVar mqv new_context \<and>
    buffered (privateChan ss) = map meta (filter (to_private handles svc) ms) \<and>
    map_of (ssMap st1) = (map_of (ssMap st))(i \<mapsto> ss)"
proof (cases "map_of (ssMap st) i")
  case None
  with assms show ?thesis
    by (auto simp: get_stream_def stream_ok_def Let_def make_chan_def fun_eq_iff)
next
  case (Some ss')
  with assms show ?thesis by (auto simp: get_stream_def stream_ok_def fun_eq_iff)
qed

lemma routed_step:
  assumes r: "routed handles svc mqv tms st" and d: "stream_dispatch handles svc mqv tm st = Some st'"
  shows "routed handles svc mqv (tms @ [tm]) st'"
proof -
  define i where "i = tm_chan tm"
  obtain ss st1 where g: "get_stream svc mqv (svc_qsize svc) i st = (ss, st1)" by force
  have ok: "stream_ok handles svc mqv (live_msgs j tms) (map_of (ssMap st) j)" for j
    using r by (simp add: routed_def)
  note f = get_stream_facts [OF ok g]
  note q = r [unfolded routed_def, THEN conjunct1] and rp = r [unfolded routed_def, THEN conjunct2, THEN conjunct1]
  have l: "live_msgs j (tms @ [tm]) = (if j \<noteq> i then live_msgs j tms
      else if is_streamCloseMsg (tm_msg tm) then [] else live_msgs i tms @ [tm])" for j
    by (simp add: live_msgs_snoc live_step_def i_def)
  have all: "\<forall>j. stream_ok handles svc mqv (live_msgs j (tms @ [tm])) (map_of (ssMap st') j)"
    if "map_of (ssMap st') = (map_of (ssMap st))(i := e)"
      "stream_ok handles svc mqv (live_msgs i (tms @ [tm])) e" for e
    using that ok l by auto
  consider (close) "is_streamCloseMsg (tm_msg tm)"
    | (err) e where "\<not> is_streamCloseMsg (tm_msg tm)" "tm_decErr tm = Some e"
    | (queue) "\<not> is_streamCloseMsg (tm_msg tm)" "tm_decErr tm = None" "canHandle handles svc (tm_msg tm)"
    | (priv) "\<not> is_streamCloseMsg (tm_msg tm)" "tm_decErr tm = None" "\<not> canHandle handles svc (tm_msg tm)"
    by (cases "tm_decErr tm") auto
  then show ?thesis
  proof cases
    case close
    then have st: "st' = close_stream svc i st1" using d g by (simp add: stream_dispatch_def Let_def i_def)
    have "\<forall>j. stream_ok handles svc mqv (live_msgs j (tms @ [tm])) (map_of (ssMap st') j)"
      by (rule all [of None]) (use st f l close in \<open>auto simp: close_stream_def stream_ok_def fun_eq_iff\<close>)
    with st f q rp close show ?thesis
      by (simp add: routed_def close_stream_def to_queue_def map_filter_append map_filter_simps)
  next
    case err
    then have st: "st' = st1\<lparr>replied := replied st1 @ [(i, MError e)]\<rparr>"
      using d g by (simp add: stream_dispatch_def Let_def i_def)
    have "\<forall>j. stream_ok handles svc mqv (live_msgs j (tms @ [tm])) (map_of (ssMap st') j)"
      by (rule all [of "Some ss"]) (use st f l err in \<open>auto simp: stream_ok_def to_private_def\<close>)
    with st f q rp err show ?thesis
      by (simp add: routed_def to_queue_def map_filter_append map_filter_simps i_def)
  next
    case queue
    then have st: "st' = st1\<lparr>enqueued := enqueued st1 @ [(i, meta tm)]\<rparr>"
      using d g by (simp add: stream_dispatch_def Let_def i_def meta_def)
    have "\<forall>j. stream_ok handles svc mqv (live_msgs j (tms @ [tm])) (map_of (ssMap st') j)"
      by (rule all [of "Some ss"]) (use st f l queue in \<open>auto simp: stream_ok_def to_private_def\<close>)
    with st f q rp queue show ?thesis
      by (simp add: routed_def to_queue_def map_filter_append map_filter_simps i_def)
  next
    case priv
    then obtain ch where c: "try_send (meta tm) (privateChan ss) = Some ch"
      and st: "st' = st1\<lparr>ssMap := AList.update i (ss\<lparr>privateChan := ch\<rparr>) (ssMap st1)\<rparr>"
      using d g by (auto simp: stream_dispatch_def Let_def i_def meta_def)
    have "\<forall>j. stream_ok handles svc mqv (live_msgs j (tms @ [tm])) (map_of (ssMap st') j)"
      by (rule all [of "Some (ss\<lparr>privateChan := ch\<rparr>)"])
         (use st f l priv try_send_buffered [OF c] in \<open>auto simp: stream_ok_def to_private_def fun_eq_iff\<close>)
    with st f q rp priv show ?thesis
      by (simp add: routed_def to_queue_def map_filter_append map_filter_simps)
  qed
qed

lemma routed_all:
  "routed handles svc mqv tms st \<Longrightarrow> dispatch_all handles svc mqv tms' st = Some st' \<Longrightarrow>
   routed handles svc mqv (tms @ tms') st'"
proof (induction tms' arbitrary: tms st)
  case (Cons tm tms')
  then obtain st1 where "stream_dispatch handles svc mqv tm st = Some st1"
      "dispatch_all handles svc mqv tms' st1 = Some st'"
    by (auto split: option.splits)
  with Cons.IH [of "tms @ [tm]" st1] Cons.prems(1) routed_step show ?case by fastforce
qed simp

lemma routed_new: "routed handles svc mqv [] new_connState"
  by (simp add: routed_def stream_ok_def new_connState_def live_msgs_def map_filter_simps)

section \<open>Draining a closed channel connection\<close>

lemma chan_stream_dispatch:
  "tm_decErr tm = None \<Longrightarrow>
   chan_dispatch handles svc mqv (svc_qsize svc) tm st = stream_dispatch handles svc mqv tm st"
  by (simp add: chan_dispatch_def stream_dispatch_def Let_def split_beta)

fun chan_turns ::
  "(gotype \<Rightarrow> bool) \<Rightarrow> service \<Rightarrow> govalue \<Rightarrow> nat \<Rightarrow> chan_choice list \<Rightarrow> 'id chanConn \<Rightarrow> 'id chanConn option" where
  "chan_turns handles svc mqv n [] c = Some c"
| "chan_turns handles svc mqv n (x # xs) c =
     (case chan_turn handles svc mqv n x c of None \<Rightarrow> None | Some c' \<Rightarrow> chan_turns handles svc mqv n xs c')"

lemma chan_drain:
  assumes "buffered (cc_recv c) = tms" and "closed (cc_recv c)" and "\<not> cc_ended c"
    and "\<And>tm. tm \<in> set tms \<Longrightarrow> tm_decErr tm = None"
    and "dispatch_all handles svc mqv tms (cc_state c) = Some st"
  shows "\<exists>c'. chan_turns handles svc mqv (svc_qsize svc) (replicate (Suc (length tms)) Incoming) c = Some c' \<and>
    cc_ended c' \<and> cc_state c' = st"
  using assms
proof (induction tms arbitrary: c)
  case Nil
  then show ?case by (simp add: chan_turn_def chan_recv_def)
next
  case (Cons tm tms)
  then obtain st1 where st1: "stream_dispatch handles svc mqv tm (cc_state c) = Some st1"
      and rest: "dispatch_all handles svc mqv tms st1 = Some st"
    by (auto split: option.splits)
  let ?c = "c\<lparr>cc_recv := (cc_recv c)\<lparr>buffered := tms\<rparr>, cc_state := st1\<rparr>"
  have "chan_turn handles svc mqv (svc_qsize svc) Incoming c = Some ?c"
    using Cons.prems st1 by (simp add: chan_turn_def chan_recv_def chan_stream_dispatch)
  moreover have "\<exists>c'. chan_turns handles svc mqv (svc_qsize svc) (replicate (Suc (length tms)) Incoming) ?c = Some c' \<and>
      cc_ended c' \<and> cc_state c' = st"
    using Cons.prems rest by (intro Cons.IH) auto
  ultimately show ?case by simp
qed

section \<open>Properties\<close>

text \<open>
  C7 (server receivers): whatever sequence of messages a connection brings, as long as no private channel
  is full, every message is routed once and in order. The queue gets exactly the known messages
  of the service, each with the stream of its channel. A stream exists exactly for the channels
  that sent something since they last sent a close; its private channel holds the other messages
  of the channel since then, and its context holds the message queue. Messages that could not be
  decoded are answered with their error.
\<close>

theorem dispatch_routes:
  assumes "dispatch_all handles svc mqv tms new_connState = Some st"
  shows "enqueued st = map (\<lambda>tm. (tm_chan tm, meta tm)) (filter (to_queue handles svc) tms) \<and>
    (\<forall>i. case map_of (ssMap st) i of
           None \<Rightarrow> live_msgs i tms = []
         | Some ss \<Rightarrow> live_msgs i tms \<noteq> [] \<and>
             GetVar (Target (type_of mqv)) (ss_ctx ss) = Ret mqv \<and>
             buffered (privateChan ss) = map meta (filter (to_private handles svc) (live_msgs i tms))) \<and>
    replied st = List.map_filter (\<lambda>tm. if is_streamCloseMsg (tm_msg tm) then None
       else map_option (\<lambda>e. (tm_chan tm, MError e)) (tm_decErr tm)) tms"
proof -
  have "routed handles svc mqv tms st"
    using routed_all [OF routed_new assms] by simp
  moreover have "stream_ok handles svc mqv (live_msgs i tms) (map_of (ssMap st) i) \<Longrightarrow>
      (case map_of (ssMap st) i of
         None \<Rightarrow> live_msgs i tms = []
       | Some ss \<Rightarrow> live_msgs i tms \<noteq> [] \<and>
           GetVar (Target (type_of mqv)) (ss_ctx ss) = Ret mqv \<and>
           buffered (privateChan ss) = map meta (filter (to_private handles svc) (live_msgs i tms)))" for i
    by (cases "map_of (ssMap st) i") (simp_all add: stream_ok_def GetVar_at var_at_Put)
  ultimately show ?thesis by (simp add: routed_def)
qed

definition demo_svc :: service where
  "demo_svc = \<lparr>publisherName = ''pub'', serviceName = ''echo'', svc_providerID = ''id'',
     knownMsgTypes = [TName ''M''], msgTypeCheck = True, svc_scope = ScopeAll, useNamedUDS = False,
     fnOnConnect = False, fnOnDisconnect = False, fnOnNewStream = True, fnOnStreamClose = True, svc_qsize = 8\<rparr>"

definition demo_tm :: "nat \<Rightarrow> string \<Rightarrow> nat transportMsg" where
  "demo_tm i t = \<lparr>tm_chan = i, tm_msg = MValue (V (TName t) 1), tm_feats = [], tm_decErr = None\<rparr>"

lemmas dispatch_simps = stream_dispatch_def get_stream_def close_stream_def canHandle_def demo_svc_def demo_tm_def
  is_streamCloseMsg_def new_connState_def make_chan_def try_send_def chan_send_def meta_def to_queue_def Let_def

theorem dispatch_routes_witness:
  "\<exists>st. dispatch_all (\<lambda>t. True) demo_svc (V (TPtr (TName ''msgQ'')) 1)
      [demo_tm 5 ''M'', demo_tm 6 ''X'', demo_tm 5 ''M''] new_connState = Some st \<and>
     enqueued st = [(5, meta (demo_tm 5 ''M'')), (5, meta (demo_tm 5 ''M''))]"
proof -
  let ?tms = "[demo_tm 5 ''M'', demo_tm 6 ''X'', demo_tm 5 ''M'']"
  obtain st where st: "dispatch_all (\<lambda>t. True) demo_svc (V (TPtr (TName ''msgQ'')) 1) ?tms new_connState = Some st"
    by (simp add: dispatch_simps)
  from dispatch_routes [OF st] have "enqueued st = [(5, meta (demo_tm 5 ''M'')), (5, meta (demo_tm 5 ''M''))]"
    by (simp add: dispatch_simps)
  with st show ?thesis by blast
qed

text \<open>
  A connection over channels dispatches as one over the network, and closing it
  loses nothing: after the goroutine has seen the close it takes every message that was sent
  before, dispatches it, and then ends.
\<close>

theorem chan_connection_drains:
  assumes "buffered (cc_recv c) = tms" and "\<not> cc_closing c" and "\<not> cc_ended c"
    and "\<And>tm. tm \<in> set tms \<Longrightarrow> tm_decErr tm = None"
    and "dispatch_all handles svc mqv tms (cc_state c) = Some st"
  shows "\<exists>c'. chan_turns handles svc mqv (svc_qsize svc) (CloseSeen # replicate (Suc (length tms)) Incoming) c = Some c' \<and>
    cc_ended c' \<and> cc_state c' = st"
proof -
  let ?c = "c\<lparr>cc_closing := True, cc_recv := (cc_recv c)\<lparr>closed := True\<rparr>\<rparr>"
  have "chan_turn handles svc mqv (svc_qsize svc) CloseSeen c = Some ?c"
    using assms(2,3) by (simp add: chan_turn_def)
  moreover have "\<exists>c'. chan_turns handles svc mqv (svc_qsize svc) (replicate (Suc (length tms)) Incoming) ?c = Some c' \<and>
      cc_ended c' \<and> cc_state c' = st"
    using assms by (intro chan_drain) auto
  ultimately show ?thesis by simp
qed

theorem chan_connection_drains_witness:
  "\<exists>c'. chan_turns (\<lambda>t. True) demo_svc (V (TPtr (TName ''msgQ'')) 1) 8 [CloseSeen, Incoming, Incoming]
      \<lparr>cc_closing = False, cc_recv = \<lparr>buffered = [demo_tm 5 ''M''], capacity = 8, closed = False\<rparr>,
       cc_state = new_connState, cc_ended = False\<rparr> = Some c' \<and> cc_ended c' \<and>
     enqueued (cc_state c') = [(5, meta (demo_tm 5 ''M''))]"
proof -
  let ?c = "\<lparr>cc_closing = False, cc_recv = \<lparr>buffered = [demo_tm 5 ''M''], capacity = 8, closed = False\<rparr>,
       cc_state = new_connState, cc_ended = False\<rparr>"
  obtain st where st: "dispatch_all (\<lambda>t. True) demo_svc (V (TPtr (TName ''msgQ'')) 1) [demo_tm 5 ''M''] (cc_state ?c) = Some st"
      and q: "enqueued st = [(5, meta (demo_tm 5 ''M''))]"
    by (simp add: dispatch_simps)
  have n: "svc_qsize demo_svc = 8" by (simp add: demo_svc_def)
  have d: "tm_decErr (demo_tm 5 ''M'') = None" by (simp add: demo_tm_def)
  obtain c' where "chan_turns (\<lambda>t. True) demo_svc (V (TPtr (TName ''msgQ'')) 1) 8 [CloseSeen, Incoming, Incoming] ?c = Some c'"
      and "cc_ended c'" and "cc_state c' = st"
    using chan_connection_drains [of ?c "[demo_tm 5 ''M'']", OF _ _ _ _ st] n d by (auto simp: numeral_2_eq_2)
  with q show ?thesis by blast
qed

text \<open>
  C36 (client streams): when the peer sends EOF, \<open>Recv\<close> returns it and the stream is over: every later
  \<open>Send\<close>, \<open>Recv\<close> and \<open>SendRecv\<close> returns EOF at once and leaves the stream as it is, over channels and
  over the network alike.
\<close>

theorem eof_ends_client_stream:
  assumes "mm_msg mm = MError io_EOF" and "p \<noteq> TargetBad" and "buffered ch = mm # mms"
  shows "(cs_msgChan cs = Some ch \<longrightarrow>
      (\<exists>cs'. chanClient_Recv TakeMsg p cs = Ret (Some (RecvErr io_EOF, cs')) \<and>
         chanClient_Send deepcopy tid m cs' = Ret (Some (Some io_EOF, cs')) \<and>
         chanClient_Recv c q cs' = Ret (Some (RecvErr io_EOF, cs')) \<and>
         SendRecv (chanClient_Send deepcopy tid m) (chanClient_Recv c q) cs' = Ret (Some (RecvErr io_EOF, cs')))) \<and>
    (scs_msgChan ns = Some ch \<and> \<not> conn_closed ns \<longrightarrow>
      (\<exists>ns'. streamClient_Recv TakeMsg p ns = Ret (Some (RecvErr io_EOF, ns')) \<and>
         streamClient_Send too_large tid m ns' = (Some io_EOF, ns') \<and>
         streamClient_Recv c q ns' = Ret (Some (RecvErr io_EOF, ns')) \<and>
         SendRecv (\<lambda>s. Ret (Some (streamClient_Send too_large tid m s))) (streamClient_Recv c q) ns' =
           Ret (Some (RecvErr io_EOF, ns'))))"
proof (intro conjI impI)
  assume cs: "cs_msgChan cs = Some ch"
  let ?cs = "cs\<lparr>cs_msgChan := None, cs_traced := note_trace (getTracingID_feats (mm_feats mm)) ''client recv'' (mm_msg mm) (cs_traced cs)\<rparr>"
  have "chanClient_Recv TakeMsg p cs = Ret (Some (RecvErr io_EOF, ?cs))"
    using cs assms try_recv_Cons [OF assms(3)] by (simp add: chanClient_Recv_def Let_def)
  moreover have "cs_msgChan ?cs = None" by simp
  ultimately show "\<exists>cs'. chanClient_Recv TakeMsg p cs = Ret (Some (RecvErr io_EOF, cs')) \<and>
         chanClient_Send deepcopy tid m cs' = Ret (Some (Some io_EOF, cs')) \<and>
         chanClient_Recv c q cs' = Ret (Some (RecvErr io_EOF, cs')) \<and>
         SendRecv (chanClient_Send deepcopy tid m) (chanClient_Recv c q) cs' = Ret (Some (RecvErr io_EOF, cs'))"
    using chan_client.send_ended chan_client.recv_ended chan_client.SendRecv_ended by blast
next
  assume ns: "scs_msgChan ns = Some ch \<and> \<not> conn_closed ns"
  let ?ns = "ns\<lparr>scs_msgChan := None, scs_traced := note_trace (getTracingID_feats (mm_feats mm)) ''client recv'' (mm_msg mm) (scs_traced ns)\<rparr>"
  have "streamClient_Recv TakeMsg p ns = Ret (Some (RecvErr io_EOF, ?ns))"
    using ns assms try_recv_Cons [OF assms(3)] by (simp add: streamClient_Recv_def Let_def)
  moreover have e: "scs_msgChan ?ns = None \<or> conn_closed ?ns" by simp
  ultimately show "\<exists>ns'. streamClient_Recv TakeMsg p ns = Ret (Some (RecvErr io_EOF, ns')) \<and>
         streamClient_Send too_large tid m ns' = (Some io_EOF, ns') \<and>
         streamClient_Recv c q ns' = Ret (Some (RecvErr io_EOF, ns')) \<and>
         SendRecv (\<lambda>s. Ret (Some (streamClient_Send too_large tid m s))) (streamClient_Recv c q) ns' =
           Ret (Some (RecvErr io_EOF, ns'))"
    using stream_client.send_ended [OF e] stream_client.recv_ended [OF e] stream_client.SendRecv_ended [OF e]
    by (intro exI [of _ ?ns]) simp
qed

theorem eof_ends_client_stream_witness:
  "\<exists>cs'. chanClient_Recv TakeMsg TargetNil \<lparr>cs_id = 1, cs_msgChan = Some \<lparr>buffered = [\<lparr>mm_msg = MError io_EOF, mm_feats = []\<rparr>],
       capacity = 1, closed = False\<rparr>, cs_serverChan = make_chan 1, cs_d = 0, cs_deepCopy = False, cs_traced = []\<rparr> = Ret (Some (RecvErr io_EOF, cs')) \<and>
     chanClient_Send (\<lambda>m. m) None (MError io_EOF) cs' = Ret (Some (Some io_EOF, cs'))"
proof -
  let ?ch = "\<lparr>buffered = [\<lparr>mm_msg = MError io_EOF, mm_feats = []\<rparr>], capacity = 1, closed = False\<rparr>"
  let ?cs = "\<lparr>cs_id = 1, cs_msgChan = Some ?ch, cs_serverChan = make_chan 1, cs_d = 0, cs_deepCopy = False, cs_traced = []\<rparr>"
  have "cs_msgChan ?cs = Some ?ch" by simp
  from eof_ends_client_stream [of "\<lparr>mm_msg = MError io_EOF, mm_feats = []\<rparr>" TargetNil ?ch "[]" ?cs "\<lambda>m. m" None
      "MError io_EOF", THEN conjunct1, THEN mp, OF _ _ _ this]
  show ?thesis by auto
qed


section \<open>The client's receiver\<close>

lemma client_receive_step:
  assumes "client_receive tm streams = Ret (Some streams')"
  shows "tm_chan tm \<noteq> 0 \<and> map_of streams' i =
    (if i \<noteq> tm_chan tm then map_of streams i
     else map_option (map_option (\<lambda>ch. ch\<lparr>buffered := buffered ch @ [meta tm]\<rparr>)) (map_of streams i))"
proof (cases "map_of streams (tm_chan tm)")
  case None
  then show ?thesis using assms by (auto simp: client_receive_def split: if_splits)
next
  case (Some e)
  then obtain ch ch' where "e = Some ch" and c: "try_send (meta tm) ch = Some ch'"
      and "streams' = AList.update (tm_chan tm) (Some ch') streams" "tm_chan tm \<noteq> 0"
    using assms by (auto simp: client_receive_def meta_def split: if_splits option.splits)
  moreover have "ch' = ch\<lparr>buffered := buffered ch @ [meta tm]\<rparr>"
    using c by (auto simp: try_send_def chan_send_def split: if_splits)
  ultimately show ?thesis using Some by auto
qed

lemma client_receives:
  "client_receive_all tms streams = Ret (Some streams') \<Longrightarrow>
   (\<forall>tm\<in>set tms. tm_chan tm \<noteq> 0) \<and> map_of streams' i =
     map_option (map_option (\<lambda>ch. ch\<lparr>buffered := buffered ch @ map meta (filter (\<lambda>tm. tm_chan tm = i) tms)\<rparr>)) (map_of streams i)"
proof (induction tms arbitrary: streams)
  case Nil
  then show ?case by (cases "map_of streams i") (auto simp: option.map_ident)
next
  case (Cons tm tms)
  then obtain s1 where s1: "client_receive tm streams = Ret (Some s1)" and rest: "client_receive_all tms s1 = Ret (Some streams')"
    by (auto simp: bind_outcome_Ret_iff split: option.splits)
  show ?case
    using client_receive_step [OF s1, of i] Cons.IH [OF rest] by (cases "map_of streams i") (auto simp: option.map_comp comp_def)
qed

text \<open>
  As long as the receiver of a network connection is not blocked, every message goes to the stream that
  its request came from, in order; and it is never blocked while the streams have room: no stream has
  ended and each has room for all messages that come for it.
\<close>

theorem client_demultiplexes:
  assumes "\<And>tm. tm \<in> set tms \<Longrightarrow> tm_chan tm \<noteq> 0"
    and "\<And>i e. map_of streams i = Some e \<Longrightarrow>
      \<exists>ch. e = Some ch \<and> \<not> closed ch \<and> length (buffered ch) + length (filter (\<lambda>tm. tm_chan tm = i) tms) \<le> capacity ch"
  shows "\<exists>streams'. client_receive_all tms streams = Ret (Some streams') \<and>
    (\<forall>i. map_of streams' i =
       map_option (map_option (\<lambda>ch. ch\<lparr>buffered := buffered ch @ map meta (filter (\<lambda>tm. tm_chan tm = i) tms)\<rparr>)) (map_of streams i))"
proof -
  have "\<exists>streams'. client_receive_all tms streams = Ret (Some streams')"
    using assms
  proof (induction tms arbitrary: streams)
    case (Cons tm tms)
    have "\<exists>s1. client_receive tm streams = Ret (Some s1)"
    proof (cases "map_of streams (tm_chan tm)")
      case None
      then show ?thesis using Cons.prems(1) by (simp add: client_receive_def)
    next
      case (Some e)
      from Cons.prems(2) [OF this] obtain ch where "e = Some ch" "\<not> closed ch" "length (buffered ch) < capacity ch"
        by auto
      with Some Cons.prems(1) show ?thesis by (simp add: client_receive_def try_send_def chan_send_def)
    qed
    then obtain s1 where s1: "client_receive tm streams = Ret (Some s1)" by blast
    have "\<exists>streams'. client_receive_all tms s1 = Ret (Some streams')"
    proof (rule Cons.IH)
      show "\<exists>ch. e = Some ch \<and> \<not> closed ch \<and> length (buffered ch) + length (filter (\<lambda>tm. tm_chan tm = i) tms) \<le> capacity ch"
        if m: "map_of s1 i = Some e" for i e
      proof -
        obtain e0 where e0: "map_of streams i = Some e0"
          using m client_receive_step [OF s1, of i] by (auto split: if_splits)
        from Cons.prems(2) [OF e0] m e0 client_receive_step [OF s1, of i] show ?thesis by (auto split: if_splits)
      qed
    qed (use Cons.prems in auto)
    with s1 show ?case by simp
  qed simp
  then show ?thesis using client_receives by blast
qed

theorem client_demultiplexes_witness:
  "\<exists>streams'. client_receive_all [demo_tm 5 ''M''] [(5, Some (make_chan 1)), (6, Some (make_chan 1))] = Ret (Some streams') \<and>
     map_of streams' 5 = Some (Some \<lparr>buffered = [meta (demo_tm 5 ''M'')], capacity = 1, closed = False\<rparr>)"
proof -
  let ?s = "[(5, Some (make_chan 1)), (6, Some (make_chan 1))] :: clientStreams"
  have "tm_chan tm \<noteq> 0" if "tm \<in> set [demo_tm 5 ''M'']" for tm using that by (simp add: demo_tm_def)
  moreover have "\<exists>ch. e = Some ch \<and> \<not> closed ch \<and> length (buffered ch) + length (filter (\<lambda>tm. tm_chan tm = i) [demo_tm 5 ''M'']) \<le> capacity ch"
    if "map_of ?s i = Some e" for i e
    using that by (auto simp: make_chan_def demo_tm_def split: if_splits)
  ultimately obtain streams' where r: "client_receive_all [demo_tm 5 ''M''] ?s = Ret (Some streams')"
      and m: "\<forall>i. map_of streams' i = map_option (map_option (\<lambda>ch. ch\<lparr>buffered := buffered ch @
        map meta (filter (\<lambda>tm. tm_chan tm = i) [demo_tm 5 ''M''])\<rparr>)) (map_of ?s i)"
    using client_demultiplexes [of "[demo_tm 5 ''M'']" ?s] by blast
  have "map_of streams' 5 = Some (Some \<lparr>buffered = [meta (demo_tm 5 ''M'')], capacity = 1, closed = False\<rparr>)"
    using m [rule_format, of 5] by (simp add: make_chan_def demo_tm_def)
  with r show ?thesis by blast
qed

text \<open>
  A message that comes for a stream after its EOF blocks the receiver for good, and with it all other
  streams of the connection: \<open>Recv\<close> has set the stream's channel variable to nil.
\<close>

lemma message_after_eof_blocks:
  "tm_chan tm \<noteq> 0 \<Longrightarrow> map_of streams (tm_chan tm) = Some None \<Longrightarrow> client_receive_all (tm # tms) streams = Ret None"
  by (simp add: client_receive_def)

section \<open>Types\<close>

text \<open>A variable of type \<open>t\<close> may hold the value.\<close>

definition has_type :: "gotype \<Rightarrow> govalue \<Rightarrow> bool" where
  "has_type t v \<longleftrightarrow> t = TAny \<or> type_of v = t"

text \<open>A received value is a message's value, or what the pointer in the message points to.\<close>

definition read_from :: "govalue \<Rightarrow> metaMsg list \<Rightarrow> bool" where
  "read_from v mms \<longleftrightarrow> (\<exists>mm u. mms \<noteq> [] \<and> mm = hd mms \<and> mm_msg mm = MValue u \<and> (v = u \<or> elem_of u = Some v))"

lemma recv_msg_typed:
  "recv_msg deref (Target t) (mm_msg mm) = Received (Some v) \<Longrightarrow> has_type t v \<and> read_from v (mm # mms)"
  by (auto simp: recv_msg_def assign_def has_type_def read_from_def split: gomsg.splits option.splits if_splits)

lemma recv_msg_misfit:
  "\<not> has_type t u \<Longrightarrow> (\<forall>x. elem_of u = Some x \<longrightarrow> \<not> has_type t x) \<Longrightarrow>
   recv_msg deref (Target t) (MValue u) = RecvErr (OtherError ''message type mismatch'')"
  by (cases u rule: elem_of.cases) (auto simp: recv_msg_def assign_def has_type_def)

lemma try_recv_head: "try_recv ch = Some (x, ch') \<Longrightarrow> \<exists>xs. buffered ch = x # xs"
  by (cases "buffered ch") (auto simp: try_recv_def chan_recv_def split: if_splits)

lemma client_recv_typed:
  assumes "recv_msg True (Target t) (mm_msg mm) = Received (Some v)" and "try_recv ch = Some (mm, ch')"
  shows "has_type t v \<and> read_from v (buffered ch)"
  using recv_msg_typed [OF assms(1)] try_recv_head [OF assms(2)] by auto



end
