(* ===== verification/WorkerPool.thy ===== *)
theory WorkerPool
  imports Prelude
begin

text \<open>
  The worker pool of \<open>workerpool.go\<close>. Every \<open>addWorker\<close> declares a variable \<open>done\<close> holding a fresh
  channel and starts a goroutine; the pool keeps pointers to these variables. Worker \<open>i\<close> is the
  \<open>i\<close>-th one started: \<open>done_set ! i\<close> says that its variable is not nil, \<open>done_closed ! i\<close> that its
  channel was closed, \<open>routine ! i\<close> where its goroutine is. The goroutine reads the variable when it
  starts to run, not when it is created, so a worker may be handed a nil channel; \<open>Idle False\<close> and
  \<open>Working False\<close> are workers of that kind. Counters are 32-bit (\<open>int32\<close>) and wrap; the wait group
  is an integer. Each step of the relation \<open>wp_step\<close> is one critical section or one atomic counter
  update of the code; \<open>exit\<close> is the deferred function, run when the worker function returned because
  its channel was closed, which is when \<open>msgQ.worker\<close> returns.
\<close>

datatype routine_state = Starting | Idle bool | Working bool | Exited

record workerPool =
  workers :: "nat list"
  done_set :: "bool list"
  done_closed :: "bool list"
  routine :: "routine_state list"
  wp_count :: "32 word"
  idleCount :: "32 word"
  wg :: int

section \<open>Operations\<close>

definition newWorkerPool :: workerPool where
  "newWorkerPool = \<lparr>workers = [], done_set = [], done_closed = [], routine = [],
     wp_count = 0, idleCount = 0, wg = 0\<rparr>"

definition wp_idle :: "workerPool \<Rightarrow> workerPool" where
  "wp_idle wp = wp\<lparr>idleCount := idleCount wp + 1\<rparr>"

definition wp_working :: "workerPool \<Rightarrow> workerPool" where
  "wp_working wp = wp\<lparr>idleCount := idleCount wp - 1\<rparr>"

text \<open>The first slot whose \<open>done\<close> variable is nil.\<close>

fun free_slot :: "bool list \<Rightarrow> nat list \<Rightarrow> nat option" where
  "free_slot ds [] = None"
| "free_slot ds (pc # pcs) = (if \<not> ds ! pc then Some 0 else map_option Suc (free_slot ds pcs))"

definition addWorker :: "workerPool \<Rightarrow> workerPool" where
  "addWorker wp =
     (let done = length (done_set wp);
          ws = (case free_slot (done_set wp) (workers wp) of
                  Some i \<Rightarrow> (workers wp)[i := done]
                | None \<Rightarrow> workers wp @ [done])
      in wp\<lparr>workers := ws, done_set := done_set wp @ [True], done_closed := done_closed wp @ [False],
            routine := routine wp @ [Starting], wp_count := wp_count wp + 1,
            idleCount := idleCount wp + 1, wg := wg wp + 1\<rparr>)"

text \<open>\<open>done := *pc; *pc = nil; close(done)\<close>\<close>

definition close_done :: "nat \<Rightarrow> workerPool \<Rightarrow> workerPool outcome" where
  "close_done pc wp =
     (if done_closed wp ! pc then Panic ''close of closed channel''
      else Ret (wp\<lparr>done_set := (done_set wp)[pc := False],
                    done_closed := (done_closed wp)[pc := True]\<rparr>))"

definition rmWorker :: "workerPool \<Rightarrow> workerPool outcome" where
  "rmWorker wp =
     (case find (\<lambda>pc. done_set wp ! pc) (workers wp) of
        None \<Rightarrow> Ret wp
      | Some pdone \<Rightarrow> close_done pdone wp)"

text \<open>\<open>close\<close> up to \<open>wg.Wait()\<close>, which then waits for the wait group to reach 0.\<close>

fun close_slots :: "nat list \<Rightarrow> workerPool \<Rightarrow> workerPool outcome" where
  "close_slots [] wp = Ret wp"
| "close_slots (pc # pcs) wp =
     (if done_set wp ! pc then bind_outcome (close_done pc wp) (close_slots pcs)
      else close_slots pcs wp)"

definition wp_close :: "workerPool \<Rightarrow> workerPool outcome" where
  "wp_close wp = close_slots (workers wp) wp"

definition getIdleCount :: "workerPool \<Rightarrow> int" where
  "getIdleCount wp = sint (idleCount wp)"

definition getCount :: "workerPool \<Rightarrow> int" where
  "getCount wp = sint (wp_count wp)"

text \<open>The goroutine: its start, the two status changes, and the deferred function.\<close>

definition worker_start :: "nat \<Rightarrow> workerPool \<Rightarrow> workerPool" where
  "worker_start i wp = wp\<lparr>routine := (routine wp)[i := Idle (done_set wp ! i)]\<rparr>"

definition worker_exit :: "nat \<Rightarrow> workerPool \<Rightarrow> workerPool outcome" where
  "worker_exit i wp =
     bind_outcome (if done_set wp ! i then close_done i wp else Ret wp) (\<lambda>wp.
       if wg wp \<le> 0 then Panic ''sync: negative WaitGroup counter''
       else Ret (wp\<lparr>routine := (routine wp)[i := Exited], idleCount := idleCount wp - 1,
                     wp_count := wp_count wp - 1, wg := wg wp - 1\<rparr>))"

inductive wp_step :: "workerPool \<Rightarrow> workerPool \<Rightarrow> bool" where
  add: "wp_step wp (addWorker wp)"
| rm: "rmWorker wp = Ret wp' \<Longrightarrow> wp_step wp wp'"
| close: "wp_close wp = Ret wp' \<Longrightarrow> wp_step wp wp'"
| start: "i < length (routine wp) \<Longrightarrow> routine wp ! i = Starting \<Longrightarrow> wp_step wp (worker_start i wp)"
| work: "i < length (routine wp) \<Longrightarrow> routine wp ! i = Idle d \<Longrightarrow>
    wp_step wp (wp_working (wp\<lparr>routine := (routine wp)[i := Working d]\<rparr>))"
| finish: "i < length (routine wp) \<Longrightarrow> routine wp ! i = Working d \<Longrightarrow>
    wp_step wp (wp_idle (wp\<lparr>routine := (routine wp)[i := Idle d]\<rparr>))"
| exit: "i < length (routine wp) \<Longrightarrow> routine wp ! i = Idle True \<Longrightarrow> done_closed wp ! i \<Longrightarrow>
    worker_exit i wp = Ret wp' \<Longrightarrow> wp_step wp wp'"

inductive wp_reachable :: "workerPool \<Rightarrow> bool" where
  new: "wp_reachable newWorkerPool"
| step: "wp_reachable wp \<Longrightarrow> wp_step wp wp' \<Longrightarrow> wp_reachable wp'"

section \<open>Invariant\<close>

fun live :: "routine_state \<Rightarrow> bool" where
  "live Exited = False"
| "live _ = True"

fun idling :: "routine_state \<Rightarrow> bool" where
  "idling Starting = True"
| "idling (Idle d) = True"
| "idling _ = False"

text \<open>
  A variable is non-nil exactly as long as its channel is open, then a slot points to it and its
  goroutine lives; the counters count.
\<close>

definition wp_shape :: "workerPool \<Rightarrow> bool" where
  "wp_shape wp \<longleftrightarrow>
     length (done_closed wp) = length (done_set wp) \<and> length (routine wp) = length (done_set wp) \<and>
     distinct (workers wp) \<and> set (workers wp) \<subseteq> {..<length (done_set wp)} \<and>
     (\<forall>i<length (done_set wp). done_closed wp ! i = (\<not> done_set wp ! i)) \<and>
     (\<forall>i<length (done_set wp). done_set wp ! i \<longrightarrow> i \<in> set (workers wp) \<and> live (routine wp ! i))"

definition wp_counts :: "workerPool \<Rightarrow> bool" where
  "wp_counts wp \<longleftrightarrow>
     wg wp = int (count_if live (routine wp)) \<and>
     wp_count wp = of_nat (count_if live (routine wp)) \<and>
     idleCount wp = of_nat (count_if idling (routine wp))"

definition wp_inv :: "workerPool \<Rightarrow> bool" where
  "wp_inv wp \<longleftrightarrow> wp_shape wp \<and> wp_counts wp"

lemma free_slot_Some:
  "free_slot ds pcs = Some k \<Longrightarrow> k < length pcs \<and> \<not> ds ! (pcs ! k) \<and> (\<forall>j<k. ds ! (pcs ! j))"
proof (induction pcs arbitrary: k)
  case (Cons pc pcs)
  then show ?case by (cases k) (auto split: if_splits simp: nth_Cons split: nat.splits)
qed simp

lemma free_slot_None: "free_slot ds pcs = None \<longleftrightarrow> (\<forall>pc\<in>set pcs. ds ! pc)"
  by (induction pcs) auto

lemma addWorker_sel [simp]:
  "done_set (addWorker wp) = done_set wp @ [True]"
  "done_closed (addWorker wp) = done_closed wp @ [False]"
  "routine (addWorker wp) = routine wp @ [Starting]"
  "wp_count (addWorker wp) = wp_count wp + 1"
  "idleCount (addWorker wp) = idleCount wp + 1"
  "wg (addWorker wp) = wg wp + 1"
  by (simp_all add: addWorker_def Let_def)

lemma wp_shape_add: "wp_shape wp \<Longrightarrow> wp_shape (addWorker wp)"
proof (cases "free_slot (done_set wp) (workers wp)")
  case None
  assume "wp_shape wp"
  with None show ?thesis
    by (auto simp: wp_shape_def addWorker_def nth_append less_Suc_eq)
next
  case (Some k)
  assume s: "wp_shape wp"
  from free_slot_Some [OF Some] have k: "k < length (workers wp)" "\<not> done_set wp ! (workers wp ! k)"
    by simp_all
  have keep: "i \<in> set ((workers wp)[k := n])" if "i \<in> set (workers wp)" "done_set wp ! i" for i n
    using that k by (metis in_set_conv_nth length_list_update nth_list_update_neq)
  from s Some k(1) show ?thesis
    using set_update_subset_insert [of "workers wp" k "length (done_set wp)"]
    by (auto simp: wp_shape_def addWorker_def nth_append less_Suc_eq keep
        intro!: distinct_list_update set_update_memI dest: subsetD)
qed

lemma wp_shape_close_done:
  "wp_shape wp \<Longrightarrow> close_done pc wp = Ret wp' \<Longrightarrow> wp_shape wp'"
  by (auto simp: wp_shape_def close_done_def nth_update_if split: if_splits)

lemma close_done_Ret:
  "wp_shape wp \<Longrightarrow> pc \<in> set (workers wp) \<Longrightarrow> done_set wp ! pc \<Longrightarrow>
   close_done pc wp = Ret (wp\<lparr>done_set := (done_set wp)[pc := False],
                    done_closed := (done_closed wp)[pc := True]\<rparr>)"
  by (auto simp: wp_shape_def close_done_def)

lemma close_done_frame:
  "close_done pc wp = Ret wp' \<Longrightarrow> routine wp' = routine wp \<and> workers wp' = workers wp \<and>
     wp_count wp' = wp_count wp \<and> idleCount wp' = idleCount wp \<and> wg wp' = wg wp"
  by (auto simp: close_done_def split: if_splits)

lemma close_slots_Ret:
  "wp_shape wp \<Longrightarrow> set pcs \<subseteq> set (workers wp) \<Longrightarrow>
   \<exists>wp'. close_slots pcs wp = Ret wp' \<and> wp_shape wp' \<and> routine wp' = routine wp \<and>
     workers wp' = workers wp \<and> wp_count wp' = wp_count wp \<and> idleCount wp' = idleCount wp \<and>
     wg wp' = wg wp \<and>
     done_set wp' = map (\<lambda>i. done_set wp ! i \<and> i \<notin> set pcs) [0..<length (done_set wp)]"
proof (induction pcs arbitrary: wp)
  case Nil
  then show ?case by (simp add: map_nth)
next
  case (Cons pc pcs)
  show ?case
  proof (cases "done_set wp ! pc")
    case True
    with Cons.prems close_done_Ret [of wp pc] obtain wp1 where c: "close_done pc wp = Ret wp1"
      and d: "done_set wp1 = (done_set wp)[pc := False]" by auto
    note f = close_done_frame [OF c]
    from Cons.IH [of wp1] Cons.prems f obtain wp' where "close_slots pcs wp1 = Ret wp'"
        "wp_shape wp'" "routine wp' = routine wp" "workers wp' = workers wp"
        "wp_count wp' = wp_count wp" "idleCount wp' = idleCount wp" "wg wp' = wg wp"
        "done_set wp' = map (\<lambda>i. done_set wp1 ! i \<and> i \<notin> set pcs) [0..<length (done_set wp1)]"
      using wp_shape_close_done [OF Cons.prems(1) c] by auto
    with True c d show ?thesis by (auto simp: nth_update_if split: if_splits)
  next
    case False
    with Cons.IH [of wp] Cons.prems show ?thesis by auto
  qed
qed

lemma rmWorker_cases:
  assumes "wp_shape wp"
  obtains "rmWorker wp = Ret wp"
  | pc where "pc \<in> set (workers wp)" "done_set wp ! pc" "rmWorker wp = close_done pc wp"
  using assms
  by (cases "find (\<lambda>pc. done_set wp ! pc) (workers wp)")
     (auto simp: rmWorker_def find_Some_iff dest: nth_mem)

lemma rmWorker_Ret:
  assumes "wp_shape wp"
  shows "\<exists>wp'. rmWorker wp = Ret wp' \<and> wp_shape wp' \<and> routine wp' = routine wp \<and>
    wp_count wp' = wp_count wp \<and> idleCount wp' = idleCount wp \<and> wg wp' = wg wp"
  using assms
proof (cases rule: rmWorker_cases)
  case 1
  with assms show ?thesis by simp
next
  case (2 pc)
  then obtain wp' where c: "close_done pc wp = Ret wp'" using close_done_Ret [OF assms] by blast
  with 2 show ?thesis using close_done_frame [OF c] wp_shape_close_done [OF assms c] by simp
qed

lemma wp_close_Ret:
  "wp_shape wp \<Longrightarrow> \<exists>wp'. wp_close wp = Ret wp' \<and> wp_shape wp' \<and> routine wp' = routine wp \<and>
     wp_count wp' = wp_count wp \<and> idleCount wp' = idleCount wp \<and> wg wp' = wg wp \<and>
     (\<forall>i<length (done_set wp'). done_closed wp' ! i)"
  using close_slots_Ret [of wp "workers wp"] by (fastforce simp: wp_close_def wp_shape_def)

text \<open>Moving one goroutine changes the counters by what the move is worth.\<close>

lemma wp_counts_move:
  assumes "wp_counts wp" and "i < length (routine wp)"
  shows "wp_counts (wp\<lparr>routine := (routine wp)[i := r],
    idleCount := idleCount wp - of_bool (idling (routine wp ! i)) + of_bool (idling r),
    wp_count := wp_count wp - of_bool (live (routine wp ! i)) + of_bool (live r),
    wg := wg wp - of_bool (live (routine wp ! i)) + of_bool (live r)\<rparr>)"
  using assms by (simp add: wp_counts_def count_if_list_update)

lemma worker_exit_Ret:
  assumes "wp_inv wp" and "i < length (routine wp)" and "live (routine wp ! i)"
    and "done_closed wp ! i"
  shows "worker_exit i wp = Ret (wp\<lparr>routine := (routine wp)[i := Exited],
    idleCount := idleCount wp - 1, wp_count := wp_count wp - 1, wg := wg wp - 1\<rparr>)"
proof -
  from assms have "\<not> done_set wp ! i" by (auto simp: wp_inv_def wp_shape_def)
  moreover from assms(1-3) have "0 < wg wp"
    using count_if_0_iff [of live "routine wp"] by (auto simp: wp_inv_def wp_counts_def)
  ultimately show ?thesis by (simp add: worker_exit_def)
qed

lemma wp_shape_routine:
  "wp_shape wp \<Longrightarrow> live r \<or> done_closed wp ! i \<Longrightarrow>
   wp_shape (wp\<lparr>routine := (routine wp)[i := r], idleCount := a, wp_count := b, wg := c\<rparr>)"
  by (auto simp: wp_shape_def nth_update_if)

lemma wp_inv_move:
  assumes "wp_inv wp" and "i < length (routine wp)" and "live r \<or> done_closed wp ! i"
    and "a = idleCount wp - of_bool (idling (routine wp ! i)) + of_bool (idling r)"
    and "b = wp_count wp - of_bool (live (routine wp ! i)) + of_bool (live r)"
    and "c = wg wp - of_bool (live (routine wp ! i)) + of_bool (live r)"
  shows "wp_inv (wp\<lparr>routine := (routine wp)[i := r], idleCount := a, wp_count := b, wg := c\<rparr>)"
  using assms wp_counts_move [of wp i r] wp_shape_routine [of wp r i, where a = a and b = b and c = c] by (simp add: wp_inv_def)

lemma wp_inv_step: "wp_step wp wp' \<Longrightarrow> wp_inv wp \<Longrightarrow> wp_inv wp'"
proof (induction rule: wp_step.induct)
  case (add wp)
  then show ?case by (simp add: wp_inv_def wp_shape_add) (simp add: wp_counts_def)
next
  case (rm wp wp')
  then show ?case using rmWorker_Ret [of wp] by (auto simp: wp_inv_def wp_counts_def)
next
  case (close wp wp')
  then show ?case using wp_close_Ret [of wp] by (auto simp: wp_inv_def wp_counts_def)
next
  case (start i wp)
  with wp_inv_move [of wp i "Idle (done_set wp ! i)" "idleCount wp" "wp_count wp" "wg wp"]
  show ?case by (simp add: worker_start_def)
next
  case (work i wp d)
  with wp_inv_move [of wp i "Working d" "idleCount wp - 1" "wp_count wp" "wg wp"]
  show ?case by (simp add: wp_working_def)
next
  case (finish i wp d)
  with wp_inv_move [of wp i "Idle d" "idleCount wp + 1" "wp_count wp" "wg wp"]
  show ?case by (simp add: wp_idle_def)
next
  case (exit i wp wp')
  with wp_inv_move [of wp i Exited "idleCount wp - 1" "wp_count wp - 1" "wg wp - 1"]
  show ?case by (simp add: worker_exit_Ret)
qed

lemma wp_inv_new: "wp_inv newWorkerPool"
  by (simp add: wp_inv_def wp_shape_def wp_counts_def newWorkerPool_def)

lemma wp_reachable_inv: "wp_reachable wp \<Longrightarrow> wp_inv wp"
  by (induction rule: wp_reachable.induct) (auto intro: wp_inv_new wp_inv_step)

section \<open>Shutting down\<close>

lemma rtranclp_wp_inv: "wp_step\<^sup>*\<^sup>* wp wp' \<Longrightarrow> wp_inv wp \<Longrightarrow> wp_inv wp'"
  by (induction rule: rtranclp_induct) (auto intro: wp_inv_step)

text \<open>A worker that was handed its own channel, once that is closed, runs to its end.\<close>

lemma worker_runs_out:
  assumes "wp_inv wp" and "i < length (routine wp)" and "routine wp ! i \<in> {Idle True, Working True}"
    and "done_closed wp ! i"
  shows "\<exists>wp'. wp_step\<^sup>*\<^sup>* wp wp' \<and> routine wp' = (routine wp)[i := Exited] \<and>
    done_closed wp' = done_closed wp"
proof -
  have out: "\<exists>wp'. wp_step wp wp' \<and> routine wp' = (routine wp)[i := Exited] \<and>
      done_closed wp' = done_closed wp"
    if "wp_inv wp" "i < length (routine wp)" "routine wp ! i = Idle True" "done_closed wp ! i" for wp
    using that worker_exit_Ret [of wp i] wp_step.exit [of i wp] by fastforce
  show ?thesis
  proof (cases "routine wp ! i = Idle True")
    case True
    with out [of wp] assms show ?thesis by blast
  next
    case False
    with assms(3) have w: "routine wp ! i = Working True" by simp
    let ?wp1 = "wp_idle (wp\<lparr>routine := (routine wp)[i := Idle True]\<rparr>)"
    have s: "wp_step wp ?wp1" using wp_step.finish [OF assms(2) w] .
    then have "wp_inv ?wp1" using assms(1) by (rule wp_inv_step)
    with out [of ?wp1] assms(2,4) obtain wp' where "wp_step ?wp1 wp'"
        "routine wp' = (routine wp)[i := Exited]" "done_closed wp' = done_closed wp"
      by (auto simp: wp_idle_def)
    with s show ?thesis by (meson converse_rtranclp_into_rtranclp r_into_rtranclp)
  qed
qed

definition owns_channel :: "routine_state \<Rightarrow> bool" where
  "owns_channel r \<longleftrightarrow> r \<in> {Idle True, Working True, Exited}"

lemma pool_drains:
  assumes "wp_inv wp" and "list_all owns_channel (routine wp)" and "list_all (\<lambda>b. b) (done_closed wp)"
  shows "\<exists>wp'. wp_step\<^sup>*\<^sup>* wp wp' \<and> wg wp' = 0"
  using assms
proof (induction "count_if live (routine wp)" arbitrary: wp)
  case 0
  then have "wg wp = 0" by (simp add: wp_inv_def wp_counts_def)
  then show ?case by blast
next
  case (Suc n)
  then obtain i where i: "i < length (routine wp)" "live (routine wp ! i)"
    using count_if_0_iff [of live "routine wp"] by auto
  with Suc.prems have st: "routine wp ! i \<in> {Idle True, Working True}"
    by (auto simp: list_all_length owns_channel_def)
  moreover from Suc.prems i have "done_closed wp ! i"
    by (auto simp: list_all_length wp_inv_def wp_shape_def)
  ultimately obtain wp1 where wp1: "wp_step\<^sup>*\<^sup>* wp wp1" "routine wp1 = (routine wp)[i := Exited]"
      "done_closed wp1 = done_closed wp"
    using worker_runs_out [OF Suc.prems(1) i(1)] by blast
  have "int (count_if live (routine wp1)) = int (count_if live (routine wp)) - 1"
    using i wp1(2) by (simp add: count_if_list_update)
  with Suc.hyps(2) have "n = count_if live (routine wp1)" by simp
  moreover have "list_all owns_channel (routine wp1)"
    using Suc.prems(2) wp1(2) by (auto simp: list_all_length nth_update_if owns_channel_def)
  ultimately obtain wp' where "wp_step\<^sup>*\<^sup>* wp1 wp'" "wg wp' = 0"
    using Suc.hyps(1) [of wp1] rtranclp_wp_inv [OF wp1(1) Suc.prems(1)] Suc.prems(3) wp1(3) by auto
  with wp1(1) show ?case by (meson rtranclp_trans)
qed

text \<open>A worker whose variable was nil before its goroutine ran never stops.\<close>

definition orphan :: "nat \<Rightarrow> workerPool \<Rightarrow> bool" where
  "orphan i wp \<longleftrightarrow> i < length (routine wp) \<and> \<not> done_set wp ! i \<and>
     routine wp ! i \<in> {Starting, Idle False, Working False}"

lemma close_slots_orphan:
  "wp_inv wp \<Longrightarrow> orphan i wp \<Longrightarrow> wp_close wp = Ret wp' \<Longrightarrow> orphan i wp'"
  using close_slots_Ret [of wp "workers wp"]
  by (auto simp: orphan_def wp_close_def wp_inv_def wp_shape_def)

lemma rmWorker_orphan:
  assumes "wp_inv wp" and "orphan i wp" and "rmWorker wp = Ret wp'"
  shows "orphan i wp'"
proof -
  from assms(1) have "wp_shape wp" by (simp add: wp_inv_def)
  then show ?thesis
    by (cases rule: rmWorker_cases)
       (use assms in \<open>auto simp: orphan_def wp_inv_def wp_shape_def close_done_def nth_update_if
          split: if_splits\<close>)
qed

lemma orphan_step: "wp_step wp wp' \<Longrightarrow> wp_inv wp \<Longrightarrow> orphan i wp \<Longrightarrow> orphan i wp'"
proof (induction rule: wp_step.induct)
  case (add wp)
  then show ?case by (auto simp: orphan_def wp_inv_def wp_shape_def nth_append)
next
  case (rm wp wp')
  then show ?case by (blast intro: rmWorker_orphan)
next
  case (close wp wp')
  then show ?case by (blast intro: close_slots_orphan)
next
  case (exit j wp wp')
  then show ?case using worker_exit_Ret [of wp j]
    by (auto simp: orphan_def nth_update_if split: if_splits)
qed (auto simp: orphan_def worker_start_def wp_working_def wp_idle_def nth_update_if)

lemma orphan_forever:
  assumes "wp_step\<^sup>*\<^sup>* wp wp'" and "wp_inv wp" and "orphan i wp"
  shows "0 < wg wp'"
proof -
  from assms have "orphan i wp' \<and> wp_inv wp'"
    by (induction rule: rtranclp_induct) (auto intro: orphan_step wp_inv_step)
  then have "count_if live (routine wp') \<noteq> 0" and "wp_inv wp'"
    using count_if_0_iff [of live "routine wp'"] by (auto simp: orphan_def)
  then show ?thesis by (simp add: wp_inv_def wp_counts_def)
qed

section \<open>Properties\<close>

lemma sint_small: "n < 2 ^ 31 \<Longrightarrow> sint (of_nat n :: 32 word) = int n"
  by (simp add: signed_of_nat signed_take_bit_int_eq_self)

lemma count_idling_le: "count_if idling rs \<le> count_if live rs"
proof (induction rs)
  case (Cons r rs)
  then show ?case by (cases r) auto
qed simp

text \<open>
  C21. In every state the pool can reach through any interleaving of \<open>addWorker\<close>, \<open>rmWorker\<close>, \<open>close\<close>
  and the goroutines' own steps, no operation panics (no channel is closed twice, the wait group
  never goes negative), the wait group is the number of goroutines that still live, and the two
  32-bit counters report the live and the idle workers exactly as long as fewer than $2^{31}$ live.
\<close>

theorem worker_pool_sound:
  assumes "wp_reachable wp"
  shows "(\<exists>wp'. rmWorker wp = Ret wp') \<and> (\<exists>wp'. wp_close wp = Ret wp') \<and>
    (i < length (routine wp) \<longrightarrow> routine wp ! i = Idle True \<longrightarrow> done_closed wp ! i \<longrightarrow>
       (\<exists>wp'. worker_exit i wp = Ret wp')) \<and>
    wg wp = int (count_if live (routine wp)) \<and>
    (count_if live (routine wp) < 2 ^ 31 \<longrightarrow>
       getCount wp = int (count_if live (routine wp)) \<and>
       getIdleCount wp = int (count_if idling (routine wp)))"
proof -
  from assms have inv: "wp_inv wp" by (rule wp_reachable_inv)
  then have "wp_shape wp" "wp_counts wp" by (simp_all add: wp_inv_def)
  then show ?thesis
    using rmWorker_Ret [of wp] wp_close_Ret [of wp] worker_exit_Ret [OF inv, of i]
      count_idling_le [of "routine wp"]
    by (auto simp: wp_counts_def getCount_def getIdleCount_def sint_small)
qed

theorem worker_pool_sound_witness:
  "getCount (addWorker (addWorker newWorkerPool)) = 2 \<and>
   getIdleCount (addWorker (addWorker newWorkerPool)) = 2"
proof -
  have r: "wp_reachable (addWorker (addWorker newWorkerPool))"
    by (rule wp_reachable.step [OF wp_reachable.step [OF wp_reachable.new wp_step.add] wp_step.add])
  show ?thesis using worker_pool_sound [OF r, of 0] by (simp add: newWorkerPool_def)
qed

text \<open>
  The slot table does not grow without need: adding a worker makes the table longer only when
  every slot points to a worker that was not told to stop, and after every \<open>addWorker\<close> the number of
  running workers reachable through the table has grown by one.
\<close>

theorem addWorker_reuses_slots:
  assumes "wp_reachable wp"
  shows "count_if (\<lambda>pc. done_set (addWorker wp) ! pc) (workers (addWorker wp)) =
      Suc (count_if (\<lambda>pc. done_set wp ! pc) (workers wp)) \<and>
    length (workers (addWorker wp)) =
      length (workers wp) + (if count_if (\<lambda>pc. done_set wp ! pc) (workers wp) = length (workers wp)
                             then 1 else 0)"
proof -
  let ?n = "length (done_set wp)"
  let ?P = "\<lambda>pc. done_set wp ! pc"
  let ?Q = "\<lambda>pc. (done_set wp @ [True]) ! pc"
  from assms have lt: "set (workers wp) \<subseteq> {..<?n}"
    using wp_reachable_inv [of wp] by (simp add: wp_inv_def wp_shape_def)
  then have eq: "count_if ?Q (workers wp) = count_if ?P (workers wp)"
    by (intro arg_cong [where f = length] filter_cong) (auto simp: nth_append)
  show ?thesis
  proof (cases "free_slot (done_set wp) (workers wp)")
    case None
    then have "filter ?P (workers wp) = workers wp" by (simp add: free_slot_None)
    with None eq show ?thesis by (simp add: addWorker_def Let_def nth_append)
  next
    case (Some k)
    then have k: "k < length (workers wp)" "\<not> ?P (workers wp ! k)" by (simp_all add: free_slot_Some)
    then have "workers wp ! k \<in> set (workers wp)" by simp
    with lt k(2) have "\<not> ?Q (workers wp ! k)" by (auto simp: nth_append)
    then have "int (count_if ?Q ((workers wp)[k := ?n])) = int (count_if ?Q (workers wp)) + 1"
      using k(1) by (simp add: count_if_list_update)
    moreover have "count_if ?P (workers wp) \<noteq> length (workers wp)"
      using k by (metis filter_True length_filter_less nat_neq_iff nth_mem)
    ultimately show ?thesis using Some eq by (simp add: addWorker_def Let_def)
  qed
qed

theorem addWorker_reuses_slots_witness:
  "length (workers (addWorker (addWorker newWorkerPool))) = 2"
proof -
  have r: "wp_reachable (addWorker newWorkerPool)"
    by (rule wp_reachable.step [OF wp_reachable.new wp_step.add])
  show ?thesis using addWorker_reuses_slots [OF r] by (simp add: addWorker_def newWorkerPool_def)
qed

text \<open>
  Shutting the pool down succeeds when every goroutine already runs: if each worker was handed
  its own channel (or is gone), \<open>close\<close> closes all channels without a panic and the workers can then
  run to their ends until the wait group that \<open>close\<close> waits for is 0.
\<close>

theorem close_drains_pool:
  assumes "wp_reachable wp" and "list_all owns_channel (routine wp)"
  shows "\<exists>wp1 wp2. wp_close wp = Ret wp1 \<and> wp_step\<^sup>*\<^sup>* wp1 wp2 \<and> wg wp2 = 0"
proof -
  from assms(1) have inv: "wp_inv wp" by (rule wp_reachable_inv)
  then obtain wp1 where wp1: "wp_close wp = Ret wp1" "routine wp1 = routine wp"
      "\<forall>i<length (done_set wp1). done_closed wp1 ! i" "wp_shape wp1"
    using wp_close_Ret [of wp] by (auto simp: wp_inv_def)
  from wp_step.close [OF wp1(1)] inv have "wp_inv wp1" by (rule wp_inv_step)
  with pool_drains [of wp1] assms(2) wp1 show ?thesis
    by (auto simp: list_all_length wp_shape_def)
qed

theorem close_drains_pool_witness:
  "\<exists>wp1 wp2. wp_close (worker_start 0 (addWorker newWorkerPool)) = Ret wp1 \<and>
     wp_step\<^sup>*\<^sup>* wp1 wp2 \<and> wg wp2 = 0"
proof (rule close_drains_pool)
  show "wp_reachable (worker_start 0 (addWorker newWorkerPool))"
    by (rule wp_reachable.step [OF wp_reachable.step [OF wp_reachable.new wp_step.add] wp_step.start])
       (simp_all add: newWorkerPool_def)
  show "list_all owns_channel (routine (worker_start 0 (addWorker newWorkerPool)))"
    by (simp add: worker_start_def newWorkerPool_def owns_channel_def)
qed

text \<open>
  Shutting the pool down hangs when a worker is stopped between \<open>addWorker\<close> and the first
  instruction of its goroutine: the goroutine then passes a nil channel to the worker function, so
  in no continuation does the wait group reach 0. This happens already for a pool of one worker that
  is closed right after \<open>addWorker\<close>.
\<close>

theorem close_before_start_hangs:
  "\<exists>wp1. wp_close (addWorker newWorkerPool) = Ret wp1 \<and> (\<nexists>wp2. wp_step\<^sup>*\<^sup>* wp1 wp2 \<and> wg wp2 = 0)"
proof -
  have inv: "wp_inv (addWorker newWorkerPool)" by (rule wp_inv_step [OF wp_step.add wp_inv_new])
  obtain wp1 where c: "wp_close (addWorker newWorkerPool) = Ret wp1" and o: "orphan 0 wp1"
    by (simp add: wp_close_def addWorker_def newWorkerPool_def close_done_def orphan_def Let_def)
  from inv c have "wp_inv wp1" by (metis wp_inv_step wp_step.close)
  with o c show ?thesis using orphan_forever [of wp1 _ 0] by force
qed

end
