(* ===== verification/MsgQ.thy ===== *)
theory MsgQ
  imports Channel WorkerPool "HOL-Library.Multiset"
begin

text \<open>
  The server's message queue (\<open>scalamsgq.go\<close>). Messages enter through a channel per priority; as long
  as only normal messages came, workers read the normal channel directly, and with the first high or
  low message an egress channel and the goroutine \<open>reorder\<close> appear, which moves messages to the
  egress channel in rounds, high before normal before low. Nil channels are \<open>None\<close>.

  A Go \<open>select\<close> evaluates its channel operands when it is entered and blocks on these values. So
  \<open>reorder\<close> in its \<open>select\<close> is \<open>Selecting d h l\<close>: which of \<open>mq.done\<close>, \<open>mq.ingressHighChan\<close> and
  \<open>mq.ingressLowChan\<close> were not nil when it entered. \<open>Moving plan\<close> is the rest of its round: \<open>Emit m\<close>
  is a message it holds and is about to send, \<open>Pull c\<close> one more receive of class \<open>c\<close>; \<open>Moving []\<close> is
  the top of its loop. Likewise a worker evaluates \<open>getEgressChan\<close> before it blocks: \<open>waitN\<close> and
  \<open>waitE\<close> count the workers committed to the normal and to the egress channel. The record
  \<open>msgQ_log\<close> extends the state by the history that the properties speak about. The three \<open>len\<close> calls
  of a round are read in one step with the receive before them.
\<close>

section \<open>State\<close>

datatype prio = High | Normal | Low

text \<open>A message as the type switch of \<open>putMetaMsg\<close> sees it: which marker methods its type has.\<close>

record 'm metaKnownMsg =
  msg :: 'm
  isHighPriority :: bool
  isLowPriority :: bool

definition class_of :: "'m metaKnownMsg \<Rightarrow> prio" where
  "class_of mm = (if isHighPriority mm then High else if isLowPriority mm then Low else Normal)"

datatype 'm reorder_item = Emit "'m metaKnownMsg" | Pull prio

datatype 'm reorder_state =
  NotStarted | Selecting bool bool bool | Moving "'m reorder_item list" | Stopped

text \<open>The field \<open>done\<close>: a channel, the closed channel, or nil.\<close>

datatype done_chan = DoneOpen | DoneClosed | DoneNil

record 'm msgQ =
  wp :: workerPool
  residentWorkers :: int
  qSize :: nat
  qWeight :: int
  ingressHighChan :: "'m metaKnownMsg chan option"
  ingressNormalChan :: "'m metaKnownMsg chan"
  ingressLowChan :: "'m metaKnownMsg chan option"
  egressChan :: "'m metaKnownMsg chan option"
  changeConfirmed :: bool
  mq_done :: done_chan
  reorder_pc :: "'m reorder_state"
  waitN :: nat
  waitE :: nat

record 'm msgQ_log = "'m msgQ" +
  accepted :: "'m metaKnownMsg list"
  handled :: "'m metaKnownMsg list"
  late :: bool

text \<open>The resident workers that \<open>newMsgQ\<close> starts.\<close>

fun addWorkers :: "nat \<Rightarrow> workerPool \<Rightarrow> workerPool" where
  "addWorkers 0 p = p"
| "addWorkers (Suc n) p = addWorkers n (addWorker p)"

definition newMsgQ :: "int \<Rightarrow> nat \<Rightarrow> int \<Rightarrow> nat \<Rightarrow> 'm msgQ_log" where
  "newMsgQ resident qSizePerCore weight numCPU =
     (let size = qSizePerCore * numCPU in
      \<lparr>wp = addWorkers (nat resident) newWorkerPool, residentWorkers = resident, qSize = size,
       qWeight = weight, ingressHighChan = None, ingressNormalChan = make_chan size,
       ingressLowChan = None, egressChan = None, changeConfirmed = False, mq_done = DoneOpen,
       reorder_pc = NotStarted, waitN = 0, waitE = 0, accepted = [], handled = [], late = False\<rparr>)"

section \<open>Putting a message\<close>

text \<open>\<open>initChan\<close>: the ingress channel of the class, and with the first one egress and \<open>reorder\<close>.\<close>

definition initEgress :: "('m, 'x) msgQ_scheme \<Rightarrow> ('m, 'x) msgQ_scheme" where
  "initEgress mq =
     (if egressChan mq = None
      then mq\<lparr>egressChan := Some (make_chan (qSize mq)), reorder_pc := Moving []\<rparr> else mq)"

definition initHigh :: "('m, 'x) msgQ_scheme \<Rightarrow> ('m, 'x) msgQ_scheme" where
  "initHigh mq =
     (if ingressHighChan mq = None
      then initEgress (mq\<lparr>ingressHighChan := Some (make_chan (qSize mq))\<rparr>) else mq)"

definition initLow :: "('m, 'x) msgQ_scheme \<Rightarrow> ('m, 'x) msgQ_scheme" where
  "initLow mq =
     (if ingressLowChan mq = None
      then initEgress (mq\<lparr>ingressLowChan := Some (make_chan (qSize mq))\<rparr>) else mq)"

text \<open>\<open>putMetaMsg\<close>; \<open>None\<close> is blocking on the full channel.\<close>

definition putMetaMsg ::
  "'m metaKnownMsg \<Rightarrow> ('m, 'x) msgQ_scheme \<Rightarrow> ('m, 'x) msgQ_scheme option" where
  "putMetaMsg mm mq =
     (case class_of mm of
        High \<Rightarrow>
          (let mq = initHigh mq in
           case ingressHighChan mq of
             None \<Rightarrow> None
           | Some ch \<Rightarrow> map_option (\<lambda>ch. mq\<lparr>ingressHighChan := Some ch\<rparr>) (try_send mm ch))
      | Low \<Rightarrow>
          (let mq = initLow mq in
           case ingressLowChan mq of
             None \<Rightarrow> None
           | Some ch \<Rightarrow> map_option (\<lambda>ch. mq\<lparr>ingressLowChan := Some ch\<rparr>) (try_send mm ch))
      | Normal \<Rightarrow>
          map_option (\<lambda>ch. mq\<lparr>ingressNormalChan := ch\<rparr>) (try_send mm (ingressNormalChan mq)))"

section \<open>Reordering\<close>

definition olen :: "'a chan option \<Rightarrow> nat" where
  "olen ch = (case ch of None \<Rightarrow> 0 | Some c \<Rightarrow> length (buffered c))"

text \<open>Receiving from the ingress channel of a class; nil channels block.\<close>

definition recv_class ::
  "prio \<Rightarrow> ('m, 'x) msgQ_scheme \<Rightarrow> ('m metaKnownMsg \<times> ('m, 'x) msgQ_scheme) option" where
  "recv_class c mq =
     (case c of
        High \<Rightarrow> (case ingressHighChan mq of
            None \<Rightarrow> None
          | Some ch \<Rightarrow> map_option (\<lambda>(m, ch). (m, mq\<lparr>ingressHighChan := Some ch\<rparr>)) (try_recv ch))
      | Normal \<Rightarrow> map_option (\<lambda>(m, ch). (m, mq\<lparr>ingressNormalChan := ch\<rparr>))
                   (try_recv (ingressNormalChan mq))
      | Low \<Rightarrow> (case ingressLowChan mq of
            None \<Rightarrow> None
          | Some ch \<Rightarrow> map_option (\<lambda>(m, ch). (m, mq\<lparr>ingressLowChan := Some ch\<rparr>)) (try_recv ch)))"

text \<open>
  What is left of a round after the \<open>select\<close> received \<open>m\<close> from class \<open>c\<close>: the class's own message
  first, then as many receives as the class had messages, class by class.
\<close>

definition class_plan :: "prio \<Rightarrow> prio \<times> 'm metaKnownMsg \<Rightarrow> nat \<Rightarrow> 'm reorder_item list" where
  "class_plan c sel n = (if fst sel = c then [Emit (snd sel)] else []) @ replicate n (Pull c)"

definition round_plan ::
  "prio \<times> 'm metaKnownMsg \<Rightarrow> ('m, 'x) msgQ_scheme \<Rightarrow> 'm reorder_item list" where
  "round_plan sel mq =
     (let lenL = olen (ingressLowChan mq);
          lenN = length (buffered (ingressNormalChan mq));
          lenH = olen (ingressHighChan mq)
      in class_plan High sel lenH @ class_plan Normal sel lenN @ class_plan Low sel lenL)"

fun listens :: "bool \<Rightarrow> bool \<Rightarrow> prio \<Rightarrow> bool" where
  "listens h l High = h" | "listens h l Normal = True" | "listens h l Low = l"

inductive reorder_step :: "('m, 'x) msgQ_scheme \<Rightarrow> ('m, 'x) msgQ_scheme \<Rightarrow> bool" where
  enter: "reorder_pc mq = Moving [] \<Longrightarrow>
    reorder_step mq (mq\<lparr>reorder_pc := Selecting (mq_done mq \<noteq> DoneNil)
      (ingressHighChan mq \<noteq> None) (ingressLowChan mq \<noteq> None)\<rparr>)"
| stop: "reorder_pc mq = Selecting True h l \<Longrightarrow> mq_done mq \<noteq> DoneOpen \<Longrightarrow>
    reorder_step mq (mq\<lparr>reorder_pc := Stopped\<rparr>)"
| select: "reorder_pc mq = Selecting d h l \<Longrightarrow> listens h l c \<Longrightarrow> recv_class c mq = Some (m, mq') \<Longrightarrow>
    reorder_step mq (mq'\<lparr>reorder_pc := Moving (round_plan (c, m) mq')\<rparr>)"
| emit: "reorder_pc mq = Moving (Emit m # plan) \<Longrightarrow> egressChan mq = Some ch \<Longrightarrow>
    try_send m ch = Some ch' \<Longrightarrow>
    reorder_step mq (mq\<lparr>egressChan := Some ch', reorder_pc := Moving plan\<rparr>)"
| pull: "reorder_pc mq = Moving (Pull c # plan) \<Longrightarrow> recv_class c mq = Some (m, mq') \<Longrightarrow>
    reorder_step mq (mq'\<lparr>reorder_pc := Moving (Emit m # plan)\<rparr>)"

inductive_cases reorder_stepE: "reorder_step mq mq'"

section \<open>Workers and the whole queue\<close>

definition getEgressChan :: "('m, 'x) msgQ_scheme \<Rightarrow> 'm metaKnownMsg chan \<times> ('m, 'x) msgQ_scheme" where
  "getEgressChan mq =
     (case egressChan mq of
        None \<Rightarrow> (ingressNormalChan mq, mq)
      | Some ch \<Rightarrow> (ch, if \<not> changeConfirmed mq then mq\<lparr>changeConfirmed := True\<rparr> else mq))"

text \<open>\<open>close\<close>: its two writes to \<open>done\<close>, and the whole call up to the pool's \<open>wg.Wait()\<close>.\<close>

definition close_mq_done :: "('m, 'x) msgQ_scheme \<Rightarrow> ('m, 'x) msgQ_scheme outcome" where
  "close_mq_done mq =
     (case mq_done mq of
        DoneOpen \<Rightarrow> Ret (mq\<lparr>mq_done := DoneClosed\<rparr>)
      | DoneClosed \<Rightarrow> Panic ''close of closed channel''
      | DoneNil \<Rightarrow> Panic ''close of nil channel'')"

definition mq_close :: "('m, 'x) msgQ_scheme \<Rightarrow> ('m, 'x) msgQ_scheme outcome" where
  "mq_close mq =
     bind_outcome (close_mq_done mq) (\<lambda>mq.
       let mq = mq\<lparr>mq_done := DoneNil\<rparr> in
       bind_outcome (wp_close (wp mq)) (\<lambda>p. Ret (mq\<lparr>wp := p\<rparr>)))"

definition worker_select :: "('m, 'x) msgQ_scheme \<Rightarrow> ('m, 'x) msgQ_scheme" where
  "worker_select mq =
     (let mq' = snd (getEgressChan mq) in
      if egressChan mq = None then mq'\<lparr>waitN := waitN mq + 1\<rparr> else mq'\<lparr>waitE := waitE mq + 1\<rparr>)"

inductive mq_step :: "'m msgQ_log \<Rightarrow> 'm msgQ_log \<Rightarrow> bool" where
  put: "putMetaMsg mm mq = Some mq' \<Longrightarrow> mq_step mq (mq'\<lparr>accepted := accepted mq @ [mm]\<rparr>)"
| reorder: "reorder_step mq mq' \<Longrightarrow> mq_step mq mq'"
| select: "mq_step mq (worker_select mq)"
| handle_normal: "0 < waitN mq \<Longrightarrow> recv_class Normal mq = Some (mm, mq') \<Longrightarrow>
    mq_step mq (mq'\<lparr>waitN := waitN mq - 1, handled := handled mq @ [mm],
      late := late mq \<or> egressChan mq \<noteq> None\<rparr>)"
| handle_egress: "0 < waitE mq \<Longrightarrow> egressChan mq = Some ch \<Longrightarrow> try_recv ch = Some (mm, ch') \<Longrightarrow>
    mq_step mq (mq\<lparr>egressChan := Some ch', waitE := waitE mq - 1, handled := handled mq @ [mm]\<rparr>)"
| quit_normal: "0 < waitN mq \<Longrightarrow> mq_step mq (mq\<lparr>waitN := waitN mq - 1\<rparr>)"
| quit_egress: "0 < waitE mq \<Longrightarrow> mq_step mq (mq\<lparr>waitE := waitE mq - 1\<rparr>)"
| close_done: "close_mq_done mq = Ret mq' \<Longrightarrow> mq_step mq mq'"
| done_nil: "mq_done mq = DoneClosed \<Longrightarrow> mq_step mq (mq\<lparr>mq_done := DoneNil\<rparr>)"
| pool: "wp_step (wp mq) p \<Longrightarrow> mq_step mq (mq\<lparr>wp := p\<rparr>)"

inductive_cases mq_stepE: "mq_step mq mq'"

inductive mq_reachable :: "nat \<Rightarrow> 'm msgQ_log \<Rightarrow> bool" for n where
  new: "mq_reachable n (newMsgQ resident n weight numCPU)"
| step: "mq_reachable n mq \<Longrightarrow> mq_step mq mq' \<Longrightarrow> mq_reachable n mq'"

section \<open>Auto scaling and status\<close>

text \<open>
  One iteration of \<open>autoScaler\<close>, which runs when \<open>qWeight > 0\<close>: the queue after it and the divisor
  \<open>k\<close> of the second it then sleeps; \<open>None\<close> is its return. Go's \<open>/\<close> is \<open>div\<close> on these operands.
\<close>

definition autoScaler_round ::
  "('m, 'x) msgQ_scheme \<Rightarrow> (('m, 'x) msgQ_scheme \<times> int) option outcome" where
  "autoScaler_round mq =
     (if mq_done mq = DoneNil then Ret None
      else
        let (ch, mq) = getEgressChan mq;
            should = int (length (buffered ch)) div qWeight mq + residentWorkers mq;
            now = getIdleCount (wp mq)
        in if should > now then Ret (Some (mq\<lparr>wp := addWorker (wp mq)\<rparr>, should - now))
           else if should < now then
             bind_outcome (rmWorker (wp mq)) (\<lambda>p. Ret (Some (mq\<lparr>wp := p\<rparr>, now - should)))
           else Ret (Some (mq, 1)))"

text \<open>The loop of \<open>autoScaler\<close> for a number of iterations.\<close>

fun autoScaler :: "nat \<Rightarrow> ('m, 'x) msgQ_scheme \<Rightarrow> ('m, 'x) msgQ_scheme outcome" where
  "autoScaler 0 mq = Ret mq"
| "autoScaler (Suc n) mq =
     bind_outcome (autoScaler_round mq) (\<lambda>r.
       case r of None \<Rightarrow> Ret mq | Some (mq', k) \<Rightarrow> autoScaler n mq')"

record MsgQInfo =
  NumCPU :: int
  ResidentWorkers :: int
  QueueWeight :: int
  QueueLen :: int
  QueueSize :: int
  BusyWorkerNum :: int
  IdleWorkerNum :: int

definition QueryMsgQInfo_Handle :: "nat \<Rightarrow> ('m, 'x) msgQ_scheme \<Rightarrow> MsgQInfo" where
  "QueryMsgQInfo_Handle nCPU mq =
     (let totalWorker = getCount (wp mq);
          idleWorker = getIdleCount (wp mq) + 1 in
      \<lparr>NumCPU = int nCPU, ResidentWorkers = residentWorkers mq, QueueWeight = qWeight mq,
       QueueLen = int (length (buffered (fst (getEgressChan mq)))), QueueSize = int (qSize mq),
       BusyWorkerNum = totalWorker - idleWorker, IdleWorkerNum = idleWorker\<rparr>)"

section \<open>Views\<close>

text \<open>Where a message can be: in the channel of its class, held by \<open>reorder\<close>, in the egress channel.\<close>

definition obuf :: "'a chan option \<Rightarrow> 'a list" where
  "obuf ch = (case ch of None \<Rightarrow> [] | Some c \<Rightarrow> buffered c)"

fun queue :: "prio \<Rightarrow> ('m, 'x) msgQ_scheme \<Rightarrow> 'm metaKnownMsg list" where
  "queue High mq = obuf (ingressHighChan mq)"
| "queue Normal mq = buffered (ingressNormalChan mq)"
| "queue Low mq = obuf (ingressLowChan mq)"

fun emits :: "'m reorder_item list \<Rightarrow> 'm metaKnownMsg list" where
  "emits [] = []"
| "emits (Emit m # plan) = m # emits plan"
| "emits (Pull c # plan) = emits plan"

fun plan_of :: "'m reorder_state \<Rightarrow> 'm reorder_item list" where
  "plan_of (Moving plan) = plan"
| "plan_of _ = []"

definition held :: "('m, 'x) msgQ_scheme \<Rightarrow> 'm metaKnownMsg list" where
  "held mq = emits (plan_of (reorder_pc mq))"

definition out :: "('m, 'x) msgQ_scheme \<Rightarrow> 'm metaKnownMsg list" where
  "out mq = obuf (egressChan mq)"

definition of_class :: "prio \<Rightarrow> 'm metaKnownMsg list \<Rightarrow> 'm metaKnownMsg list" where
  "of_class c ms = filter (\<lambda>m. class_of m = c) ms"

definition pulls :: "prio \<Rightarrow> ('m, 'x) msgQ_scheme \<Rightarrow> nat" where
  "pulls c mq = count_if (\<lambda>x. x = Pull c) (plan_of (reorder_pc mq))"

fun rank :: "prio \<Rightarrow> nat" where
  "rank High = 0" | "rank Normal = 1" | "rank Low = 2"

fun item_rank :: "'m reorder_item \<Rightarrow> nat" where
  "item_rank (Emit m) = rank (class_of m)"
| "item_rank (Pull c) = rank c"

lemma emits_append [simp]: "emits (p @ q) = emits p @ emits q"
  by (induction p rule: emits.induct) auto

lemma emits_replicate [simp]: "emits (replicate n (Pull c)) = []"
  by (induction n) auto

lemma of_class_simps [simp]:
  "of_class c [] = []"
  "of_class c (m # ms) = (if class_of m = c then m # of_class c ms else of_class c ms)"
  "of_class c (ms @ ns) = of_class c ms @ of_class c ns"
  by (simp_all add: of_class_def)

lemma obuf_simps [simp]: "obuf None = []" "obuf (Some c) = buffered c"
  by (simp_all add: obuf_def)

lemma queue_update [simp]:
  "queue c (mq\<lparr>egressChan := e\<rparr>) = queue c mq"
  "queue c (mq\<lparr>changeConfirmed := b\<rparr>) = queue c mq"
  "queue c (mq\<lparr>mq_done := d\<rparr>) = queue c mq"
  "queue c (mq\<lparr>wp := w\<rparr>) = queue c mq"
  "queue c (mq\<lparr>reorder_pc := p\<rparr>) = queue c mq"
  "queue c (mq\<lparr>waitN := n\<rparr>) = queue c mq"
  "queue c (mq\<lparr>waitE := n\<rparr>) = queue c mq"
  by (cases c; simp)+

lemma queue_log_update [simp]:
  "queue c (lq\<lparr>accepted := ms\<rparr>) = queue c lq"
  "queue c (lq\<lparr>handled := ms\<rparr>) = queue c lq"
  "queue c (lq\<lparr>late := b\<rparr>) = queue c lq"
  by (cases c; simp)+

lemma obuf_olen: "olen ch = length (obuf ch)"
  by (simp add: olen_def obuf_def split: option.splits)

text \<open>The channels as \<open>make\<close> left them: open, of size \<open>qSize\<close>, not over-full.\<close>

definition chan_ok :: "nat \<Rightarrow> 'a chan option \<Rightarrow> bool" where
  "chan_ok n ch = (case ch of None \<Rightarrow> True | Some c \<Rightarrow> \<not> closed c \<and> capacity c = n \<and> wf_chan c)"

definition chans_ok :: "('m, 'x) msgQ_scheme \<Rightarrow> bool" where
  "chans_ok mq \<longleftrightarrow> chan_ok (qSize mq) (ingressHighChan mq) \<and>
     chan_ok (qSize mq) (Some (ingressNormalChan mq)) \<and>
     chan_ok (qSize mq) (ingressLowChan mq) \<and> chan_ok (qSize mq) (egressChan mq)"

text \<open>\<open>mq'\<close> differs from \<open>mq\<close> at most in the queues.\<close>

definition same_rest :: "'m msgQ_log \<Rightarrow> 'm msgQ_log \<Rightarrow> bool" where
  "same_rest mq mq' \<longleftrightarrow> egressChan mq' = egressChan mq \<and> reorder_pc mq' = reorder_pc mq \<and>
     waitN mq' = waitN mq \<and> waitE mq' = waitE mq \<and> accepted mq' = accepted mq \<and>
     handled mq' = handled mq \<and> late mq' = late mq \<and> qSize mq' = qSize mq \<and>
     (ingressHighChan mq' = None \<longleftrightarrow> ingressHighChan mq = None) \<and>
     (ingressLowChan mq' = None \<longleftrightarrow> ingressLowChan mq = None)"

lemma chan_ok_send:
  "chan_ok n (Some ch) \<Longrightarrow> try_send m ch = Some ch' \<Longrightarrow>
   chan_ok n (Some ch') \<and> buffered ch' = buffered ch @ [m]"
  using go_chan.send_Some [of m ch ch'] go_chan.send_None [of ch m] by (auto simp: chan_ok_def wf_chan_def)

lemma chan_ok_recv:
  "chan_ok n (Some ch) \<Longrightarrow> try_recv ch = Some (m, ch') \<Longrightarrow>
   chan_ok n (Some ch') \<and> buffered ch = m # buffered ch'"
  using go_chan.recv_Some [of ch m ch'] by (auto simp: chan_ok_def wf_chan_def)

lemma recv_class_spec:
  assumes "chans_ok mq" and "recv_class c mq = Some (m, mq')"
  shows "queue c mq = m # queue c mq' \<and> (\<forall>c'. c' \<noteq> c \<longrightarrow> queue c' mq' = queue c' mq) \<and>
    same_rest mq mq' \<and> chans_ok mq'"
proof (cases c)
  case High
  with assms obtain ch ch' where "ingressHighChan mq = Some ch" "try_recv ch = Some (m, ch')"
      "mq' = mq\<lparr>ingressHighChan := Some ch'\<rparr>"
    by (auto simp: recv_class_def split: option.splits)
  with High assms(1) chan_ok_recv [of "qSize mq" ch m ch'] show ?thesis
    by (auto simp: chans_ok_def same_rest_def) (case_tac c', auto)
next
  case Normal
  with assms obtain ch' where "try_recv (ingressNormalChan mq) = Some (m, ch')"
      "mq' = mq\<lparr>ingressNormalChan := ch'\<rparr>"
    by (auto simp: recv_class_def)
  with Normal assms(1) chan_ok_recv [of "qSize mq" "ingressNormalChan mq" m ch'] show ?thesis
    by (auto simp: chans_ok_def same_rest_def) (case_tac c', auto)
next
  case Low
  with assms obtain ch ch' where "ingressLowChan mq = Some ch" "try_recv ch = Some (m, ch')"
      "mq' = mq\<lparr>ingressLowChan := Some ch'\<rparr>"
    by (auto simp: recv_class_def split: option.splits)
  with Low assms(1) chan_ok_recv [of "qSize mq" ch m ch'] show ?thesis
    by (auto simp: chans_ok_def same_rest_def) (case_tac c', auto)
qed

lemma recv_class_None: "recv_class c mq = None \<longleftrightarrow> queue c mq = []"
  by (cases c) (auto simp: recv_class_def go_chan.recv_None split: option.splits)

text \<open>Putting a message: it joins the queue of its class, a new egress channel is empty.\<close>

lemma make_chan_ok: "chan_ok n (Some (make_chan n))"
  by (simp add: chan_ok_def make_chan_def wf_chan_def)

definition init_rel :: "'m msgQ_log \<Rightarrow> 'm msgQ_log \<Rightarrow> bool" where
  "init_rel mq mq' \<longleftrightarrow> (\<forall>c. queue c mq' = queue c mq) \<and> chans_ok mq' \<and>
     handled mq' = handled mq \<and> accepted mq' = accepted mq \<and> late mq' = late mq \<and>
     qSize mq' = qSize mq \<and> waitN mq' = waitN mq \<and> waitE mq' = waitE mq \<and>
     (egressChan mq' = egressChan mq \<and> reorder_pc mq' = reorder_pc mq \<or>
      egressChan mq = None \<and> egressChan mq' = Some (make_chan (qSize mq)) \<and> reorder_pc mq' = Moving [])"

lemma init_rel_High:
  "chans_ok mq \<Longrightarrow> init_rel mq (initHigh mq) \<and> ingressHighChan (initHigh mq) \<noteq> None"
  by (auto simp: init_rel_def initHigh_def initEgress_def chans_ok_def make_chan_ok, case_tac [!] c)
     (auto simp: make_chan_def)

lemma init_rel_Low:
  "chans_ok mq \<Longrightarrow> init_rel mq (initLow mq) \<and> ingressLowChan (initLow mq) \<noteq> None"
  by (auto simp: init_rel_def initLow_def initEgress_def chans_ok_def make_chan_ok, case_tac [!] c)
     (auto simp: make_chan_def)

lemma queue_High_update:
  "queue c (mq\<lparr>ingressHighChan := ch\<rparr>) = (if c = High then obuf ch else queue c mq)"
  by (cases c) auto

lemma queue_Low_update:
  "queue c (mq\<lparr>ingressLowChan := ch\<rparr>) = (if c = Low then obuf ch else queue c mq)"
  by (cases c) auto

lemma putMetaMsg_spec:
  assumes "chans_ok mq" and "putMetaMsg mm mq = Some mq'"
  shows "\<exists>mq1. init_rel mq mq1 \<and> same_rest mq1 mq' \<and> chans_ok mq' \<and>
    queue (class_of mm) mq' = queue (class_of mm) mq @ [mm] \<and>
    (\<forall>c. c \<noteq> class_of mm \<longrightarrow> queue c mq' = queue c mq)"
proof (cases "class_of mm")
  case High
  with assms init_rel_High [of mq] obtain ch ch' where ch: "ingressHighChan (initHigh mq) = Some ch"
      "try_send mm ch = Some ch'" and mq': "mq' = (initHigh mq)\<lparr>ingressHighChan := Some ch'\<rparr>"
    by (auto simp: putMetaMsg_def)
  have r: "init_rel mq (initHigh mq)" using init_rel_High [OF assms(1)] by simp
  then have q: "queue c (initHigh mq) = queue c mq" for c by (simp add: init_rel_def)
  have ok: "chan_ok (qSize (initHigh mq)) (Some ch') \<and> buffered ch' = queue High mq @ [mm]"
  proof -
    have "chan_ok (qSize (initHigh mq)) (Some ch)"
      using r ch(1) unfolding init_rel_def chans_ok_def by metis
    then show ?thesis using ch q [of High] chan_ok_send [of "qSize (initHigh mq)" ch mm ch'] by simp
  qed
  have "same_rest (initHigh mq) mq'" "chans_ok mq'"
    using mq' ok r ch by (auto simp: same_rest_def init_rel_def chans_ok_def)
  with r q ok mq' High show ?thesis
    by (intro exI [of _ "initHigh mq"]) (simp add: queue_High_update del: queue.simps)
next
  case Normal
  with assms obtain ch' where "try_send mm (ingressNormalChan mq) = Some ch'"
      "mq' = mq\<lparr>ingressNormalChan := ch'\<rparr>"
    by (auto simp: putMetaMsg_def)
  with Normal assms(1) chan_ok_send [of "qSize mq" "ingressNormalChan mq" mm ch'] show ?thesis
    by (intro exI [of _ mq]) (auto simp: init_rel_def chans_ok_def same_rest_def, case_tac c, auto)
next
  case Low
  with assms init_rel_Low [of mq] obtain ch ch' where ch: "ingressLowChan (initLow mq) = Some ch"
      "try_send mm ch = Some ch'" and mq': "mq' = (initLow mq)\<lparr>ingressLowChan := Some ch'\<rparr>"
    by (auto simp: putMetaMsg_def)
  have r: "init_rel mq (initLow mq)" using init_rel_Low [OF assms(1)] by simp
  then have q: "queue c (initLow mq) = queue c mq" for c by (simp add: init_rel_def)
  have ok: "chan_ok (qSize (initLow mq)) (Some ch') \<and> buffered ch' = queue Low mq @ [mm]"
  proof -
    have "chan_ok (qSize (initLow mq)) (Some ch)"
      using r ch(1) unfolding init_rel_def chans_ok_def by metis
    then show ?thesis using ch q [of Low] chan_ok_send [of "qSize (initLow mq)" ch mm ch'] by simp
  qed
  have "same_rest (initLow mq) mq'" "chans_ok mq'"
    using mq' ok r ch by (auto simp: same_rest_def init_rel_def chans_ok_def)
  with r q ok mq' Low show ?thesis
    by (intro exI [of _ "initLow mq"]) (simp add: queue_Low_update del: queue.simps)
qed

section \<open>Invariant\<close>

text \<open>Every message is in one place, and each class keeps its order on the way.\<close>

definition mq_flow :: "'m msgQ_log \<Rightarrow> bool" where
  "mq_flow mq \<longleftrightarrow>
     (\<forall>c m. m \<in> set (queue c mq) \<longrightarrow> class_of m = c) \<and>
     mset (accepted mq) = mset (handled mq) + mset (out mq) + mset (held mq) +
       mset (queue High mq) + mset (queue Normal mq) + mset (queue Low mq) \<and>
     (\<forall>c. c \<noteq> Normal \<or> \<not> late mq \<longrightarrow>
        of_class c (accepted mq) = of_class c (handled mq @ out mq @ held mq) @ queue c mq)"

text \<open>A message in hand goes out before the receives of its class.\<close>

fun plan_ok :: "'m reorder_item list \<Rightarrow> bool" where
  "plan_ok [] = True"
| "plan_ok (Emit m # plan) = plan_ok plan"
| "plan_ok (Pull c # plan) = (of_class c (emits plan) = [] \<and> plan_ok plan)"

text \<open>The plan is in priority order and asks for no more than the queues hold.\<close>

definition mq_plan :: "'m msgQ_log \<Rightarrow> bool" where
  "mq_plan mq \<longleftrightarrow>
     (egressChan mq = None \<longleftrightarrow> reorder_pc mq = NotStarted) \<and>
     sorted (map item_rank (plan_of (reorder_pc mq))) \<and> plan_ok (plan_of (reorder_pc mq)) \<and>
     (\<forall>c. c \<noteq> Normal \<or> \<not> late mq \<longrightarrow> pulls c mq \<le> length (queue c mq))"

definition mq_inv :: "'m msgQ_log \<Rightarrow> bool" where
  "mq_inv mq \<longleftrightarrow> chans_ok mq \<and> mq_flow mq \<and> mq_plan mq"

lemma mq_inv_new: "mq_inv (newMsgQ r n w k :: 'm msgQ_log)"
proof -
  let ?q = "newMsgQ r n w k :: 'm msgQ_log"
  have q: "queue c ?q = []" for c
    by (cases c) (auto simp: newMsgQ_def make_chan_def Let_def)
  have f: "accepted ?q = []" "handled ?q = []" "egressChan ?q = None" "reorder_pc ?q = NotStarted"
    by (simp_all add: newMsgQ_def Let_def)
  have "chans_ok ?q"
    using make_chan_ok [of "n * k"] by (auto simp: newMsgQ_def chans_ok_def chan_ok_def Let_def)
  with q f show ?thesis
    by (simp add: mq_inv_def mq_flow_def mq_plan_def out_def held_def pulls_def del: queue.simps)
qed

lemma mq_inv_put:
  assumes "mq_inv mq" and "putMetaMsg mm mq = Some mq'"
  shows "mq_inv (mq'\<lparr>accepted := accepted mq @ [mm]\<rparr>)"
proof -
  let ?mq = "mq'\<lparr>accepted := accepted mq @ [mm]\<rparr>"
  from assms putMetaMsg_spec [of mq mm mq'] obtain mq1 where r: "init_rel mq mq1" "same_rest mq1 mq'"
      and ok: "chans_ok mq'" and q: "queue (class_of mm) mq' = queue (class_of mm) mq @ [mm]"
      and o: "\<And>c. c \<noteq> class_of mm \<Longrightarrow> queue c mq' = queue c mq"
    by (auto simp: mq_inv_def)
  have qa: "queue c ?mq = (if c = class_of mm then queue c mq @ [mm] else queue c mq)" for c
    using q o by simp
  have p: "reorder_pc mq' = reorder_pc mq \<and> egressChan mq' = egressChan mq \<or>
      egressChan mq = None \<and> reorder_pc mq' = Moving [] \<and> egressChan mq' = Some (make_chan (qSize mq))"
    using r by (auto simp: init_rel_def same_rest_def)
  from p assms(1) have v: "out ?mq = out mq" "held ?mq = held mq" "pulls c ?mq = pulls c mq" for c
    by (auto simp: out_def held_def pulls_def make_chan_def mq_inv_def mq_plan_def)
  have h: "handled mq' = handled mq" "late mq' = late mq"
    using r by (auto simp: init_rel_def same_rest_def)
  have "mq_flow ?mq"
    using assms(1) h unfolding mq_inv_def mq_flow_def v qa
    by (cases "class_of mm") (auto simp: q)
  moreover have "mq_plan ?mq"
    using assms(1) h p unfolding mq_inv_def mq_plan_def v qa by (auto simp: le_Suc_eq)
  moreover have "chans_ok ?mq" using ok by (simp add: chans_ok_def)
  ultimately show ?thesis by (simp add: mq_inv_def)
qed

lemma mq_inv_frame [simp]:
  "mq_inv (mq\<lparr>waitN := n\<rparr>) = mq_inv mq" "mq_inv (mq\<lparr>waitE := n\<rparr>) = mq_inv mq"
  "mq_inv (mq\<lparr>changeConfirmed := b\<rparr>) = mq_inv mq" "mq_inv (mq\<lparr>mq_done := d\<rparr>) = mq_inv mq"
  "mq_inv (mq\<lparr>wp := p\<rparr>) = mq_inv mq"
  by (simp_all add: mq_inv_def mq_flow_def mq_plan_def chans_ok_def out_def held_def pulls_def
      del: queue.simps)

lemma plan_ok_append:
  "plan_ok (p @ q) \<longleftrightarrow> plan_ok p \<and> plan_ok q \<and> (\<forall>c. Pull c \<in> set p \<longrightarrow> of_class c (emits q) = [])"
  by (induction p rule: plan_ok.induct) auto

lemma plan_ok_replicate [simp]: "plan_ok (replicate n (Pull c))"
  by (induction n) auto

lemma round_plan_facts:
  assumes "class_of m = c"
  shows "emits (round_plan (c, m) mq) = [m]"
    and "count_if (\<lambda>x. x = Pull c') (round_plan (c, m) mq) = length (queue c' mq)"
    and "sorted (map item_rank (round_plan (c, m) mq))"
    and "plan_ok (round_plan (c, m) mq)"
  using assms
  by (cases c; cases c'; auto simp: round_plan_def class_plan_def Let_def obuf_olen sorted_append
        plan_ok_append filter_replicate)+

lemma mq_inv_reorder_pc:
  "mq_inv mq \<Longrightarrow> plan_of (reorder_pc mq) = [] \<Longrightarrow> reorder_pc mq \<noteq> NotStarted \<Longrightarrow>
   plan_of p = [] \<Longrightarrow> p \<noteq> NotStarted \<Longrightarrow> mq_inv (mq\<lparr>reorder_pc := p\<rparr>)"
  by (simp add: mq_inv_def mq_flow_def mq_plan_def chans_ok_def out_def held_def pulls_def
      del: queue.simps)

text \<open>A receive takes the head of one queue and leaves the rest.\<close>

lemma mq_inv_recv:
  assumes "mq_inv mq" and "recv_class c mq = Some (m, mq')"
  shows "class_of m = c \<and> (\<forall>c'. queue c' mq = (if c' = c then [m] else []) @ queue c' mq') \<and>
    same_rest mq mq' \<and> chans_ok mq'"
proof -
  have "class_of x = c'" if "x \<in> set (queue c' mq)" for x c'
    using assms(1) that by (auto simp: mq_inv_def mq_flow_def)
  with assms recv_class_spec [of mq c m mq'] show ?thesis
    by (auto simp: mq_inv_def)
qed

lemma mq_flow_take:
  assumes inv: "mq_inv mq" and recv: "recv_class c mq = Some (m, mq')"
    and hold: "emits (plan_of p) = m # held mq" "of_class c (held mq) = []"
  shows "mq_flow (mq'\<lparr>reorder_pc := p\<rparr>)"
proof -
  from mq_inv_recv [OF inv recv] have m: "class_of m = c" and r: "same_rest mq mq'"
      and q: "\<And>c'. queue c' mq = (if c' = c then [m] else []) @ queue c' mq'" by auto
  let ?q = "mq'\<lparr>reorder_pc := p\<rparr>"
  have v: "out ?q = out mq" "handled ?q = handled mq" "accepted ?q = accepted mq" "late ?q = late mq"
      "held ?q = m # held mq" "queue c' ?q = queue c' mq'" for c'
    using r hold(1) by (auto simp: same_rest_def out_def held_def)
  from inv have f: "mq_flow mq" by (simp add: mq_inv_def)
  have "\<forall>c m. m \<in> set (queue c mq') \<longrightarrow> class_of m = c"
    using f q unfolding mq_flow_def by auto
  moreover have "mset (accepted mq) = mset (handled mq) + mset (out mq) + mset (m # held mq) +
       mset (queue High mq') + mset (queue Normal mq') + mset (queue Low mq')"
    using f q unfolding mq_flow_def by (cases c) simp_all
  moreover have "of_class c' (accepted mq) = of_class c' (handled mq @ out mq @ m # held mq) @ queue c' mq'"
    if "c' \<noteq> Normal \<or> \<not> late mq" for c'
    using f q [of c'] that hold(2) m unfolding mq_flow_def by auto
  ultimately show ?thesis unfolding mq_flow_def v by blast
qed

lemma mq_plan_take:
  assumes inv: "mq_inv mq" and recv: "recv_class c mq = Some (m, mq')"
    and hold: "reorder_pc mq \<noteq> NotStarted" "p \<noteq> NotStarted"
    and p: "sorted (map item_rank (plan_of p))" "plan_ok (plan_of p)"
      "\<And>c'. c' \<noteq> Normal \<or> \<not> late mq \<Longrightarrow>
         count_if (\<lambda>x. x = Pull c') (plan_of p) \<le> length (queue c' mq')"
  shows "mq_plan (mq'\<lparr>reorder_pc := p\<rparr>)"
  using inv mq_inv_recv [OF inv recv] hold p
  by (auto simp: mq_plan_def mq_inv_def same_rest_def pulls_def)

lemma mq_inv_select:
  assumes inv: "mq_inv mq" and pc: "reorder_pc mq = Selecting d h l"
    and recv: "recv_class c mq = Some (m, mq')"
  shows "mq_inv (mq'\<lparr>reorder_pc := Moving (round_plan (c, m) mq')\<rparr>)"
proof -
  from mq_inv_recv [OF inv recv] have m: "class_of m = c" and ok: "chans_ok mq'" by auto
  from pc have h: "held mq = []" by (simp add: held_def)
  show ?thesis
    unfolding mq_inv_def
    using mq_flow_take [OF inv recv, of "Moving (round_plan (c, m) mq')"]
      mq_plan_take [OF inv recv, of "Moving (round_plan (c, m) mq')"]
      round_plan_facts [OF m, where mq = mq'] h pc ok
    by (simp add: chans_ok_def)
qed

lemma mq_inv_pull:
  assumes inv: "mq_inv mq" and pc: "reorder_pc mq = Moving (Pull c # plan)"
    and recv: "recv_class c mq = Some (m, mq')"
  shows "mq_inv (mq'\<lparr>reorder_pc := Moving (Emit m # plan)\<rparr>)"
proof -
  from mq_inv_recv [OF inv recv] have m: "class_of m = c" and ok: "chans_ok mq'"
      and q: "\<And>c'. queue c' mq = (if c' = c then [m] else []) @ queue c' mq'" by auto
  from pc have h: "held mq = emits plan" by (simp add: held_def)
  from inv have pl: "mq_plan mq" by (simp add: mq_inv_def)
  with pc m have p: "sorted (map item_rank (Emit m # plan))" "plan_ok (Emit m # plan)"
      "of_class c (emits plan) = []"
    by (auto simp: mq_plan_def)
  have "count_if (\<lambda>x. x = Pull c') plan \<le> length (queue c' mq')" if "c' \<noteq> Normal \<or> \<not> late mq" for c'
    using pl pc that q [of c'] by (auto simp: mq_plan_def pulls_def split: if_splits dest: spec [of _ c'])
  then show ?thesis
    unfolding mq_inv_def
    using mq_flow_take [OF inv recv, of "Moving (Emit m # plan)"]
      mq_plan_take [OF inv recv, of "Moving (Emit m # plan)"] p h pc ok
    by (simp add: chans_ok_def)
qed

lemma mq_inv_emit:
  assumes "mq_inv mq" and "reorder_pc mq = Moving (Emit m # plan)" and "egressChan mq = Some ch"
    and "try_send m ch = Some ch'"
  shows "mq_inv (mq\<lparr>egressChan := Some ch', reorder_pc := Moving plan\<rparr>)"
  using assms chan_ok_send [of "qSize mq" ch m ch']
  by (simp add: mq_inv_def mq_flow_def mq_plan_def chans_ok_def out_def held_def pulls_def
      add_ac del: queue.simps)

lemma mq_inv_reorder: "reorder_step mq mq' \<Longrightarrow> mq_inv mq \<Longrightarrow> mq_inv mq'"
  by (erule reorder_stepE) (auto intro: mq_inv_select mq_inv_pull mq_inv_emit mq_inv_reorder_pc)

lemma mq_inv_handle_egress:
  assumes "mq_inv mq" and "egressChan mq = Some ch" and "try_recv ch = Some (m, ch')"
  shows "mq_inv (mq\<lparr>egressChan := Some ch', waitE := n, handled := handled mq @ [m]\<rparr>)"
  using assms chan_ok_recv [of "qSize mq" ch m ch']
  by (simp add: mq_inv_def mq_flow_def mq_plan_def chans_ok_def out_def held_def pulls_def
      add_ac del: queue.simps)

lemma mq_inv_handle_normal:
  assumes inv: "mq_inv mq" and recv: "recv_class Normal mq = Some (m, mq')"
  shows "mq_inv (mq'\<lparr>waitN := n, handled := handled mq @ [m], late := late mq \<or> egressChan mq \<noteq> None\<rparr>)"
proof -
  let ?q = "mq'\<lparr>waitN := n, handled := handled mq @ [m], late := late mq \<or> egressChan mq \<noteq> None\<rparr>"
  from mq_inv_recv [OF inv recv] have m: "class_of m = Normal" and r: "same_rest mq mq'"
      and ok: "chans_ok mq'"
      and q: "\<And>c'. queue c' mq = (if c' = Normal then [m] else []) @ queue c' mq'" by auto
  have v: "out ?q = out mq" "held ?q = held mq" "accepted ?q = accepted mq" "pulls c' ?q = pulls c' mq"
      "queue c' ?q = queue c' mq'" "egressChan ?q = egressChan mq" "reorder_pc ?q = reorder_pc mq" for c'
    using r by (auto simp: same_rest_def out_def held_def pulls_def)
  from inv have f: "mq_flow mq" and p: "mq_plan mq" by (simp_all add: mq_inv_def)
  have e: "out mq = [] \<and> held mq = [] \<and> (\<forall>c. pulls c mq = 0)" if "egressChan mq = None"
    using p that by (auto simp: mq_plan_def out_def held_def pulls_def)
  have "\<forall>c m. m \<in> set (queue c mq') \<longrightarrow> class_of m = c"
    using f q unfolding mq_flow_def by auto
  moreover have "mset (accepted mq) = mset (handled mq @ [m]) + mset (out mq) + mset (held mq) +
       mset (queue High mq') + mset (queue Normal mq') + mset (queue Low mq')"
    using f q [of High] q [of Normal] q [of Low] unfolding mq_flow_def by simp
  moreover have "of_class c (accepted mq) = of_class c ((handled mq @ [m]) @ out mq @ held mq) @ queue c mq'"
    if "c \<noteq> Normal \<or> \<not> late ?q" for c
    using f q [of c] that m e unfolding mq_flow_def by (cases "c = Normal") auto
  ultimately have "mq_flow ?q" unfolding mq_flow_def v by simp
  moreover have "mq_plan ?q"
    using p q e unfolding mq_plan_def v by (auto split: if_splits)
  ultimately show ?thesis using ok by (simp add: mq_inv_def chans_ok_def)
qed

lemma worker_select_inv [simp]: "mq_inv (worker_select mq) = mq_inv mq"
  by (auto simp: worker_select_def getEgressChan_def Let_def split: option.splits)

lemma mq_inv_step: "mq_step mq mq' \<Longrightarrow> mq_inv mq \<Longrightarrow> mq_inv mq'"
  by (erule mq_step.cases)
     (auto intro: mq_inv_put mq_inv_reorder mq_inv_handle_normal mq_inv_handle_egress
       simp: close_mq_done_def simp del: not_None_eq split: done_chan.splits)

lemma mq_reachable_inv: "mq_reachable n mq \<Longrightarrow> mq_inv mq"
  by (induction rule: mq_reachable.induct) (auto intro: mq_inv_new mq_inv_step)

section \<open>Schedules\<close>

text \<open>
  Schedules as lists of events, to run the machine on concrete inputs: what moves next, and for
  \<open>reorder\<close> in its \<open>select\<close> which ready case it takes.
\<close>

datatype 'm mq_event =
  Put "'m metaKnownMsg" | Reorder prio | WorkerSelect | HandleNormal | HandleEgress | Close | NilDone

definition reorder_exec :: "prio \<Rightarrow> ('m, 'x) msgQ_scheme \<Rightarrow> ('m, 'x) msgQ_scheme option" where
  "reorder_exec c mq =
     (case reorder_pc mq of
        Moving [] \<Rightarrow> Some (mq\<lparr>reorder_pc := Selecting (mq_done mq \<noteq> DoneNil)
          (ingressHighChan mq \<noteq> None) (ingressLowChan mq \<noteq> None)\<rparr>)
      | Moving (Emit m # plan) \<Rightarrow>
          (case egressChan mq of
             None \<Rightarrow> None
           | Some ch \<Rightarrow> map_option (\<lambda>ch'. mq\<lparr>egressChan := Some ch', reorder_pc := Moving plan\<rparr>)
               (try_send m ch))
      | Moving (Pull c # plan) \<Rightarrow>
          map_option (\<lambda>(m, mq'). mq'\<lparr>reorder_pc := Moving (Emit m # plan)\<rparr>) (recv_class c mq)
      | Selecting d h l \<Rightarrow>
          (if listens h l c
           then map_option (\<lambda>(m, mq'). mq'\<lparr>reorder_pc := Moving (round_plan (c, m) mq')\<rparr>) (recv_class c mq)
           else None)
      | _ \<Rightarrow> None)"

definition mq_exec :: "'m mq_event \<Rightarrow> 'm msgQ_log \<Rightarrow> 'm msgQ_log option" where
  "mq_exec e mq =
     (case e of
        Put mm \<Rightarrow> map_option (\<lambda>mq'. mq'\<lparr>accepted := accepted mq @ [mm]\<rparr>) (putMetaMsg mm mq)
      | Reorder c \<Rightarrow> reorder_exec c mq
      | WorkerSelect \<Rightarrow> Some (worker_select mq)
      | HandleNormal \<Rightarrow>
          (if 0 < waitN mq
           then map_option (\<lambda>(mm, mq'). mq'\<lparr>waitN := waitN mq - 1, handled := handled mq @ [mm],
                  late := late mq \<or> egressChan mq \<noteq> None\<rparr>) (recv_class Normal mq)
           else None)
      | HandleEgress \<Rightarrow>
          (case egressChan mq of
             None \<Rightarrow> None
           | Some ch \<Rightarrow>
               if 0 < waitE mq
               then map_option (\<lambda>(mm, ch'). mq\<lparr>egressChan := Some ch', waitE := waitE mq - 1,
                      handled := handled mq @ [mm]\<rparr>) (try_recv ch)
               else None)
      | Close \<Rightarrow> (case close_mq_done mq of Ret mq' \<Rightarrow> Some mq' | Panic e \<Rightarrow> None)
      | NilDone \<Rightarrow> (if mq_done mq = DoneClosed then Some (mq\<lparr>mq_done := DoneNil\<rparr>) else None))"

fun mq_run :: "'m mq_event list \<Rightarrow> 'm msgQ_log \<Rightarrow> 'm msgQ_log option" where
  "mq_run [] mq = Some mq"
| "mq_run (e # es) mq = (case mq_exec e mq of None \<Rightarrow> None | Some mq' \<Rightarrow> mq_run es mq')"

lemma reorder_exec_step: "reorder_exec c mq = Some mq' \<Longrightarrow> reorder_step mq mq'"
  by (auto simp: reorder_exec_def simp del: not_None_eq intro: reorder_step.intros
      split: reorder_state.splits reorder_item.splits list.splits option.splits if_splits)

lemma mq_exec_step: "mq_exec e mq = Some mq' \<Longrightarrow> mq_step mq mq'"
  by (auto simp: mq_exec_def simp del: not_None_eq One_nat_def intro: mq_step.intros reorder_exec_step
      split: mq_event.splits option.splits if_splits outcome.splits)

lemma mq_run_reachable: "mq_run es mq = Some mq' \<Longrightarrow> mq_reachable n mq \<Longrightarrow> mq_reachable n mq'"
proof (induction es arbitrary: mq)
  case (Cons e es)
  then obtain mq1 where e: "mq_exec e mq = Some mq1" and r: "mq_run es mq1 = Some mq'"
    by (auto split: option.splits)
  from Cons.IH [OF r mq_reachable.step [OF Cons.prems(2) mq_exec_step [OF e]]] show ?case .
qed simp

section \<open>A round\<close>

text \<open>What a plan sends when it is carried out on given queues.\<close>

fun plan_yield :: "'m reorder_item list \<Rightarrow> (prio \<Rightarrow> 'm metaKnownMsg list) \<Rightarrow> 'm metaKnownMsg list" where
  "plan_yield [] qs = []"
| "plan_yield (Emit m # plan) qs = m # plan_yield plan qs"
| "plan_yield (Pull c # plan) qs = hd (qs c) # plan_yield plan (qs(c := tl (qs c)))"

lemma emit_enabled:
  assumes "mq_inv mq" and "reorder_pc mq = Moving (Emit m # plan)" and "length (out mq) < qSize mq"
  obtains ch ch' where "egressChan mq = Some ch" and "try_send m ch = Some ch'"
    and "buffered ch' = out mq @ [m]"
proof -
  from assms obtain ch where ch: "egressChan mq = Some ch"
    by (auto simp: mq_inv_def mq_plan_def)
  with assms have ok: "chan_ok (qSize mq) (Some ch)" by (simp add: mq_inv_def chans_ok_def)
  with assms(3) ch obtain ch' where ch': "try_send m ch = Some ch'"
    using go_chan.send_None [of ch m] by (cases "try_send m ch") (auto simp: chan_ok_def out_def)
  with chan_ok_send [OF ok ch'] ch that show ?thesis by (simp add: out_def)
qed

lemma reorder_drains:
  assumes "mq_inv mq" and "reorder_pc mq = Moving plan"
    and "\<And>c. count_if (\<lambda>x. x = Pull c) plan \<le> length (queue c mq)"
    and "length (out mq) + length plan \<le> qSize mq"
  shows "\<exists>mq'. reorder_step\<^sup>*\<^sup>* mq mq' \<and> reorder_pc mq' = Moving [] \<and>
    out mq' = out mq @ plan_yield plan (\<lambda>c. queue c mq) \<and>
    (\<forall>c. queue c mq' = drop (count_if (\<lambda>x. x = Pull c) plan) (queue c mq)) \<and> mq_inv mq'"
  using assms
proof (induction "length (filter (\<lambda>x. case x of Pull c \<Rightarrow> True | _ \<Rightarrow> False) plan) + length plan"
    arbitrary: mq plan rule: less_induct)
  case less
  note IH = less.hyps and pc = less.prems(2)
  show ?case
  proof (cases plan)
    case Nil
    then show ?thesis using less.prems by auto
  next
    case (Cons x rest)
    show ?thesis
    proof (cases x)
      case (Emit m)
      with less.prems Cons obtain ch ch' where ch: "egressChan mq = Some ch" "try_send m ch = Some ch'"
          "buffered ch' = out mq @ [m]"
        by (auto elim: emit_enabled [of mq m rest])
      let ?q = "mq\<lparr>egressChan := Some ch', reorder_pc := Moving rest\<rparr>"
      have st: "reorder_step mq ?q" using pc Cons Emit ch by (simp add: reorder_step.emit)
      have "mq_inv ?q" using mq_inv_reorder [OF st less.prems(1)] .
      then obtain mq' where "reorder_step\<^sup>*\<^sup>* ?q mq'" "reorder_pc mq' = Moving []"
          "out mq' = out ?q @ plan_yield rest (\<lambda>c. queue c ?q)" "mq_inv mq'"
          "\<forall>c. queue c mq' = drop (count_if (\<lambda>x. x = Pull c) rest) (queue c ?q)"
        using IH [of rest ?q] less.prems Cons Emit ch(3) by (auto simp: out_def)
      with st ch Cons Emit show ?thesis
        by (intro exI [of _ mq']) (auto simp: out_def intro: converse_rtranclp_into_rtranclp)
    next
      case (Pull c)
      with less.prems(3) [of c] Cons have "queue c mq \<noteq> []" by auto
      then obtain m mq1 where rc: "recv_class c mq = Some (m, mq1)"
        by (metis recv_class_None option.exhaust surj_pair)
      from mq_inv_recv [OF less.prems(1) rc] have r: "same_rest mq mq1"
        and q: "\<And>c'. queue c' mq = (if c' = c then [m] else []) @ queue c' mq1" by auto
      let ?q = "mq1\<lparr>reorder_pc := Moving (Emit m # rest)\<rparr>"
      have st: "reorder_step mq ?q" using pc Cons Pull rc by (auto intro: reorder_step.pull)
      have i: "mq_inv ?q" using mq_inv_reorder [OF st less.prems(1)] .
      have o: "out ?q = out mq" "qSize ?q = qSize mq" using r by (auto simp: same_rest_def out_def)
      have l: "count_if (\<lambda>x. x = Pull c') (Emit m # rest) \<le> length (queue c' ?q)" for c'
        using less.prems(3) [of c'] Cons Pull q [of c'] by (auto split: if_splits)
      obtain mq' where "reorder_step\<^sup>*\<^sup>* ?q mq'" "reorder_pc mq' = Moving []"
          "out mq' = out ?q @ plan_yield (Emit m # rest) (\<lambda>c. queue c ?q)" "mq_inv mq'"
          "\<forall>c. queue c mq' = drop (count_if (\<lambda>x. x = Pull c) (Emit m # rest)) (queue c ?q)"
        using IH [of "Emit m # rest" ?q] less.prems(4) Cons Pull i l o by auto
      moreover have "(\<lambda>c. queue c mq)(c := queue c mq1) = (\<lambda>c. queue c mq1)"
        using q by (auto simp: fun_eq_iff)
      ultimately show ?thesis using st Cons Pull q o
        by (intro exI [of _ mq']) (auto intro: converse_rtranclp_into_rtranclp)
    qed
  qed
qed

lemma plan_yield_pulls:
  "n \<le> length (qs c) \<Longrightarrow> plan_yield (replicate n (Pull c) @ plan) qs =
     take n (qs c) @ plan_yield plan (qs(c := drop n (qs c)))"
proof (induction n arbitrary: qs)
  case (Suc n)
  then obtain x xs where "qs c = x # xs" by (cases "qs c") auto
  with Suc.IH [of "qs(c := xs)"] Suc.prems show ?case by (simp add: fun_upd_def cong: if_cong)
qed simp

lemmas plan_yield_last = plan_yield_pulls [where plan = "[]", simplified]

lemma plan_yield_round:
  assumes "class_of m = c"
  shows "plan_yield (round_plan (c, m) mq) (\<lambda>c. queue c mq) =
    ((if c = High then [m] else []) @ queue High mq) @ ((if c = Normal then [m] else []) @ queue Normal mq) @
    ((if c = Low then [m] else []) @ queue Low mq)"
  using assms
  by (cases c) (auto simp: round_plan_def class_plan_def Let_def obuf_olen plan_yield_pulls plan_yield_last)

section \<open>Properties\<close>

text \<open>
  C3 (\<open>msgQ\<close>): however puts, \<open>reorder\<close>, workers, pool changes and closing interleave, every message
  the queue accepted is in exactly one place - handled, in the egress channel, in the hand of
  \<open>reorder\<close>, or in the channel of its class; nothing is lost or duplicated - and the messages of
  one class are handled in the order in which they were put: always for high and low priority, and
  for normal priority as long as no worker that had committed to the normal channel before the
  egress channel existed takes a message from it afterwards.
\<close>

theorem msgq_conserves_and_orders:
  assumes "mq_reachable n mq"
  shows "mset (accepted mq) = mset (handled mq) + mset (out mq) + mset (held mq) +
      mset (queue High mq) + mset (queue Normal mq) + mset (queue Low mq) \<and>
    (\<forall>c. c \<noteq> Normal \<or> \<not> late mq \<longrightarrow>
      of_class c (accepted mq) = of_class c (handled mq) @ of_class c (out mq @ held mq) @ queue c mq) \<and>
    (\<forall>c. length (queue c mq) \<le> qSize mq) \<and> length (out mq) \<le> qSize mq"
proof -
  have i: "mq_inv mq" using mq_reachable_inv [OF assms] .
  have "length (queue c mq) \<le> qSize mq" for c
    using i by (cases c) (auto simp: mq_inv_def chans_ok_def chan_ok_def wf_chan_def obuf_def
        split: option.splits)
  moreover have "length (out mq) \<le> qSize mq"
    using i by (auto simp: mq_inv_def chans_ok_def chan_ok_def wf_chan_def out_def obuf_def
        split: option.splits)
  ultimately show ?thesis using i by (simp add: mq_inv_def mq_flow_def)
qed

definition demo_msg :: "nat \<Rightarrow> prio \<Rightarrow> nat metaKnownMsg" where
  "demo_msg k c = \<lparr>msg = k, isHighPriority = (c = High), isLowPriority = (c = Low)\<rparr>"

definition demo_run :: "nat mq_event list \<Rightarrow> nat msgQ_log" where
  "demo_run es = the (mq_run es (newMsgQ 1 8 0 1))"

lemma demo_reachable:
  "mq_run es (newMsgQ 1 8 0 1) \<noteq> None \<Longrightarrow> mq_reachable 8 (demo_run es)"
  using mq_run_reachable [OF _ mq_reachable.new] by (auto simp: demo_run_def)

lemmas mq_exec_simps = mq_exec_def reorder_exec_def putMetaMsg_def class_of_def demo_msg_def newMsgQ_def
  initHigh_def initLow_def initEgress_def make_chan_def try_send_def chan_send_def try_recv_def
  chan_recv_def recv_class_def round_plan_def class_plan_def olen_def worker_select_def
  getEgressChan_def close_mq_done_def Let_def out_def held_def obuf_def of_class_def

theorem msgq_conserves_and_orders_witness:
  "mset (accepted (demo_run [Put (demo_msg 1 Normal), Put (demo_msg 2 High), Put (demo_msg 3 Normal),
      Reorder Normal, Reorder Normal, Reorder Normal])) =
     {#demo_msg 2 High#} + {#demo_msg 1 Normal#} + {#demo_msg 3 Normal#}"
proof -
  let ?es = "[Put (demo_msg 1 Normal), Put (demo_msg 2 High), Put (demo_msg 3 Normal),
      Reorder Normal, Reorder Normal, Reorder Normal]"
  have "mq_run ?es (newMsgQ 1 8 0 1) \<noteq> None" by (simp add: mq_exec_simps)
  from msgq_conserves_and_orders [OF demo_reachable [OF this]] show ?thesis
    by (simp add: demo_run_def mq_exec_simps)
qed

text \<open>
  C39 (\<open>reorder\<close>): when \<open>reorder\<close> leaves its \<open>select\<close> with a message, whichever ready case the
  \<open>select\<close> took, and the egress channel has room for what is queued, the round ends and has
  appended to the egress channel all queued high messages, then all normal, then all low ones,
  each class in its order, and the three queues are empty.
\<close>

theorem reorder_round_by_priority:
  assumes "mq_reachable n mq" and "reorder_pc mq = Selecting d h l" and "mq_done mq = DoneOpen"
    and "reorder_step mq mq1"
    and "length (out mq) + length (queue High mq) + length (queue Normal mq) + length (queue Low mq)
      \<le> qSize mq"
  shows "\<exists>mq2. reorder_step\<^sup>*\<^sup>* mq1 mq2 \<and> reorder_pc mq2 = Moving [] \<and>
    out mq2 = out mq @ queue High mq @ queue Normal mq @ queue Low mq \<and> (\<forall>c. queue c mq2 = [])"
proof -
  have inv: "mq_inv mq" using mq_reachable_inv [OF assms(1)] .
  from assms(2-4) obtain c m mq' where rc: "recv_class c mq = Some (m, mq')"
      and mq1: "mq1 = mq'\<lparr>reorder_pc := Moving (round_plan (c, m) mq')\<rparr>"
    by (auto elim: reorder_stepE)
  from mq_inv_recv [OF inv rc] have m: "class_of m = c" and r: "same_rest mq mq'"
    and q: "\<And>c'. queue c' mq = (if c' = c then [m] else []) @ queue c' mq'" by auto
  have i1: "mq_inv mq1" using mq_inv_reorder [OF assms(4) inv] .
  have q1: "queue c' mq1 = queue c' mq'" for c' using mq1 by simp
  note f = round_plan_facts [OF m, where mq = mq']
  have "length (round_plan (c, m) mq') = 1 + length (queue High mq') + length (queue Normal mq') +
      length (queue Low mq')"
    by (cases c) (auto simp: round_plan_def class_plan_def Let_def obuf_olen)
  then have "length (out mq1) + length (round_plan (c, m) mq') \<le> qSize mq1"
    using assms(5) r q [of High] q [of Normal] q [of Low] mq1
    by (cases c) (auto simp: same_rest_def out_def)
  with reorder_drains [OF i1, of "round_plan (c, m) mq'"] mq1 f(2)
  obtain mq2 where "reorder_step\<^sup>*\<^sup>* mq1 mq2" "reorder_pc mq2 = Moving []"
      "out mq2 = out mq1 @ plan_yield (round_plan (c, m) mq') (\<lambda>c. queue c mq')"
      "\<forall>c'. queue c' mq2 = drop (length (queue c' mq')) (queue c' mq')"
    unfolding q1 by auto
  moreover have "out mq1 = out mq" using r mq1 by (auto simp: same_rest_def out_def)
  ultimately show ?thesis
    using plan_yield_round [OF m, of mq'] q [of High] q [of Normal] q [of Low] by auto
qed

theorem reorder_round_by_priority_witness:
  "\<exists>mq1 mq2. reorder_step (demo_run [Put (demo_msg 1 Normal), Put (demo_msg 2 Low),
       Put (demo_msg 3 High), Reorder Low]) mq1 \<and> reorder_step\<^sup>*\<^sup>* mq1 mq2 \<and>
     out mq2 = [demo_msg 3 High, demo_msg 1 Normal, demo_msg 2 Low]"
proof -
  let ?es = "[Put (demo_msg 1 Normal), Put (demo_msg 2 Low), Put (demo_msg 3 High), Reorder Low]"
  let ?mq = "demo_run ?es"
  have r: "mq_reachable 8 ?mq" by (rule demo_reachable) (simp add: mq_exec_simps)
  have f: "reorder_pc ?mq = Selecting True True True" "mq_done ?mq = DoneOpen" "qSize ?mq = 8"
      "out ?mq = []" "queue High ?mq = [demo_msg 3 High]" "queue Normal ?mq = [demo_msg 1 Normal]"
      "queue Low ?mq = [demo_msg 2 Low]"
    by (simp_all add: demo_run_def mq_exec_simps)
  obtain mq1 where st: "reorder_step ?mq mq1"
    using reorder_step.select [of ?mq True True True Low] f
    by (metis listens.simps(3) list.distinct(1) option.exhaust recv_class_None surj_pair)
  from reorder_round_by_priority [OF r f(1,2) st]
  obtain mq2 where "reorder_step\<^sup>*\<^sup>* mq1 mq2" "out mq2 = [demo_msg 3 High, demo_msg 1 Normal, demo_msg 2 Low]"
    unfolding f by (auto simp del: queue.simps)
  with st show ?thesis by blast
qed

text \<open>
  As long as no stale worker took a normal message from under it, \<open>reorder\<close> never
  blocks on an ingress channel in the middle of a round: it can always take its next step unless
  the egress channel is full; and in its \<open>select\<close> it can move as soon as a channel it listens to
  holds a message.
\<close>

theorem reorder_progress:
  assumes "mq_reachable n mq" and "\<not> late mq"
  shows "(reorder_pc mq = Moving plan \<and> length (out mq) < qSize mq \<longrightarrow> (\<exists>mq'. reorder_step mq mq')) \<and>
    (reorder_pc mq = Selecting d h l \<and> listens h l c \<and> queue c mq \<noteq> [] \<longrightarrow> (\<exists>mq'. reorder_step mq mq'))"
proof (intro conjI impI; elim conjE)
  have inv: "mq_inv mq" using mq_reachable_inv [OF assms(1)] .
  have rc: "\<exists>m mq'. recv_class c mq = Some (m, mq')" if "queue c mq \<noteq> []" for c
    using that recv_class_None [of c mq] by (cases "recv_class c mq") auto
  show "\<exists>mq'. reorder_step mq mq'"
    if "reorder_pc mq = Selecting d h l" "listens h l c" "queue c mq \<noteq> []"
    using rc [OF that(3)] reorder_step.select [OF that(1,2)] by blast
  assume pc: "reorder_pc mq = Moving plan" and room: "length (out mq) < qSize mq"
  show "\<exists>mq'. reorder_step mq mq'"
  proof (cases plan)
    case Nil
    with pc reorder_step.enter show ?thesis by blast
  next
    case (Cons x rest)
    show ?thesis
    proof (cases x)
      case (Emit m)
      with pc Cons emit_enabled [OF inv _ room, of m rest] reorder_step.emit [of mq m rest]
      show ?thesis by metis
    next
      case (Pull c')
      from inv assms(2) have "pulls c' mq \<le> length (queue c' mq)"
        by (auto simp: mq_inv_def mq_plan_def)
      with pc Cons Pull have "queue c' mq \<noteq> []" by (auto simp: pulls_def)
      with rc pc Cons Pull reorder_step.pull [of mq c' rest] show ?thesis by blast
    qed
  qed
qed

theorem reorder_progress_witness:
  "\<exists>mq'. reorder_step (demo_run [Put (demo_msg 1 Normal), Put (demo_msg 2 High)]) mq'"
proof -
  let ?mq = "demo_run [Put (demo_msg 1 Normal), Put (demo_msg 2 High)]"
  have "mq_reachable 8 ?mq" by (rule demo_reachable) (simp add: mq_exec_simps)
  moreover have "\<not> late ?mq" "reorder_pc ?mq = Moving []" "length (out ?mq) < qSize ?mq"
    by (simp_all add: demo_run_def mq_exec_simps)
  ultimately show ?thesis using reorder_progress [of 8 ?mq "[]"] by blast
qed

text \<open>When \<open>reorder\<close> cannot move.\<close>

lemma reorder_blocked_select:
  "reorder_pc mq = Selecting d h l \<Longrightarrow> mq_done mq = DoneOpen \<Longrightarrow> (\<And>c. listens h l c \<Longrightarrow> queue c mq = []) \<Longrightarrow>
   \<not> reorder_step mq mq'"
  by (rule notI, erule reorder_stepE) (auto, metis option.distinct(1) recv_class_None)

lemma reorder_blocked_pull:
  "reorder_pc mq = Moving (Pull c # plan) \<Longrightarrow> queue c mq = [] \<Longrightarrow> \<not> reorder_step mq mq'"
  using recv_class_None [of c mq] by (auto elim!: reorder_stepE)

text \<open>
  A deviation. The \<open>select\<close> of \<open>reorder\<close> evaluates
  \<open>mq.ingressLowChan\<close> when it is entered. If the first low message arrives while \<open>reorder\<close> waits
  there, the channel it created is not among those \<open>reorder\<close> listens to: the queue holds the
  message, the egress channel is empty, a worker waits on it, and \<open>reorder\<close> cannot move until
  some high or normal message comes.
\<close>

theorem low_message_stranded:
  "\<exists>mq. mq_reachable 8 mq \<and> queue Low mq = [demo_msg 2 Low] \<and> out mq = [] \<and> 0 < waitE mq \<and>
     mq_done mq = DoneOpen \<and> (\<forall>mq'. \<not> reorder_step mq mq')"
proof -
  let ?es = "[Put (demo_msg 1 High), Reorder High, Reorder High, Reorder High, Reorder High,
    WorkerSelect, HandleEgress, WorkerSelect, Put (demo_msg 2 Low)]"
  let ?mq = "demo_run ?es"
  have r: "mq_reachable 8 ?mq" by (rule demo_reachable) (simp add: mq_exec_simps)
  have f: "reorder_pc ?mq = Selecting True True False" "mq_done ?mq = DoneOpen"
      "out ?mq = []" "queue High ?mq = []" "queue Normal ?mq = []" "waitE ?mq = 1"
      "queue Low ?mq = [demo_msg 2 Low]"
    by (simp_all add: demo_run_def mq_exec_simps)
  have "\<not> reorder_step ?mq mq'" for mq'
  proof (rule reorder_blocked_select [OF f(1,2)])
    show "queue c ?mq = []" if "listens True False c" for c
      using that f by (cases c) (auto simp del: queue.simps)
  qed
  with r f show ?thesis by (metis zero_less_one)
qed

text \<open>
  A deviation. A worker that entered its \<open>select\<close> before the egress channel
  existed still receives from the normal channel. If it takes a message that \<open>reorder\<close> has
  already counted, \<open>reorder\<close> blocks on the empty normal channel although high messages wait and
  the egress channel is empty: the condition on stale workers in
  \<open>msgq_conserves_and_orders\<close> and \<open>reorder_progress\<close> is needed.
\<close>

theorem stale_worker_blocks_reorder:
  "\<exists>mq. mq_reachable 8 mq \<and> queue High mq = [demo_msg 3 High] \<and> out mq = [] \<and> late mq \<and>
     mq_done mq = DoneOpen \<and> (\<forall>mq'. \<not> reorder_step mq mq')"
proof -
  let ?es = "[WorkerSelect, Put (demo_msg 1 Normal), Put (demo_msg 2 High), Reorder High, Reorder High,
    HandleNormal, Reorder High, WorkerSelect, HandleEgress, Put (demo_msg 3 High)]"
  let ?mq = "demo_run ?es"
  have r: "mq_reachable 8 ?mq" by (rule demo_reachable) (simp add: mq_exec_simps)
  have f: "reorder_pc ?mq = Moving [Pull Normal]" "mq_done ?mq = DoneOpen" "out ?mq = []" "late ?mq"
      "queue Normal ?mq = []" "queue High ?mq = [demo_msg 3 High]"
    by (simp_all add: demo_run_def mq_exec_simps)
  with r reorder_blocked_pull [OF f(1,5)] show ?thesis by blast
qed

text \<open>
  Closing the queue stops \<open>reorder\<close> when it waits in its \<open>select\<close>; but
  \<open>close\<close> also sets \<open>mq.done\<close> to nil, so a \<open>reorder\<close> that is in the middle of a round then enters
  its next \<open>select\<close> with a nil channel, and it never stops, whatever happens afterwards: the
  goroutine leaks.
\<close>

fun leaking :: "'m reorder_state \<Rightarrow> bool" where
  "leaking (Moving plan) = True"
| "leaking (Selecting d h l) = (\<not> d)"
| "leaking _ = False"

definition never_stops :: "('m, 'x) msgQ_scheme \<Rightarrow> bool" where
  "never_stops mq \<longleftrightarrow> mq_done mq = DoneNil \<and> egressChan mq \<noteq> None \<and> leaking (reorder_pc mq)"

lemma recv_class_frame:
  "recv_class c mq = Some (m, mq') \<Longrightarrow> mq_done mq' = mq_done mq \<and> egressChan mq' = egressChan mq \<and>
     reorder_pc mq' = reorder_pc mq \<and> wp mq' = wp mq"
  by (cases c) (auto simp: recv_class_def split: option.splits)

lemma putMetaMsg_frame:
  "putMetaMsg mm mq = Some mq' \<Longrightarrow> mq_done mq' = mq_done mq \<and> wp mq' = wp mq \<and>
     (egressChan mq \<noteq> None \<longrightarrow> egressChan mq' = egressChan mq \<and> reorder_pc mq' = reorder_pc mq)"
  by (cases "class_of mm")
     (auto simp: putMetaMsg_def initHigh_def initLow_def initEgress_def Let_def split: option.splits if_splits)

lemma never_stops_reorder: "reorder_step mq mq' \<Longrightarrow> never_stops mq \<Longrightarrow> never_stops mq'"
  by (erule reorder_stepE) (auto simp: never_stops_def dest: recv_class_frame)

lemma never_stops_put:
  "putMetaMsg mm mq = Some mq' \<Longrightarrow> never_stops mq \<Longrightarrow> never_stops (mq'\<lparr>accepted := ms\<rparr>)"
  using putMetaMsg_frame [of mm mq mq'] by (simp add: never_stops_def)

lemma never_stops_step: "mq_step mq mq' \<Longrightarrow> never_stops mq \<Longrightarrow> never_stops mq'"
proof (induction rule: mq_step.induct)
  case (handle_normal mq mm mq')
  then show ?case using recv_class_frame [of Normal mq mm mq'] by (simp add: never_stops_def)
next
  case (close_done mq mq')
  then show ?case by (simp add: never_stops_def close_mq_done_def)
next
  case (select mq)
  then show ?case by (auto simp: never_stops_def worker_select_def getEgressChan_def Let_def)
qed (auto intro: never_stops_put never_stops_reorder, auto simp: never_stops_def)

theorem close_stops_reorder:
  assumes "mq_reachable n mq" and "mq_done mq \<noteq> DoneOpen"
  shows "(reorder_pc mq = Selecting True h l \<longrightarrow> reorder_step mq (mq\<lparr>reorder_pc := Stopped\<rparr>)) \<and>
    (mq_done mq = DoneNil \<and> reorder_pc mq = Moving plan \<and> mq_step\<^sup>*\<^sup>* mq mq' \<longrightarrow>
       reorder_pc mq' \<noteq> Stopped)"
proof (intro conjI impI)
  show "reorder_step mq (mq\<lparr>reorder_pc := Stopped\<rparr>)" if "reorder_pc mq = Selecting True h l"
    using that assms(2) by (rule reorder_step.stop)
  assume "mq_done mq = DoneNil \<and> reorder_pc mq = Moving plan \<and> mq_step\<^sup>*\<^sup>* mq mq'"
  then have d: "mq_done mq = DoneNil" "reorder_pc mq = Moving plan" and run: "mq_step\<^sup>*\<^sup>* mq mq'"
    by auto
  with mq_reachable_inv [OF assms(1)] have "never_stops mq"
    by (auto simp: never_stops_def mq_inv_def mq_plan_def)
  with run have "never_stops mq'" by (induction rule: rtranclp_induct) (auto intro: never_stops_step)
  then show "reorder_pc mq' \<noteq> Stopped" by (auto simp: never_stops_def)
qed

theorem close_stops_reorder_witness:
  "\<not> (\<exists>mq'. mq_step\<^sup>*\<^sup>* (demo_run [Put (demo_msg 1 High), Close, NilDone]) mq' \<and>
      reorder_pc mq' = Stopped)"
proof -
  let ?mq = "demo_run [Put (demo_msg 1 High), Close, NilDone]"
  have "mq_reachable 8 ?mq" by (rule demo_reachable) (simp add: mq_exec_simps)
  moreover have "mq_done ?mq = DoneNil" "reorder_pc ?mq = Moving []"
    by (simp_all add: demo_run_def mq_exec_simps)
  ultimately show ?thesis
    using close_stops_reorder [of 8 ?mq _ _ "[]"] by simp
qed

section \<open>Scaling\<close>

definition should_be :: "('m, 'x) msgQ_scheme \<Rightarrow> int" where
  "should_be mq = int (length (buffered (fst (getEgressChan mq)))) div qWeight mq + residentWorkers mq"

lemma getEgressChan_frame:
  "wp (snd (getEgressChan mq)) = wp mq \<and> qWeight (snd (getEgressChan mq)) = qWeight mq \<and>
   residentWorkers (snd (getEgressChan mq)) = residentWorkers mq \<and>
   mq_done (snd (getEgressChan mq)) = mq_done mq \<and>
   fst (getEgressChan (snd (getEgressChan mq))) = fst (getEgressChan mq) \<and>
   fst (getEgressChan (mq\<lparr>wp := p\<rparr>)) = fst (getEgressChan mq)"
  by (auto simp: getEgressChan_def split: option.splits)

lemma idle_after_add:
  "wp_inv p \<Longrightarrow> int (count_if idling (routine p)) + 1 < 2 ^ 31 \<Longrightarrow>
   getIdleCount (addWorker p) = getIdleCount p + 1"
  using sint_small [of "count_if idling (routine p)"] sint_small [of "Suc (count_if idling (routine p))"]
  by (simp add: wp_inv_def wp_counts_def getIdleCount_def add.commute)

lemma idle_count: "wp_inv p \<Longrightarrow> count_if idling (routine p) < 2 ^ 31 \<Longrightarrow>
   getIdleCount p = int (count_if idling (routine p))"
  by (simp add: wp_inv_def wp_counts_def getIdleCount_def sint_small)

lemma autoScaler_below:
  assumes "wp_inv (wp mq)" and "mq_done mq \<noteq> DoneNil" and "getIdleCount (wp mq) < should_be mq"
  shows "\<exists>mq'. autoScaler_round mq = Ret (Some (mq', should_be mq - getIdleCount (wp mq))) \<and>
    wp mq' = addWorker (wp mq) \<and> should_be mq' = should_be mq \<and> mq_done mq' = mq_done mq"
  using assms getEgressChan_frame [of mq "addWorker (wp mq)"]
    getEgressChan_frame [of "snd (getEgressChan mq)" "addWorker (wp mq)"]
  by (auto simp: autoScaler_round_def should_be_def split_beta Let_def)

lemma autoScaler_at:
  assumes "mq_done mq \<noteq> DoneNil" and "getIdleCount (wp mq) = should_be mq"
  shows "\<exists>mq'. autoScaler_round mq = Ret (Some (mq', 1)) \<and>
    wp mq' = wp mq \<and> should_be mq' = should_be mq \<and> mq_done mq' = mq_done mq"
  using assms getEgressChan_frame [of mq "wp mq"]
  by (auto simp: autoScaler_round_def should_be_def split_beta Let_def)

lemma autoScaler_above:
  assumes "wp_inv (wp mq)" and "mq_done mq \<noteq> DoneNil" and "should_be mq < getIdleCount (wp mq)"
  shows "\<exists>mq' p. autoScaler_round mq = Ret (Some (mq', getIdleCount (wp mq) - should_be mq)) \<and>
    rmWorker (wp mq) = Ret p \<and> wp mq' = p"
  using assms rmWorker_Ret [of "wp mq"] getEgressChan_frame [of mq "wp mq"]
  by (auto simp: autoScaler_round_def should_be_def split_beta Let_def wp_inv_def)

lemma autoScaler_climbs:
  assumes "wp_inv (wp mq)" and "mq_done mq \<noteq> DoneNil" and "should_be mq < 2 ^ 31"
    and "int (count_if idling (routine (wp mq))) \<le> should_be mq"
    and "should_be mq \<le> int (count_if idling (routine (wp mq))) + int n"
  shows "\<exists>mq'. autoScaler n mq = Ret mq' \<and> getIdleCount (wp mq') = should_be mq"
  using assms
proof (induction n arbitrary: mq)
  case 0
  then show ?case using idle_count [of "wp mq"] by simp
next
  case (Suc n)
  have now: "getIdleCount (wp mq) = int (count_if idling (routine (wp mq)))"
    using Suc.prems idle_count [of "wp mq"] by simp
  show ?case
  proof (cases "getIdleCount (wp mq) < should_be mq")
    case True
    from autoScaler_below [OF Suc.prems(1,2) True] obtain mq' where
      r: "autoScaler_round mq = Ret (Some (mq', should_be mq - getIdleCount (wp mq)))"
      and w: "wp mq' = addWorker (wp mq)" "should_be mq' = should_be mq" "mq_done mq' = mq_done mq" by blast
    have "wp_inv (wp mq')" using w wp_inv_step [OF wp_step.add Suc.prems(1)] by simp
    then have "\<exists>mq''. autoScaler n mq' = Ret mq'' \<and> getIdleCount (wp mq'') = should_be mq'"
      using Suc.prems now True w by (intro Suc.IH) auto
    with r w show ?thesis by simp
  next
    case False
    with now Suc.prems have "getIdleCount (wp mq) = should_be mq" by simp
    from autoScaler_at [OF Suc.prems(2) this] obtain mq' where
      r: "autoScaler_round mq = Ret (Some (mq', 1))"
      and w: "wp mq' = wp mq" "should_be mq' = should_be mq" "mq_done mq' = mq_done mq" by blast
    with Suc.prems now False have "\<exists>mq''. autoScaler n mq' = Ret mq'' \<and> getIdleCount (wp mq'') = should_be mq'"
      by (intro Suc.IH) auto
    with r w show ?thesis by simp
  qed
qed

lemma mq_step_wp: "mq_step mq mq' \<Longrightarrow> wp mq' = wp mq \<or> wp_step (wp mq) (wp mq')"
proof (induction rule: mq_step.induct)
  case (reorder mq mq')
  then show ?case by (auto elim!: reorder_stepE dest: recv_class_frame)
qed (auto dest: recv_class_frame putMetaMsg_frame simp: worker_select_def getEgressChan_def Let_def
      close_mq_done_def split: done_chan.splits option.splits)

lemma addWorkers_reachable: "wp_reachable p \<Longrightarrow> wp_reachable (addWorkers n p)"
  by (induction n arbitrary: p) (auto intro: wp_reachable.step wp_step.add)

lemma mq_reachable_wp: "mq_reachable n mq \<Longrightarrow> wp_reachable (wp mq)"
proof (induction rule: mq_reachable.induct)
  case (new resident weight numCPU)
  then show ?case by (simp add: newMsgQ_def Let_def addWorkers_reachable wp_reachable.new)
next
  case (step mq mq')
  then show ?case using mq_step_wp [of mq mq'] by (auto intro: wp_reachable.step)
qed

fun working :: "routine_state \<Rightarrow> bool" where
  "working (Working d) = True"
| "working _ = False"

lemma live_split: "count_if live rs = count_if idling rs + count_if working rs"
proof (induction rs)
  case (Cons r rs)
  then show ?case by (cases r) auto
qed simp



text \<open>
  The handler runs on a working goroutine of the pool; it reports as busy
  the other working goroutines and as idle the idle ones plus itself, both non-negative, and they
  add up to the pool's size.
\<close>

theorem msgq_info_counts:
  assumes "mq_reachable n mq" and "count_if live (routine (wp mq)) < 2 ^ 31"
    and "0 < count_if working (routine (wp mq))"
  shows "BusyWorkerNum (QueryMsgQInfo_Handle k mq) =
      int (count_if working (routine (wp mq))) - 1 \<and>
    0 \<le> BusyWorkerNum (QueryMsgQInfo_Handle k mq) \<and>
    IdleWorkerNum (QueryMsgQInfo_Handle k mq) = int (count_if idling (routine (wp mq))) + 1 \<and>
    BusyWorkerNum (QueryMsgQInfo_Handle k mq) + IdleWorkerNum (QueryMsgQInfo_Handle k mq) =
      int (count_if live (routine (wp mq)))"
proof -
  have c: "wp_counts (wp mq)"
    using wp_reachable_inv [OF mq_reachable_wp [OF assms(1)]] by (simp add: wp_inv_def)
  have "getCount (wp mq) = int (count_if live (routine (wp mq)))"
    "getIdleCount (wp mq) = int (count_if idling (routine (wp mq)))"
    using c assms(2) count_idling_le [of "routine (wp mq)"]
    by (simp_all add: wp_counts_def getCount_def getIdleCount_def sint_small)
  with assms(3) show ?thesis
    unfolding live_split [of "routine (wp mq)"] by (auto simp: QueryMsgQInfo_Handle_def Let_def)
qed

theorem msgq_info_counts_witness:
  "\<exists>mq :: nat msgQ_log. count_if working (routine (wp mq)) = 1 \<and>
     BusyWorkerNum (QueryMsgQInfo_Handle 4 mq) = 0 \<and> IdleWorkerNum (QueryMsgQInfo_Handle 4 mq) = 2"
proof -
  let ?q0 = "newMsgQ 2 8 1 1 :: nat msgQ_log"
  let ?p0 = "addWorker (addWorker newWorkerPool)"
  let ?p1 = "worker_start 0 ?p0"
  let ?p2 = "wp_working (?p1\<lparr>routine := (routine ?p1)[0 := Working True]\<rparr>)"
  have w: "wp ?q0 = ?p0" by (simp add: newMsgQ_def Let_def numeral_2_eq_2)
  have s1: "wp_step ?p0 ?p1" by (rule wp_step.start) (simp_all add: newWorkerPool_def)
  have s2: "wp_step ?p1 ?p2"
    by (rule wp_step.work [where d = True]) (simp_all add: newWorkerPool_def worker_start_def)
  from mq_step.pool [of ?q0 ?p1] s1 w have "mq_step ?q0 (?q0\<lparr>wp := ?p1\<rparr>)" by simp
  then have r1: "mq_reachable 8 (?q0\<lparr>wp := ?p1\<rparr>)" by (rule mq_reachable.step [OF mq_reachable.new])
  from mq_step.pool [of "?q0\<lparr>wp := ?p1\<rparr>" ?p2] s2
  have "mq_step (?q0\<lparr>wp := ?p1\<rparr>) (?q0\<lparr>wp := ?p2\<rparr>)" by simp
  with r1 have r: "mq_reachable 8 (?q0\<lparr>wp := ?p2\<rparr>)" by (rule mq_reachable.step)
  have c: "routine ?p2 = [Working True, Starting]"
    by (simp add: newWorkerPool_def worker_start_def wp_working_def)
  show ?thesis
    using msgq_info_counts [OF r, of 4] c by (intro exI [of _ "?q0\<lparr>wp := ?p2\<rparr>"]) simp
qed

end
