(* ===== verification/Client.thy ===== *)
theory Client
  imports LANRegistry Transport MsgQ "HOL-Library.Signed_Division"
begin

text \<open>
  The client (\<open>client.go\<close>, \<open>client_options.go\<close>, \<open>options.go\<close>): \<open>Discover\<close> looks for the wanted service in the
  process, in the operating system, in the LAN and in the WAN, connects to what it finds, and waits
  between rounds. What one round sees of the environment is a record \<open>world\<close>: the process table, the
  proc file and the socket directory, the answers of the registries, which addresses accept a
  connection, how providers answer the load query, and the two orders that Go does not fix (the
  shuffle and the order in which the probing goroutines finish). The discovery goroutine runs over
  a list of such worlds, one for each round. Scores are float32 values; the arithmetic that makes
  them is the argument \<open>fdiv\<close>, and they are compared in a linear order, so without NaN.
\<close>

unbundle bit_operations_syntax

section \<open>Configuration\<close>

record conf =
  registryAddr :: string
  providerID :: string
  scope :: Scope
  qsize :: int

definition newConf :: conf where
  "newConf = \<lparr>registryAddr = [], providerID = [], scope = ScopeAll, qsize = 128\<rparr>"

datatype Option = WithScope Scope | WithProviderID string | WithRegistryAddr string | WithQsize int

fun apply_option :: "Option \<Rightarrow> 'a conf_scheme \<Rightarrow> 'a conf_scheme" where
  "apply_option (WithScope s) c = c\<lparr>scope := s\<rparr>"
| "apply_option (WithProviderID i) c = c\<lparr>providerID := i\<rparr>"
| "apply_option (WithRegistryAddr a) c = c\<lparr>registryAddr := a\<rparr>"
| "apply_option (WithQsize n) c = c\<lparr>qsize := n\<rparr>"

datatype ProviderSelectionMethod = Capacity | Latency | OtherMethod nat

record Client = conf +
  providerSelectionMethods :: "ProviderSelectionMethod list"
  discoverTimeout :: int
  checkIntervalMS :: int
  deepCopy :: bool

definition NewClient :: "Option list \<Rightarrow> Client" where
  "NewClient options =
     fold apply_option options
       \<lparr>registryAddr = registryAddr newConf, providerID = providerID newConf, scope = scope newConf, qsize = qsize newConf,
        providerSelectionMethods = [], discoverTimeout = - 1, checkIntervalMS = 1000, deepCopy = False\<rparr>"

definition SetProviderSelectionMethod :: "ProviderSelectionMethod \<Rightarrow> Client \<Rightarrow> Client" where
  "SetProviderSelectionMethod method c =
     (case method of
        OtherMethod n \<Rightarrow> c
      | _ \<Rightarrow> c\<lparr>providerSelectionMethods := providerSelectionMethods c @ [method]\<rparr>)"

definition SetDiscoverTimeout :: "int \<Rightarrow> Client \<Rightarrow> Client" where
  "SetDiscoverTimeout timeout c = c\<lparr>discoverTimeout := timeout\<rparr>"

definition SetCheckInterval :: "int \<Rightarrow> Client \<Rightarrow> Client" where
  "SetCheckInterval interval c = (let interval = (if interval < 10 then 10 else interval) in c\<lparr>checkIntervalMS := interval\<rparr>)"

definition SetDeepCopy :: "Client \<Rightarrow> Client" where
  "SetDeepCopy c = c\<lparr>deepCopy := True\<rparr>"

section \<open>Choosing among providers\<close>

record 'f providerScoreInfo =
  ps_addr :: string
  ps_mqi :: MsgQInfo
  ps_score :: 'f
  ps_latency :: int

text \<open>\<open>fdiv x y\<close> is \<open>float32(x)/float32(y)\<close> and \<open>fneg\<close> is \<open>0 - x\<close>.\<close>

definition provider_score :: "(int \<Rightarrow> int \<Rightarrow> 'f) \<Rightarrow> ('f \<Rightarrow> 'f) \<Rightarrow> MsgQInfo \<Rightarrow> 'f" where
  "provider_score fdiv fneg mqi =
     (if QueueWeight mqi > 0 then
        fdiv (NumCPU mqi) (QueueLen mqi sdiv QueueWeight mqi + ResidentWorkers mqi + BusyWorkerNum mqi)
      else
        let workableCPU = (if ResidentWorkers mqi > NumCPU mqi then NumCPU mqi else ResidentWorkers mqi)
        in fneg (fdiv (IdleWorkerNum mqi + workableCPU) (IdleWorkerNum mqi * workableCPU)))"

text \<open>\<open>sort.SliceStable\<close> with a comparison.\<close>

fun stable_insert :: "('a \<Rightarrow> 'a \<Rightarrow> bool) \<Rightarrow> 'a \<Rightarrow> 'a list \<Rightarrow> 'a list" where
  "stable_insert lt x [] = [x]"
| "stable_insert lt x (y # ys) = (if lt y x then y # stable_insert lt x ys else x # y # ys)"

definition SliceStable :: "('a \<Rightarrow> 'a \<Rightarrow> bool) \<Rightarrow> 'a list \<Rightarrow> 'a list" where
  "SliceStable lt xs = foldr (stable_insert lt) xs []"

definition method_less :: "ProviderSelectionMethod \<Rightarrow> 'f::linorder providerScoreInfo \<Rightarrow> 'f providerScoreInfo \<Rightarrow> bool" where
  "method_less method p q =
     (case method of
        Capacity \<Rightarrow> ps_score p > ps_score q
      | Latency \<Rightarrow> ps_latency p < ps_latency q
      | OtherMethod n \<Rightarrow> False)"

text \<open>The loop over the methods: the first sorts all providers, every further one the first half in place.\<close>

fun select_providers ::
  "ProviderSelectionMethod list \<Rightarrow> bool \<Rightarrow> 'f::linorder providerScoreInfo list \<Rightarrow> 'f providerScoreInfo list" where
  "select_providers [] done_sort ps = ps"
| "select_providers (OtherMethod n # ms) done_sort ps = select_providers ms done_sort ps"
| "select_providers (m # ms) done_sort ps =
     (let n = (if done_sort then length ps div 2 else length ps)
      in select_providers ms True (SliceStable (method_less m) (take n ps) @ drop n ps))"

section \<open>Discovery\<close>

record 'f world =
  w_table :: "service chanTable"
  w_proc :: "string option"
  w_files :: os_files
  w_selfID :: "string option"
  w_dial :: "string \<Rightarrow> bool"
  w_lan :: "ServiceInfo list"
  w_registry :: "string option"
  w_wan :: "string \<Rightarrow> ServiceInfo list"
  w_shuffle :: "string list \<Rightarrow> string list"
  w_arrive :: "string list \<Rightarrow> string list"
  w_probe :: "string \<Rightarrow> (MsgQInfo \<times> int) option"

datatype connection = ChanConn service | StreamConn string

record discovery =
  d_client :: Client
  serviceList :: "string list"
  connections :: "connection list"

definition addToserviceList :: "string \<Rightarrow> string \<Rightarrow> string \<Rightarrow> discovery \<Rightarrow> bool \<times> discovery" where
  "addToserviceList p s pid d =
     (let key = p @ s @ pid in
      if key \<in> set (serviceList d) then (False, d) else (True, d\<lparr>serviceList := serviceList d @ [key]\<rparr>))"

definition add_conn :: "connection \<Rightarrow> discovery \<Rightarrow> discovery" where
  "add_conn c d = d\<lparr>connections := connections d @ [c]\<rparr>"

text \<open>
  A loop over candidates that returns from the whole search as soon as enough are found: whether it
  returned, how many are found. \<open>attempt\<close> says whether a candidate was connected.
\<close>

fun find_each ::
  "('x \<Rightarrow> discovery \<Rightarrow> (bool \<times> discovery) outcome) \<Rightarrow> int \<Rightarrow> int \<Rightarrow> 'x list \<Rightarrow> discovery \<Rightarrow> (bool \<times> int \<times> discovery) outcome" where
  "find_each attempt expect found [] d = Ret (False, found, d)"
| "find_each attempt expect found (x # xs) d =
     bind_outcome (attempt x d) (\<lambda>(ok, d').
       if ok then
         (if found + 1 = expect then Ret (True, found + 1, d') else find_each attempt expect (found + 1) xs d')
       else find_each attempt expect found xs d')"

definition try_chan :: "service \<Rightarrow> discovery \<Rightarrow> (bool \<times> discovery) outcome" where
  "try_chan svc d =
     (let (new, d) = addToserviceList (publisherName svc) (serviceName svc) ''self'' d
      in Ret (if new then (True, add_conn (ChanConn svc) d) else (False, d)))"

definition try_dial :: "'f world \<Rightarrow> string \<Rightarrow> discovery \<Rightarrow> bool \<times> discovery" where
  "try_dial w a d = (if w_dial w a then (True, add_conn (StreamConn a) d) else (False, d))"

definition try_anon :: "'f world \<Rightarrow> string \<Rightarrow> discovery \<Rightarrow> (bool \<times> discovery) outcome" where
  "try_anon w a d =
     bind_outcome (fromUDSAddr a) (\<lambda>(pName, sName).
       let (new, d) = addToserviceList pName sName ''self'' d
       in Ret (if new then try_dial w a d else (False, d)))"

definition try_dir :: "'f world \<Rightarrow> ServiceInfo \<Rightarrow> discovery \<Rightarrow> (bool \<times> discovery) outcome" where
  "try_dir w si d =
     (let (new, d) = addToserviceList (Publisher si) (Service si) (ProviderID si) d
      in Ret (if new then try_dial w (Addr si) d else (False, d)))"

definition find_process ::
  "'f world \<Rightarrow> bool \<Rightarrow> string \<Rightarrow> string \<Rightarrow> int \<Rightarrow> discovery \<Rightarrow> (bool \<times> int \<times> discovery) outcome" where
  "find_process w searchSelf publisher service expect d =
     (if searchSelf \<and> in_scope (scope (d_client d)) ScopeProcess
      then find_each try_chan expect 0 (map ct (lookupServiceChan () publisher service (w_table w))) d
      else Ret (False, 0, d))"

definition find_anon ::
  "'f world \<Rightarrow> bool \<Rightarrow> string \<Rightarrow> string \<Rightarrow> int \<Rightarrow> int \<Rightarrow> discovery \<Rightarrow> (bool \<times> int \<times> discovery) outcome" where
  "find_anon w searchSelf publisher service expect found d =
     (if searchSelf then find_each (try_anon w) expect found (lookupServiceUDSAnon (w_proc w) publisher service) d
      else Ret (False, found, d))"

definition find_dir ::
  "'f world \<Rightarrow> string \<Rightarrow> string \<Rightarrow> string list \<Rightarrow> int \<Rightarrow> int \<Rightarrow> discovery \<Rightarrow> (bool \<times> int \<times> discovery) outcome" where
  "find_dir w publisher service providerIDs expect found d =
     bind_outcome (lookupServiceUDSDir (w_files w) (w_selfID w) publisher service providerIDs)
       (\<lambda>svcInfos. find_each (try_dir w) expect found svcInfos d)"

definition findWithinOS ::
  "'f world \<Rightarrow> bool \<Rightarrow> string \<Rightarrow> string \<Rightarrow> string list \<Rightarrow> int \<Rightarrow> discovery \<Rightarrow> (int \<times> discovery) outcome" where
  "findWithinOS w searchSelf publisher service providerIDs expect d =
     bind_outcome (find_process w searchSelf publisher service expect d) (\<lambda>(ret, found, d).
       if ret \<or> \<not> in_scope (scope (d_client d)) ScopeOS then Ret (found, d)
       else bind_outcome (find_anon w searchSelf publisher service expect found d) (\<lambda>(ret, found, d).
         if ret then Ret (found, d)
         else bind_outcome (find_dir w publisher service providerIDs expect found d)
           (\<lambda>(ret, found, d). Ret (found, d))))"

fun connect :: "'f world \<Rightarrow> int \<Rightarrow> int \<Rightarrow> string list \<Rightarrow> discovery \<Rightarrow> int \<times> discovery" where
  "connect w expect found [] d = (found, d)"
| "connect w expect found (a # addrs) d =
     (if found = expect then (found, d)
      else case try_dial w a d of
             (True, d') \<Rightarrow> connect w expect (found + 1) addrs d'
           | (False, d') \<Rightarrow> connect w expect found addrs d')"

text \<open>The providers that answered the probe, in the order in which they did.\<close>

definition probe_all ::
  "(int \<Rightarrow> int \<Rightarrow> 'f) \<Rightarrow> ('f \<Rightarrow> 'f) \<Rightarrow> 'f world \<Rightarrow> string list \<Rightarrow> 'f providerScoreInfo list" where
  "probe_all fdiv fneg w addrs =
     List.map_filter (\<lambda>a.
       if \<not> w_dial w a then None
       else case w_probe w a of
         None \<Rightarrow> None
       | Some (mqi, latency) \<Rightarrow>
           Some \<lparr>ps_addr = a, ps_mqi = mqi, ps_score = provider_score fdiv fneg mqi, ps_latency = latency\<rparr>)
       (w_arrive w addrs)"

definition selectAndConnect ::
  "(int \<Rightarrow> int \<Rightarrow> 'f::linorder) \<Rightarrow> ('f \<Rightarrow> 'f) \<Rightarrow> 'f world \<Rightarrow> int \<Rightarrow> int \<Rightarrow> string list \<Rightarrow> discovery \<Rightarrow> int \<times> discovery" where
  "selectAndConnect fdiv fneg w expect found addrs d =
     (let addrs = w_shuffle w addrs;
          methods = providerSelectionMethods (d_client d);
          addrs = (if length methods \<noteq> 0
                   then map ps_addr (select_providers methods False (probe_all fdiv fneg w addrs)) else addrs)
      in connect w expect found addrs d)"

fun getAddrs :: "ServiceInfo list \<Rightarrow> discovery \<Rightarrow> string list \<times> discovery" where
  "getAddrs [] d = ([], d)"
| "getAddrs (si # sis) d =
     (let pID = (if ProviderID si = providerID (d_client d) then ''self'' else ProviderID si);
          (new, d) = addToserviceList (Publisher si) (Service si) pID d;
          (addrs, d) = getAddrs sis d
      in (if new then Addr si # addrs else addrs, d))"

definition lookupServiceWAN :: "ServiceInfo list \<Rightarrow> string list \<Rightarrow> ServiceInfo list" where
  "lookupServiceWAN svcInfoAvailable providerIDs =
     filter (\<lambda>si. matchProvider providerIDs (ProviderID si)) svcInfoAvailable"

definition find_lan ::
  "(int \<Rightarrow> int \<Rightarrow> 'f::linorder) \<Rightarrow> ('f \<Rightarrow> 'f) \<Rightarrow> 'f world \<Rightarrow> string list \<Rightarrow> int \<Rightarrow> int \<Rightarrow> discovery \<Rightarrow> int \<times> discovery" where
  "find_lan fdiv fneg w providerIDs expect found d =
     (if found \<noteq> expect \<and> in_scope (scope (d_client d)) ScopeLAN then
        (let (addrs, d) = getAddrs (lookupServiceLAN (w_lan w) providerIDs) d
         in selectAndConnect fdiv fneg w expect found addrs d)
      else (found, d))"

definition set_registryAddr :: "'f world \<Rightarrow> discovery \<Rightarrow> discovery" where
  "set_registryAddr w d =
     (if length (registryAddr (d_client d)) = 0
      then d\<lparr>d_client := (d_client d)\<lparr>registryAddr := (case w_registry w of Some a \<Rightarrow> a | None \<Rightarrow> ''NA'')\<rparr>\<rparr>
      else d)"

definition find_wan ::
  "(int \<Rightarrow> int \<Rightarrow> 'f::linorder) \<Rightarrow> ('f \<Rightarrow> 'f) \<Rightarrow> 'f world \<Rightarrow> string list \<Rightarrow> int \<Rightarrow> int \<Rightarrow> discovery \<Rightarrow> int \<times> discovery" where
  "find_wan fdiv fneg w providerIDs expect found d =
     (if found \<noteq> expect \<and> in_scope (scope (d_client d)) ScopeWAN then
        (let d = set_registryAddr w d in
         if registryAddr (d_client d) \<noteq> ''NA'' then
           (let (addrs, d) = getAddrs (lookupServiceWAN (w_wan w (registryAddr (d_client d))) providerIDs) d
            in selectAndConnect fdiv fneg w expect found addrs d)
         else (found, d))
      else (found, d))"

definition findNetwork ::
  "(int \<Rightarrow> int \<Rightarrow> 'f::linorder) \<Rightarrow> ('f \<Rightarrow> 'f) \<Rightarrow> 'f world \<Rightarrow> string list \<Rightarrow> int \<Rightarrow> discovery \<Rightarrow> int \<times> discovery" where
  "findNetwork fdiv fneg w providerIDs expect d =
     (let (found, d) = find_lan fdiv fneg w providerIDs expect 0 d
      in find_wan fdiv fneg w providerIDs expect found d)"

text \<open>The number of connections wanted, -1 for all.\<close>

definition discover_expect :: "string \<Rightarrow> string \<Rightarrow> string list \<Rightarrow> int" where
  "discover_expect publisher service providerIDs =
     (if str_contains (publisher @ service) ''*'' \<or> str_contains (str_join providerIDs '' '') ''*'' then - 1
      else if length providerIDs \<noteq> 0 then int (length providerIDs) else 1)"

text \<open>The part of \<open>Discover\<close> before its goroutine; \<open>selfID\<close> is what \<open>GetSelfProviderID\<close> returns.\<close>

definition search_self :: "string option \<Rightarrow> string list \<Rightarrow> Client \<Rightarrow> bool \<times> Client" where
  "search_self selfID providerIDs c =
     (if length providerIDs \<noteq> 0 then
        (let c = (if length (providerID c) = 0 \<and> scope c AND ScopeNetwork \<noteq> 0
                  then c\<lparr>providerID := (case selfID of Some i \<Rightarrow> i | None \<Rightarrow> ''NA'')\<rparr> else c)
         in (\<not> (length (providerID c) \<noteq> 0 \<and> \<not> matchProvider providerIDs (providerID c)), c))
      else (True, c))"

text \<open>
  The goroutine, one world for each round it makes; \<open>Ret None\<close> is that it has not ended within these
  rounds.
\<close>

fun discover_loop ::
  "(int \<Rightarrow> int \<Rightarrow> 'f::linorder) \<Rightarrow> ('f \<Rightarrow> 'f) \<Rightarrow> bool \<Rightarrow> string \<Rightarrow> string \<Rightarrow> string list \<Rightarrow> int \<Rightarrow> int \<Rightarrow> int \<Rightarrow>
   'f world list \<Rightarrow> discovery \<Rightarrow> discovery option outcome" where
  "discover_loop fdiv fneg self publisher service pids expect found timeout [] d =
     Ret (if found = 0 then None else Some d)"
| "discover_loop fdiv fneg self publisher service pids expect found timeout (w # ws) d =
     (if found \<noteq> 0 then Ret (Some d)
      else bind_outcome (findWithinOS w self publisher service pids (expect - found) d) (\<lambda>(n, d).
        let found = found + n in
        if found = expect then Ret (Some d)
        else
          let (n, d) = findNetwork fdiv fneg w pids (expect - found) d; found = found + n in
          if found = expect then Ret (Some d)
          else if timeout = 0 then Ret (Some d)
          else discover_loop fdiv fneg self publisher service pids expect found (timeout - 1) ws d))"

definition discover_timeout :: "Client \<Rightarrow> int" where
  "discover_timeout c = discoverTimeout c * 1000 sdiv checkIntervalMS c"

definition Discover ::
  "(int \<Rightarrow> int \<Rightarrow> 'f::linorder) \<Rightarrow> ('f \<Rightarrow> 'f) \<Rightarrow> string option \<Rightarrow> string \<Rightarrow> string \<Rightarrow> string list \<Rightarrow>
   'f world list \<Rightarrow> Client \<Rightarrow> discovery option outcome" where
  "Discover fdiv fneg selfID publisher service providerIDs worlds c =
     (let (searchSelf, c) = search_self selfID providerIDs c
      in discover_loop fdiv fneg searchSelf publisher service providerIDs
           (discover_expect publisher service providerIDs) 0 (discover_timeout c) worlds
           \<lparr>d_client = c, serviceList = [], connections = []\<rparr>)"

section \<open>Selection\<close>

lemma stable_insert_mset: "mset (stable_insert lt x xs) = add_mset x (mset xs)"
  by (induction xs) auto

lemma SliceStable_mset: "mset (SliceStable lt xs) = mset xs"
  by (induction xs) (auto simp: SliceStable_def stable_insert_mset)

lemma stable_insert_set: "set (stable_insert lt x xs) = insert x (set xs)"
  by (metis set_mset_mset stable_insert_mset set_mset_add_mset_insert)

text \<open>A comparison whose negation is transitive and that is asymmetric, as \<open>sort\<close> asks for.\<close>

definition weak_order :: "('a \<Rightarrow> 'a \<Rightarrow> bool) \<Rightarrow> bool" where
  "weak_order lt \<longleftrightarrow> (\<forall>x y. lt x y \<longrightarrow> \<not> lt y x) \<and> (\<forall>x y z. \<not> lt x y \<longrightarrow> \<not> lt y z \<longrightarrow> \<not> lt x z)"

abbreviation sorted_by :: "('a \<Rightarrow> 'a \<Rightarrow> bool) \<Rightarrow> 'a list \<Rightarrow> bool" where
  "sorted_by lt \<equiv> sorted_wrt (\<lambda>x y. \<not> lt y x)"

lemma stable_insert_sorted: "weak_order lt \<Longrightarrow> sorted_by lt xs \<Longrightarrow> sorted_by lt (stable_insert lt x xs)"
proof (induction xs)
  case (Cons y ys)
  have asym: "lt y x \<Longrightarrow> \<not> lt x y" and trans: "\<And>z. \<not> lt y x \<Longrightarrow> \<not> lt z y \<Longrightarrow> \<not> lt z x"
    using Cons.prems(1) unfolding weak_order_def by blast+
  show ?case
  proof (cases "lt y x")
    case True
    with Cons asym show ?thesis by (simp add: stable_insert_set)
  next
    case False
    with Cons.prems trans show ?thesis by auto
  qed
qed simp

lemma SliceStable_sorted: "weak_order lt \<Longrightarrow> sorted_by lt (SliceStable lt xs)"
  by (induction xs) (auto simp: SliceStable_def stable_insert_sorted)

text \<open>Stability: elements that do not compare keep their order.\<close>

lemma stable_insert_filter:
  assumes "weak_order lt" and "\<not> lt x y \<and> \<not> lt y x"
  shows "filter (\<lambda>z. \<not> lt z y \<and> \<not> lt y z) (stable_insert lt x xs) = x # filter (\<lambda>z. \<not> lt z y \<and> \<not> lt y z) xs"
proof (induction xs)
  case (Cons z zs)
  have "\<not> (\<not> lt z y \<and> \<not> lt y z)" if "lt z x"
    using assms that unfolding weak_order_def by blast
  with Cons show ?case using assms(2) by auto
qed (use assms in auto)

lemma stable_insert_filter_other:
  "lt x y \<or> lt y x \<Longrightarrow> filter (\<lambda>z. \<not> lt z y \<and> \<not> lt y z) (stable_insert lt x xs) = filter (\<lambda>z. \<not> lt z y \<and> \<not> lt y z) xs"
  by (induction xs) auto

lemma SliceStable_stable:
  "weak_order lt \<Longrightarrow> filter (\<lambda>z. \<not> lt z y \<and> \<not> lt y z) (SliceStable lt xs) = filter (\<lambda>z. \<not> lt z y \<and> \<not> lt y z) xs"
proof (induction xs)
  case (Cons x xs)
  then show ?case
    by (cases "lt x y \<or> lt y x")
       (auto simp: SliceStable_def stable_insert_filter stable_insert_filter_other)
qed (simp add: SliceStable_def)

lemma method_less_order: "weak_order (method_less m)"
  by (cases m) (auto simp: weak_order_def method_less_def)

definition valid_method :: "ProviderSelectionMethod \<Rightarrow> bool" where
  "valid_method m \<longleftrightarrow> m \<in> {Capacity, Latency}"

lemma select_Cons:
  "valid_method m \<Longrightarrow> select_providers (m # ms) b ps =
     (let n = (if b then length ps div 2 else length ps)
      in select_providers ms True (SliceStable (method_less m) (take n ps) @ drop n ps))"
  by (auto simp: valid_method_def)

lemma length_SliceStable [simp]: "length (SliceStable lt xs) = length xs"
  using SliceStable_mset [of lt xs] by (metis size_mset)

lemma set_SliceStable [simp]: "set (SliceStable lt xs) = set xs"
  using SliceStable_mset [of lt xs] by (metis set_mset_mset)

lemma select_half:
  assumes "list_all valid_method ms" and "sorted_by (method_less m) (take (length ps div 2) ps)"
  shows "\<exists>hs. select_providers ms True ps = hs @ drop (length ps div 2) ps \<and>
    mset hs = mset (take (length ps div 2) ps) \<and> length hs = length ps div 2 \<and> sorted_by (method_less (last (m # ms))) hs"
  using assms
proof (induction ms arbitrary: m ps)
  case Nil
  then show ?case by (intro exI [of _ "take (length ps div 2) ps"]) auto
next
  case (Cons k ms)
  let ?h = "length ps div 2"
  let ?ps = "SliceStable (method_less k) (take ?h ps) @ drop ?h ps"
  have len: "length ?ps = length ps" by simp
  have take': "take ?h ?ps = SliceStable (method_less k) (take ?h ps)" and drop': "drop ?h ?ps = drop ?h ps"
    using div_le_dividend [of "length ps" 2] by simp_all
  have "\<exists>hs. select_providers ms True ?ps = hs @ drop (length ?ps div 2) ?ps \<and>
      mset hs = mset (take (length ?ps div 2) ?ps) \<and> length hs = length ?ps div 2 \<and> sorted_by (method_less (last (k # ms))) hs"
    proof (rule Cons.IH)
    show "list_all valid_method ms" using Cons.prems(1) by simp
    show "sorted_by (method_less k) (take (length ?ps div 2) ?ps)"
      unfolding len take' by (rule SliceStable_sorted [OF method_less_order])
  qed
  then show ?case
    using Cons.prems(1) unfolding len take' drop' by (simp add: select_Cons Let_def SliceStable_mset)
qed


section \<open>How many connections are made\<close>

definition found_ok :: "int \<Rightarrow> int \<Rightarrow> discovery \<Rightarrow> int \<Rightarrow> discovery \<Rightarrow> bool" where
  "found_ok expect found d found' d' \<longleftrightarrow>
     found \<le> found' \<and> (found \<le> expect \<longrightarrow> found' \<le> expect) \<and>
     int (length (connections d')) = int (length (connections d)) + (found' - found) \<and>
     length (connections d') - length (connections d) \<le> length (serviceList d') - length (serviceList d) \<and>
     length (serviceList d) \<le> length (serviceList d') \<and>
     (distinct (serviceList d) \<longrightarrow> distinct (serviceList d'))"

lemma found_ok_refl: "found_ok expect found d found d"
  by (simp add: found_ok_def)

lemma found_ok_trans:
  "found_ok e f d f1 d1 \<Longrightarrow> found_ok e f1 d1 f2 d2 \<Longrightarrow> found_ok e f d f2 d2"
  by (auto simp: found_ok_def)

text \<open>What an attempt may do: connect and count, or neither; either way the key is remembered first.\<close>

definition attempt_ok :: "bool \<Rightarrow> discovery \<Rightarrow> discovery \<Rightarrow> bool" where
  "attempt_ok ok d d' \<longleftrightarrow>
     length (connections d') = length (connections d) + of_bool ok \<and>
     length (serviceList d) + of_bool ok \<le> length (serviceList d') \<and>
     (distinct (serviceList d) \<longrightarrow> distinct (serviceList d'))"

lemma attempt_found:
  "attempt_ok ok d d' \<Longrightarrow> ok \<longrightarrow> found \<noteq> expect \<Longrightarrow> found_ok expect found d (found + of_bool ok) d'"
  by (cases ok) (auto simp: attempt_ok_def found_ok_def)

lemma try_chan_ok: "try_chan svc d = Ret (ok, d') \<Longrightarrow> attempt_ok ok d d'"
  by (auto simp: try_chan_def addToserviceList_def add_conn_def Let_def attempt_ok_def split: if_splits)

lemma try_anon_ok: "try_anon w a d = Ret (ok, d') \<Longrightarrow> attempt_ok ok d d'"
  by (auto simp: try_anon_def try_dial_def addToserviceList_def add_conn_def Let_def attempt_ok_def
      bind_outcome_Ret_iff split: if_splits)

lemma try_dir_ok: "try_dir w si d = Ret (ok, d') \<Longrightarrow> attempt_ok ok d d'"
  by (auto simp: try_dir_def try_dial_def addToserviceList_def add_conn_def Let_def attempt_ok_def split: if_splits)

lemma find_each_ok:
  assumes "\<And>x d ok d'. attempt x d = Ret (ok, d') \<Longrightarrow> attempt_ok ok d d'"
  shows "find_each attempt expect found xs d = Ret (ret, found', d') \<Longrightarrow> found \<noteq> expect \<Longrightarrow>
    found_ok expect found d found' d' \<and> (\<not> ret \<longrightarrow> found' \<noteq> expect)"
proof (induction xs arbitrary: found d)
  case (Cons x xs)
  from Cons.prems(1) obtain ok d1 where a: "attempt x d = Ret (ok, d1)"
    and rest: "(if ok then if found + 1 = expect then Ret (True, found + 1, d1) else find_each attempt expect (found + 1) xs d1
       else find_each attempt expect found xs d1) = Ret (ret, found', d')"
    by (auto simp: bind_outcome_Ret_iff)
  have step: "found_ok expect found d (found + of_bool ok) d1"
    using attempt_found [OF assms [OF a]] Cons.prems(2) by blast
  show ?case
  proof (cases "ok \<and> found + 1 = expect")
    case True
    then show ?thesis using rest step by auto
  next
    case False
    have "found_ok expect (found + of_bool ok) d1 found' d' \<and> (\<not> ret \<longrightarrow> found' \<noteq> expect)"
      using rest False Cons.prems(2) by (intro Cons.IH) (auto split: if_splits)
    then show ?thesis using found_ok_trans [OF step] by blast
  qed
qed (simp add: found_ok_refl)

lemma found_ok_client: "found_ok e f (d\<lparr>d_client := c\<rparr>) f' d' \<longleftrightarrow> found_ok e f d f' d'"
  by (simp add: found_ok_def)

lemma connect_ok:
  "connect w expect found as d = (found', d') \<Longrightarrow>
   found \<le> found' \<and> (found \<le> expect \<longrightarrow> found' \<le> expect) \<and> found' - found \<le> int (length as) \<and>
   int (length (connections d')) = int (length (connections d)) + (found' - found) \<and>
   serviceList d' = serviceList d \<and> d_client d' = d_client d"
proof (induction as arbitrary: found d)
  case (Cons a as)
  show ?case
  proof (cases "found = expect")
    case True
    then show ?thesis using Cons.prems by auto
  next
    case False
    then show ?thesis
      using Cons.prems Cons.IH [of "found + 1" "add_conn (StreamConn a) d"] Cons.IH [of found d]
      by (cases "w_dial w a") (auto simp: try_dial_def add_conn_def)
  qed
qed simp

lemma getAddrs_ok:
  "getAddrs sis d = (addrs, d') \<Longrightarrow>
   length (serviceList d') = length (serviceList d) + length addrs \<and>
   (distinct (serviceList d) \<longrightarrow> distinct (serviceList d')) \<and> connections d' = connections d \<and> d_client d' = d_client d"
proof (induction sis arbitrary: d addrs d')
  case (Cons si sis)
  let ?pid = "if ProviderID si = providerID (d_client d) then ''self'' else ProviderID si"
  obtain new d1 where n: "addToserviceList (Publisher si) (Service si) ?pid d = (new, d1)" by force
  obtain as d2 where g: "getAddrs sis d1 = (as, d2)" by force
  have "addrs = (if new then Addr si # as else as)" "d' = d2"
    using Cons.prems n g by (auto simp: Let_def)
  with n Cons.IH [OF g] show ?case
    by (auto simp: addToserviceList_def Let_def split: if_splits)
qed simp

definition world_ok :: "'f world \<Rightarrow> bool" where
  "world_ok w \<longleftrightarrow> (\<forall>xs. mset (w_shuffle w xs) = mset xs \<and> mset (w_arrive w xs) = mset xs)"

lemma slice_mset: "mset (SliceStable lt (take n xs) @ drop n xs) = mset xs"
  by (metis SliceStable_mset append_take_drop_id mset_append)

lemma select_providers_mset: "mset (select_providers ms b ps) = mset ps"
  by (induction ms b ps rule: select_providers.induct) (simp_all only: select_providers.simps Let_def slice_mset)

lemma length_map_filter: "length (List.map_filter f xs) \<le> length xs"
  by (induction xs) (auto simp: map_filter_simps split: option.split)

lemma select_shorter:
  assumes "world_ok w"
  shows "length (map ps_addr (select_providers ms b (probe_all fdiv fneg w (w_shuffle w addrs)))) \<le> length addrs"
proof -
  have "length (select_providers ms b (probe_all fdiv fneg w (w_shuffle w addrs))) = length (probe_all fdiv fneg w (w_shuffle w addrs))"
    using select_providers_mset by (metis size_mset)
  also have "\<dots> \<le> length (w_arrive w (w_shuffle w addrs))"
    unfolding probe_all_def by (rule length_map_filter)
  also have "\<dots> = length addrs" using assms unfolding world_ok_def by (metis size_mset)
  finally show ?thesis by simp
qed

text \<open>Looking up, selecting and connecting in one of the two network scopes.\<close>

lemma network_ok:
  assumes "world_ok w" and "getAddrs sis d = (addrs, d1)" and "selectAndConnect fdiv fneg w expect found addrs d1 = (found', d')"
  shows "found_ok expect found d found' d' \<and> d_client d' = d_client d"
proof -
  define as where "as = (if length (providerSelectionMethods (d_client d1)) \<noteq> 0
      then map ps_addr (select_providers (providerSelectionMethods (d_client d1)) False (probe_all fdiv fneg w (w_shuffle w addrs)))
      else w_shuffle w addrs)"
  have len: "length as \<le> length addrs"
  proof -
    have "length (w_shuffle w addrs) = length addrs" using assms(1) unfolding world_ok_def by (metis size_mset)
    then show ?thesis using select_shorter [OF assms(1), of "providerSelectionMethods (d_client d1)" False fdiv fneg addrs] by (simp add: as_def)
  qed
  have "connect w expect found as d1 = (found', d')"
    using assms(3) by (simp add: selectAndConnect_def Let_def as_def)
  note c = connect_ok [OF this] and g = getAddrs_ok [OF assms(2)]
  show ?thesis unfolding found_ok_def using c g len by auto
qed

lemma find_lan_ok:
  assumes "world_ok w" and "find_lan fdiv fneg w pids expect found d = (n, d')"
  shows "found_ok expect found d n d'"
proof (cases "found \<noteq> expect \<and> in_scope (scope (d_client d)) ScopeLAN")
  case True
  obtain addrs d1 where g: "getAddrs (lookupServiceLAN (w_lan w) pids) d = (addrs, d1)" by force
  show ?thesis using assms(2) True g network_ok [OF assms(1) g, of fdiv fneg expect found n d'] by (simp add: find_lan_def)
next
  case False
  then have "(n, d') = (found, d)" using assms(2) unfolding find_lan_def by (simp only: if_False)
  then show ?thesis by (simp add: found_ok_refl)
qed

lemma find_wan_ok:
  assumes "world_ok w" and "find_wan fdiv fneg w pids expect found d = (n, d')"
  shows "found_ok expect found d n d'"
proof (cases "found \<noteq> expect \<and> in_scope (scope (d_client d)) ScopeWAN")
  case True
  let ?d = "set_registryAddr w d"
  obtain addrs d1 where g: "getAddrs (lookupServiceWAN (w_wan w (registryAddr (d_client ?d))) pids) ?d = (addrs, d1)" by force
  have same: "found_ok expect found d found ?d" by (simp add: set_registryAddr_def found_ok_def)
  show ?thesis
  proof (cases "registryAddr (d_client ?d) = ''NA''")
    case na: True
    then have "(n, d') = (found, ?d)" using assms(2) True by (simp add: find_wan_def Let_def)
    then show ?thesis using same by simp
  next
    case False
    then have "selectAndConnect fdiv fneg w expect found addrs d1 = (n, d')"
      using assms(2) True g by (simp add: find_wan_def Let_def)
    then show ?thesis using network_ok [OF assms(1) g] found_ok_trans [OF same] by blast
  qed
next
  case False
  then have "(n, d') = (found, d)" using assms(2) unfolding find_wan_def by (simp only: if_False)
  then show ?thesis by (simp add: found_ok_refl)
qed

lemma findNetwork_ok:
  assumes "world_ok w" and "findNetwork fdiv fneg w pids expect d = (n, d')"
  shows "found_ok expect 0 d n d'"
proof -
  obtain f1 d1 where lan: "find_lan fdiv fneg w pids expect 0 d = (f1, d1)" by force
  then have "find_wan fdiv fneg w pids expect f1 d1 = (n, d')" using assms(2) by (simp add: findNetwork_def)
  then show ?thesis using find_lan_ok [OF assms(1) lan] find_wan_ok [OF assms(1)] found_ok_trans by blast
qed

lemma find_process_ok:
  "find_process w self p s expect d = Ret (ret, n, d') \<Longrightarrow> expect \<noteq> 0 \<Longrightarrow>
   found_ok expect 0 d n d' \<and> (\<not> ret \<longrightarrow> n \<noteq> expect)"
  using find_each_ok [of try_chan expect 0 _ d ret n d', OF try_chan_ok]
  by (auto simp: find_process_def found_ok_refl split: if_splits)

lemma find_anon_ok:
  "find_anon w self p s expect found d = Ret (ret, n, d') \<Longrightarrow> found \<noteq> expect \<Longrightarrow>
   found_ok expect found d n d' \<and> (\<not> ret \<longrightarrow> n \<noteq> expect)"
  using find_each_ok [of "try_anon w" expect found _ d ret n d', OF try_anon_ok]
  by (auto simp: find_anon_def found_ok_refl split: if_splits)

lemma find_dir_ok:
  "find_dir w p s pids expect found d = Ret (ret, n, d') \<Longrightarrow> found \<noteq> expect \<Longrightarrow> found_ok expect found d n d'"
  using find_each_ok [of "try_dir w" expect found _ d ret n d', OF try_dir_ok]
  by (auto simp: find_dir_def bind_outcome_Ret_iff)

lemma bind_triple:
  "bind_outcome m (\<lambda>(a, b, c). f a b c) = Ret y \<Longrightarrow> \<exists>a b c. m = Ret (a, b, c) \<and> f a b c = Ret y"
  by (cases m) auto

lemma findWithinOS_ok:
  assumes "findWithinOS w self p s pids expect d = Ret (n, d')" and "expect \<noteq> 0"
  shows "found_ok expect 0 d n d'"
proof -
  from bind_triple [OF assms(1) [unfolded findWithinOS_def]] obtain r1 f1 d1
    where one: "find_process w self p s expect d = Ret (r1, f1, d1)"
      and rest: "(if r1 \<or> \<not> in_scope (scope (d_client d1)) ScopeOS then Ret (f1, d1)
       else bind_outcome (find_anon w self p s expect f1 d1) (\<lambda>(ret, found, d).
         if ret then Ret (found, d)
         else bind_outcome (find_dir w p s pids expect found d) (\<lambda>(ret, found, d). Ret (found, d)))) = Ret (n, d')"
    by blast
  note ok1 = find_process_ok [OF one assms(2)]
  show ?thesis
  proof (cases "r1 \<or> \<not> in_scope (scope (d_client d1)) ScopeOS")
    case True
    then show ?thesis using ok1 rest by simp
  next
    case False
    from bind_triple [OF rest [unfolded if_not_P [OF False]]] obtain r2 f2 d2
      where two: "find_anon w self p s expect f1 d1 = Ret (r2, f2, d2)"
        and rest2: "(if r2 then Ret (f2, d2)
         else bind_outcome (find_dir w p s pids expect f2 d2) (\<lambda>(ret, found, d). Ret (found, d))) = Ret (n, d')"
      by blast
    have ok2: "found_ok expect f1 d1 f2 d2 \<and> (\<not> r2 \<longrightarrow> f2 \<noteq> expect)"
      using find_anon_ok [OF two] ok1 False by blast
    have "found_ok expect f2 d2 n d'"
    proof (cases r2)
      case True
      then show ?thesis using rest2 by (simp add: found_ok_refl)
    next
      case r2: False
      then obtain r3 where "find_dir w p s pids expect f2 d2 = Ret (r3, n, d')"
        using rest2 by (auto simp: bind_outcome_Ret_iff)
      then show ?thesis using find_dir_ok ok2 r2 by blast
    qed
    then show ?thesis using found_ok_trans [OF conjunct1 [OF ok1] found_ok_trans [OF conjunct1 [OF ok2]]] by blast
  qed
qed

lemma discover_loop_ok:
  assumes "\<And>w. w \<in> set ws \<Longrightarrow> world_ok w" and "expect \<noteq> 0"
    and "discover_loop fdiv fneg self p s pids expect found timeout ws d = Ret (Some d')"
  shows "\<exists>found'. found_ok expect found d found' d'"
  using assms
proof (induction ws arbitrary: found timeout d)
  case Nil
  then show ?case by (auto intro: found_ok_refl split: if_splits)
next
  case (Cons w ws)
  show ?case
  proof (cases "found = 0")
    case False
    then show ?thesis using Cons.prems(3) by (auto intro: found_ok_refl)
  next
    case True
    with Cons.prems(3) obtain n1 d1 where os: "findWithinOS w self p s pids expect d = Ret (n1, d1)"
      and rest: "(if n1 = expect then Ret (Some d1)
        else let (n, d) = findNetwork fdiv fneg w pids (expect - n1) d1; found = n1 + n in
          if found = expect then Ret (Some d)
          else if timeout = 0 then Ret (Some d)
          else discover_loop fdiv fneg self p s pids expect found (timeout - 1) ws d) = Ret (Some d')"
      by (auto simp: bind_outcome_Ret_iff Let_def)
    note ok1 = findWithinOS_ok [OF os Cons.prems(2)]
    show ?thesis
    proof (cases "n1 = expect")
      case True
      then show ?thesis using rest ok1 \<open>found = 0\<close> by auto
    next
      case False
      obtain n2 d2 where net: "findNetwork fdiv fneg w pids (expect - n1) d1 = (n2, d2)" by force
      have "found_ok (expect - n1) 0 d1 n2 d2" using findNetwork_ok [OF _ net] Cons.prems(1) by simp
      then have "found_ok expect n1 d1 (n1 + n2) d2" by (auto simp: found_ok_def)
      then have ok2: "found_ok expect 0 d (n1 + n2) d2" using found_ok_trans [OF ok1] by blast
      show ?thesis
      proof (cases "n1 + n2 = expect \<or> timeout = 0")
        case True
        then show ?thesis using rest False net ok2 \<open>found = 0\<close> by (auto simp: Let_def split: if_splits)
      next
        case go: False
        have "\<exists>found'. found_ok expect (n1 + n2) d2 found' d'"
          using rest False net go Cons.prems(1,2)
          by (intro Cons.IH [of "n1 + n2" "timeout - 1" d2]) (auto simp: Let_def)
        then show ?thesis using found_ok_trans [OF ok2] \<open>found = 0\<close> by blast
      qed
    qed
  qed
qed


section \<open>Waiting\<close>

text \<open>A round in which no lookup returns anything.\<close>

definition quiet :: "'f world \<Rightarrow> bool" where
  "quiet w \<longleftrightarrow> w_table w = [] \<and> w_proc w = None \<and> readDir (w_files w) = None \<and> w_lan w = [] \<and>
     (\<forall>a. w_wan w a = []) \<and> world_ok w"

lemma quiet_OS: "quiet w \<Longrightarrow> findWithinOS w self p s pids expect d = Ret (0, d)"
  by (auto simp: findWithinOS_def find_process_def find_anon_def find_dir_def quiet_def lookupServiceChan_def
      serviceNamesInProcess_def lookupServiceUDSAnon_def lookupServiceUDSDir_def map_filter_simps Let_def)

lemma selectAndConnect_none:
  assumes "world_ok w"
  shows "selectAndConnect fdiv fneg w expect found [] d = (found, d)"
proof -
  have e: "w_shuffle w [] = []" "w_arrive w [] = []" using assms unfolding world_ok_def by (metis mset_zero_iff)+
  have "select_providers ms b ([] :: 'a providerScoreInfo list) = []" for ms b
    using select_providers_mset [of ms b "[]"] by simp
  then show ?thesis by (simp add: selectAndConnect_def e probe_all_def map_filter_simps Let_def)
qed

lemma quiet_network:
  assumes "quiet w"
  shows "\<exists>d'. findNetwork fdiv fneg w pids expect d = (0, d') \<and> connections d' = connections d"
proof -
  have ok: "world_ok w" and e: "w_lan w = []" "\<And>a. w_wan w a = []" using assms by (simp_all add: quiet_def)
  have "find_lan fdiv fneg w pids expect 0 d = (0, d)"
    by (simp add: find_lan_def e lookupServiceLAN_def selectAndConnect_none [OF ok])
  moreover have "\<exists>d'. find_wan fdiv fneg w pids expect 0 d = (0, d') \<and> connections d' = connections d"
    by (auto simp: find_wan_def e lookupServiceWAN_def selectAndConnect_none [OF ok] set_registryAddr_def Let_def)
  ultimately show ?thesis by (simp add: findNetwork_def)
qed

lemma quiet_loop:
  assumes "\<And>w. w \<in> set ws \<Longrightarrow> quiet w" and "expect \<noteq> 0"
  shows "\<exists>d'. connections d' = connections d \<and> discover_loop fdiv fneg self p s pids expect 0 timeout ws d =
    Ret (if timeout < 0 \<or> int (length ws) \<le> timeout \<or> ws = [] then None else Some d')"
  using assms(1)
proof (induction ws arbitrary: timeout d)
  case Nil
  then show ?case by auto
next
  case (Cons w ws)
  then have q: "quiet w" by simp
  obtain d1 where n: "findNetwork fdiv fneg w pids expect d = (0, d1)" and c: "connections d1 = connections d"
    using quiet_network [OF q] by metis
  have l: "discover_loop fdiv fneg self p s pids expect 0 timeout (w # ws) d =
      (if timeout = 0 then Ret (Some d1) else discover_loop fdiv fneg self p s pids expect 0 (timeout - 1) ws d1)"
    using assms(2) by (simp add: quiet_OS [OF q] n)
  show ?case
  proof (cases "timeout = 0")
    case True
    then show ?thesis using l c by auto
  next
    case False
    obtain d' where "connections d' = connections d1" "discover_loop fdiv fneg self p s pids expect 0 (timeout - 1) ws d1 =
        Ret (if timeout - 1 < 0 \<or> int (length ws) \<le> timeout - 1 \<or> ws = [] then None else Some d')"
      using Cons.IH [of d1 "timeout - 1"] Cons.prems by auto
    with False l c show ?thesis by (intro exI [of _ d']) auto
  qed
qed

lemma discover_timeout_cases:
  assumes "0 < checkIntervalMS c"
  shows "discover_timeout c < 0 \<longleftrightarrow> discoverTimeout c < 0 \<and> checkIntervalMS c \<le> - discoverTimeout c * 1000"
    and "0 \<le> discoverTimeout c \<Longrightarrow> discover_timeout c = discoverTimeout c * 1000 div checkIntervalMS c"
    and "discoverTimeout c < 0 \<Longrightarrow> - discoverTimeout c * 1000 < checkIntervalMS c \<Longrightarrow> discover_timeout c = 0"
proof -
  have s: "discover_timeout c = sgn (discoverTimeout c) * (\<bar>discoverTimeout c\<bar> * 1000 div checkIntervalMS c)"
    using assms by (simp add: discover_timeout_def signed_divide_int_def sgn_mult abs_mult)
  show "0 \<le> discoverTimeout c \<Longrightarrow> discover_timeout c = discoverTimeout c * 1000 div checkIntervalMS c"
    using s by (cases "discoverTimeout c = 0") simp_all
  show "discoverTimeout c < 0 \<Longrightarrow> - discoverTimeout c * 1000 < checkIntervalMS c \<Longrightarrow> discover_timeout c = 0"
    using s by (simp add: div_pos_pos_trivial)
  show "discover_timeout c < 0 \<longleftrightarrow> discoverTimeout c < 0 \<and> checkIntervalMS c \<le> - discoverTimeout c * 1000"
  proof (cases "discoverTimeout c < 0")
    case True
    then have "discover_timeout c < 0 \<longleftrightarrow> 0 < - discoverTimeout c * 1000 div checkIntervalMS c" using s by simp
    also have "\<dots> \<longleftrightarrow> checkIntervalMS c \<le> - discoverTimeout c * 1000"
      using assms pos_imp_zdiv_pos_iff by blast
    finally show ?thesis using True by simp
  next
    case False
    then have "0 \<le> \<bar>discoverTimeout c\<bar> * 1000 div checkIntervalMS c" using assms by (simp add: pos_imp_zdiv_nonneg_iff)
    then show ?thesis using s False by (cases "discoverTimeout c = 0") simp_all
  qed
qed


section \<open>Properties\<close>

text \<open>
  C13 (\<open>Discover\<close>): without wildcards a discovery makes at most one connection, or one for each provider ID given,
  however many rounds it takes and whatever the registries answer; with or without wildcards it
  connects to no more providers than it has met, each of them counted once.
\<close>

theorem discover_at_most_expected:
  assumes "Discover fdiv fneg selfID p s pids ws c = Ret (Some d)" and "\<And>w. w \<in> set ws \<Longrightarrow> world_ok w"
  shows "distinct (serviceList d) \<and> length (connections d) \<le> length (serviceList d) \<and>
    (if CHR ''*'' \<in> set (p @ s) \<or> CHR ''*'' \<in> set (str_join pids '' '') then True
     else length (connections d) \<le> max 1 (length pids))"
proof -
  obtain self c1 where "search_self selfID pids c = (self, c1)" by force
  then have loop: "discover_loop fdiv fneg self p s pids (discover_expect p s pids) 0 (discover_timeout c1) ws
      \<lparr>d_client = c1, serviceList = [], connections = []\<rparr> = Ret (Some d)"
    using assms(1) by (simp add: Discover_def)
  have e0: "discover_expect p s pids \<noteq> 0" by (simp add: discover_expect_def)
  obtain n where n: "found_ok (discover_expect p s pids) 0 \<lparr>d_client = c1, serviceList = [], connections = []\<rparr> n d"
    using discover_loop_ok [OF assms(2) e0 loop] by blast
  have "discover_expect p s pids \<le> int (max 1 (length pids)) \<and> 0 \<le> discover_expect p s pids"
    if "\<not> (CHR ''*'' \<in> set (p @ s) \<or> CHR ''*'' \<in> set (str_join pids '' ''))"
    using that by (auto simp: discover_expect_def)
  with n show ?thesis by (fastforce simp: found_ok_def)
qed

definition demo_world :: "(string, service) gomap \<Rightarrow> int world" where
  "demo_world table = \<lparr>w_table = table, w_proc = None, w_files = \<lparr>readDir = None, stat = \<lambda>a. StatNotExist, glob_files = \<lambda>g. []\<rparr>,
     w_selfID = None, w_dial = \<lambda>a. True, w_lan = [], w_registry = None, w_wan = \<lambda>a. [], w_shuffle = \<lambda>xs. xs,
     w_arrive = \<lambda>xs. xs, w_probe = \<lambda>a. None\<rparr>"

lemma demo_world_quiet: "quiet (demo_world [])" and demo_world_ok: "world_ok (demo_world t)"
  by (simp_all add: quiet_def world_ok_def demo_world_def)

text \<open>
  The process comes first: a client that may search it and asks for one service by its name gets a channel
  to the service of its own process, if that has it, in the first round, whatever the other scopes
  would offer.
\<close>

lemma discover_prefers_process:
  assumes "in_scope (scope c) ScopeProcess" and "CHR ''*'' \<notin> set (p @ s)"
    and "map_of (w_table w) (toPublisherServiceName p s) = Some svc"
  shows "\<exists>d. Discover fdiv fneg selfID p s [] (w # ws) c = Ret (Some d) \<and> connections d = [ChanConn svc]"
proof -
  let ?d = "\<lparr>d_client = c, serviceList = [], connections = []\<rparr>"
  have star: "\<not> str_contains (toPublisherServiceName p s) ''*''" and e: "discover_expect p s [] = 1"
    using assms(2) by (auto simp: toPublisherServiceName_def discover_expect_def)
  have "map ct (lookupServiceChan () p s (w_table w)) = [svc]"
    using star assms(3) by (simp add: lookupServiceChan_def serviceNamesInProcess_def map_filter_simps Let_def)
  then obtain d where "find_process w True p s 1 ?d = Ret (True, 1, d)" and c: "connections d = [ChanConn svc]"
    using assms(1) by (simp add: find_process_def try_chan_def addToserviceList_def add_conn_def Let_def)
  then have "findWithinOS w True p s [] 1 ?d = Ret (1, d)" by (simp add: findWithinOS_def)
  then have "Discover fdiv fneg selfID p s [] (w # ws) c = Ret (Some d)"
    by (simp add: Discover_def search_self_def e)
  with c show ?thesis by blast
qed

lemma discover_prefers_process_demo:
  "\<exists>d. Discover (\<lambda>x y. x) (\<lambda>x. x) None ''pub'' ''echo'' [] [demo_world [(''pub_echo'', demo_svc)]] (NewClient []) = Ret (Some d) \<and>
     connections d = [ChanConn demo_svc]"
  by (rule discover_prefers_process)
     (simp_all add: in_scope_def NewClient_def newConf_def ScopeAll_def ScopeProcess_def ScopeOS_def ScopeLAN_def ScopeWAN_def
       demo_world_def toPublisherServiceName_def)

theorem discover_at_most_expected_witness:
  "\<exists>d. Discover (\<lambda>x y. x) (\<lambda>x. x) None ''pub'' ''echo'' [] [demo_world [(''pub_echo'', demo_svc)]] (NewClient []) = Ret (Some d) \<and>
     distinct (serviceList d) \<and> length (connections d) \<le> 1"
proof -
  let ?t = "[(''pub_echo'', demo_svc)]"
  have sc: "in_scope (scope (NewClient [])) ScopeProcess"
    by (simp add: in_scope_def NewClient_def newConf_def ScopeAll_def ScopeProcess_def ScopeOS_def ScopeLAN_def ScopeWAN_def)
  obtain d where d: "Discover (\<lambda>x y. x) (\<lambda>x. x) None ''pub'' ''echo'' [] [demo_world ?t] (NewClient []) = Ret (Some d)"
    using sc by (simp add: Discover_def search_self_def discover_expect_def findWithinOS_def find_process_def demo_world_def
      lookupServiceChan_def serviceNamesInProcess_def toPublisherServiceName_def map_filter_simps try_chan_def
      addToserviceList_def Let_def)
  from discover_at_most_expected [OF d] have "distinct (serviceList d) \<and> length (connections d) \<le> 1"
    using demo_world_ok by (auto simp: max_def split: if_splits)
  with d show ?thesis by blast
qed




definition demo_ps :: "string \<Rightarrow> int \<Rightarrow> int \<Rightarrow> int providerScoreInfo" where
  "demo_ps a sc l = \<lparr>ps_addr = a, ps_mqi = \<lparr>NumCPU = 1, ResidentWorkers = 1, QueueWeight = 8, QueueLen = 0, QueueSize = 8,
     BusyWorkerNum = 0, IdleWorkerNum = 1\<rparr>, ps_score = sc, ps_latency = l\<rparr>"


text \<open>
  A provider whose first dial fails is never dialled again: its key stays in the list that \<open>Discover\<close> keeps
  for all its rounds, so a client that waits for the provider to become reachable does not find it.
\<close>

lemma known_provider_skipped:
  assumes "Publisher si @ Service si @ (if ProviderID si = providerID (d_client d) then ''self'' else ProviderID si) \<in> set (serviceList d)"
    and "w_lan w = [si]" and "world_ok w" and "scope (d_client d) = ScopeLAN"
  shows "findWithinOS w self p s pids expect d = Ret (0, d) \<and> findNetwork fdiv fneg w pids expect d = (0, d)"
proof -
  have sc: "\<not> in_scope (scope (d_client d)) ScopeProcess" "\<not> in_scope (scope (d_client d)) ScopeOS" "\<not> in_scope (scope (d_client d)) ScopeWAN"
    using assms(4) by (simp_all add: in_scope_def ScopeLAN_def ScopeProcess_def ScopeOS_def ScopeWAN_def)
  have "getAddrs (lookupServiceLAN (w_lan w) pids) d = ([], d)"
    using assms(1,2) by (simp add: lookupServiceLAN_def addToserviceList_def Let_def)
  then have "find_lan fdiv fneg w pids expect 0 d = (0, d)"
    by (simp add: find_lan_def selectAndConnect_none [OF assms(3)])
  then show ?thesis
    using sc by (simp add: findNetwork_def find_wan_def findWithinOS_def find_process_def)
qed

lemma failed_dial_not_retried:
  assumes "Publisher si @ Service si @ (if ProviderID si = providerID (d_client d) then ''self'' else ProviderID si) \<in> set (serviceList d)"
    and "\<And>w. w \<in> set ws \<Longrightarrow> w_lan w = [si] \<and> world_ok w" and "scope (d_client d) = ScopeLAN" and "expect \<noteq> 0"
  shows "discover_loop fdiv fneg self p s pids expect 0 timeout ws d \<in> {Ret None, Ret (Some d)}"
  using assms(2)
proof (induction ws arbitrary: timeout)
  case (Cons w ws)
  have "findWithinOS w self p s pids expect d = Ret (0, d) \<and> findNetwork fdiv fneg w pids expect d = (0, d)"
    using Cons.prems by (intro known_provider_skipped [OF assms(1) _ _ assms(3)]) auto
  then show ?case using assms(4) Cons by (simp add: Let_def)
qed simp

end
