(* ===== verification/StreamIO.thy ===== *)
theory StreamIO
  imports Messages
begin

text \<open>
  Streams as byte streams (\<open>NewStreamIO\<close> in \<open>adaptiveservice.go\<close>): \<open>Read\<close> receives a message of bytes when its
  buffer is empty and hands out as much of it as fits, \<open>Write\<close> sends the bytes as one message, \<open>Close\<close>
  sends EOF. The stream below is what its \<open>Recv\<close> yields message by message; on the way from \<open>Write\<close> to
  \<open>Read\<close> messages arrive once and in order, as the transports guarantee.
\<close>

type_synonym bytes = string

text \<open>A message of the stream: bytes, or an error.\<close>

type_synonym io_msg = "goerror + bytes"

record streamIO =
  sio_incoming :: "io_msg list"
  sio_outgoing :: "io_msg list"
  rbuff :: bytes

definition NewStreamIO :: "io_msg list \<Rightarrow> streamIO" where
  "NewStreamIO incoming = \<lparr>sio_incoming = incoming, sio_outgoing = [], rbuff = []\<rparr>"

text \<open>\<open>Read\<close> into a buffer of length \<open>n\<close>; \<open>None\<close> is waiting for a message.\<close>

definition sio_Read :: "nat \<Rightarrow> streamIO \<Rightarrow> ((goerror + bytes) \<times> streamIO) option" where
  "sio_Read n sio =
     (case (if length (rbuff sio) = 0 then
              (case sio_incoming sio of
                 [] \<Rightarrow> None
               | Inl e # ms \<Rightarrow> Some (Some e, sio\<lparr>sio_incoming := ms\<rparr>)
               | Inr b # ms \<Rightarrow> Some (None, sio\<lparr>sio_incoming := ms, rbuff := b\<rparr>))
            else Some (None, sio)) of
        None \<Rightarrow> None
      | Some (Some e, sio) \<Rightarrow> Some (Inl e, sio)
      | Some (None, sio) \<Rightarrow> Some (Inr (take n (rbuff sio)), sio\<lparr>rbuff := drop n (rbuff sio)\<rparr>))"

definition sio_Write :: "bytes \<Rightarrow> streamIO \<Rightarrow> nat \<times> streamIO" where
  "sio_Write p sio = (length p, sio\<lparr>sio_outgoing := sio_outgoing sio @ [Inr p]\<rparr>)"

definition sio_Close :: "streamIO \<Rightarrow> streamIO" where
  "sio_Close sio = sio\<lparr>sio_outgoing := sio_outgoing sio @ [Inl io_EOF]\<rparr>"

section \<open>Reading to the end\<close>

text \<open>A reader with buffers of the given lengths that stops at the first error, as \<open>io.Copy\<close> does.\<close>

fun read_to_end :: "nat list \<Rightarrow> streamIO \<Rightarrow> (bytes \<times> goerror option) option" where
  "read_to_end [] sio = Some ([], None)"
| "read_to_end (n # ns) sio =
     (case sio_Read n sio of
        None \<Rightarrow> None
      | Some (Inl e, sio') \<Rightarrow> Some ([], Some e)
      | Some (Inr b, sio') \<Rightarrow> map_option (\<lambda>(bs, e). (b @ bs, e)) (read_to_end ns sio'))"

text \<open>How many reads with buffers of at least one byte are enough.\<close>

definition reads_enough :: "streamIO \<Rightarrow> nat" where
  "reads_enough sio = length (rbuff sio) + sum_list (map (\<lambda>m. case m of Inr b \<Rightarrow> Suc (length b) | Inl e \<Rightarrow> 1) (sio_incoming sio))"

lemma read_to_end_bytes:
  assumes "sio_incoming sio = map Inr bs @ [Inl e]" and "list_all (\<lambda>n. 0 < n) ns" and "reads_enough sio \<le> length ns"
  shows "read_to_end ns sio = Some (rbuff sio @ concat bs, Some e)"
  using assms
proof (induction ns arbitrary: sio bs)
  case Nil
  then show ?case by (simp add: reads_enough_def)
next
  case (Cons n ns)
  have n: "0 < n" using Cons.prems(2) by simp
  show ?case
  proof (cases "rbuff sio = []")
    case True
    show ?thesis
    proof (cases bs)
      case Nil
      then show ?thesis using Cons.prems True by (simp add: sio_Read_def)
    next
      case (Cons b bs')
      let ?sio = "sio\<lparr>sio_incoming := map Inr bs' @ [Inl e], rbuff := drop n b\<rparr>"
      have "sio_Read n sio = Some (Inr (take n b), ?sio)"
        using True Cons Cons.prems(1) by (simp add: sio_Read_def)
      moreover have "read_to_end ns ?sio = Some (rbuff ?sio @ concat bs', Some e)"
        using Cons.prems True Cons by (intro Cons.IH) (auto simp: reads_enough_def comp_def)
      ultimately show ?thesis using True Cons by simp
    qed
  next
    case False
    let ?sio = "sio\<lparr>rbuff := drop n (rbuff sio)\<rparr>"
    have "length (drop n (rbuff sio)) < length (rbuff sio)" using False n by (cases "rbuff sio") auto
    then have "read_to_end ns ?sio = Some (rbuff ?sio @ concat bs, Some e)"
      using Cons.prems by (intro Cons.IH) (auto simp: reads_enough_def)
    with False show ?thesis by (simp add: sio_Read_def)
  qed
qed

fun write_all :: "bytes list \<Rightarrow> streamIO \<Rightarrow> streamIO" where
  "write_all [] sio = sio_Close sio"
| "write_all (p # ps) sio = write_all ps (snd (sio_Write p sio))"

lemma write_all_outgoing: "sio_outgoing (write_all ps sio) = sio_outgoing sio @ map Inr ps @ [Inl io_EOF]"
  by (induction ps arbitrary: sio) (simp_all add: sio_Close_def sio_Write_def)



end
