(* ===== verification/Server.thy ===== *)
theory Server
  imports Client StreamIO
begin

text \<open>
  The server (\<open>server.go\<close>, \<open>server_options.go\<close>, \<open>service_options.go\<close>): options, initialisation with the built-in
  services, publishing a service in its scopes, serving and closing. What the operating system and
  the registries hold for the process is the record \<open>netState\<close>: the process table, the listening
  sockets, the registrations. What they answer is the record \<open>env\<close>: which calls fail, which provider ID,
  LAN registry and registry address other processes of the host offer, which port a listener gets.
  A built-in service of the own process is found in the process table first, as \<open>Discover\<close> does. A
  call that returns an error yields it with the state it leaves behind; \<open>Panic\<close> is a panic.
\<close>

unbundle bit_operations_syntax

section \<open>State\<close>

record netState =
  n_table :: "service chanTable"
  n_unix :: "string list"
  n_tcp :: "string list"
  n_udp :: "string list"
  n_lan :: "(string, string) gomap"
  n_wan :: "(string \<times> string, string \<times> bool) gomap"
  shared_registryAddr :: string
  shared_providerID :: string
  cachedSelfProviderID :: string

record env =
  e_selfID :: "string option"
  e_lanRegistry :: bool
  e_registryInfo :: "string option"
  e_genID :: string
  e_listenUDP :: "string \<Rightarrow> string option"
  e_listenUnix :: "string \<Rightarrow> string option"
  e_listenTCP :: "string list \<Rightarrow> string \<Rightarrow> string + string"
  e_regLAN :: "string option"
  e_regWAN :: "string option"
  e_reverseProxy :: bool
  e_interfaces :: "(bool \<times> bool) list"
  e_probe :: "string option"
  e_numCPU :: nat

text \<open>Everything the server has to close, in the order it was opened; the lists of addresses and ports it listens on.\<close>

datatype closer =
    CloseMsgQ
  | CloseIO string
  | CloseLANRegistry
  | CloseChan service
  | CloseUDS service string
  | CloseTCP service string

datatype errorRecover = NoError | UnrecoverableError string | CustomErrorRecover string string bool

record Server = conf +
  srv_publisher :: string
  broadcastPort :: string
  enable_rootRegistry :: bool
  autoReverseProxy :: bool
  serviceLister :: bool
  ipObserver :: bool
  msgTracer :: bool
  errRecovers :: "errorRecover chan"
  srv_mq :: "(nat \<times> metaMsg) msgQ_log option"
  srv_residentWorkers :: int
  srv_qSizePerCore :: int
  srv_qWeight :: int
  srv_msgTypeCheck :: bool
  closers :: "closer list"
  initialized :: bool
  srv_closed :: bool

definition DefaultQSizePerCore :: int where "DefaultQSizePerCore = 128"
definition DefaultQWeight :: int where "DefaultQWeight = 8"

definition NewServer :: "Option list \<Rightarrow> Server" where
  "NewServer options =
     fold apply_option options
       \<lparr>registryAddr = registryAddr newConf, providerID = providerID newConf, scope = scope newConf, qsize = qsize newConf,
        srv_publisher = ''default.org'', broadcastPort = [], enable_rootRegistry = False, autoReverseProxy = False,
        serviceLister = False, ipObserver = False, msgTracer = False, errRecovers = make_chan 1, srv_mq = None,
        srv_residentWorkers = 1, srv_qSizePerCore = DefaultQSizePerCore, srv_qWeight = DefaultQWeight,
        srv_msgTypeCheck = True, closers = [], initialized = False, srv_closed = False\<rparr>"

section \<open>Options\<close>

definition SetPublisher :: "string \<Rightarrow> Server \<Rightarrow> Server outcome" where
  "SetPublisher name s =
     (case checkNameConvention name of Some e \<Rightarrow> Panic e | None \<Rightarrow> Ret (s\<lparr>srv_publisher := name\<rparr>))"

definition SetScaleFactors :: "int \<Rightarrow> int \<Rightarrow> int \<Rightarrow> Server \<Rightarrow> Server" where
  "SetScaleFactors resident qSizePerCore weight s =
     (let s = (if resident > 0 then s\<lparr>srv_residentWorkers := resident\<rparr> else s);
          s = (if qSizePerCore > 0 then s\<lparr>srv_qSizePerCore := qSizePerCore\<rparr> else s)
      in if weight \<noteq> 0 then s\<lparr>srv_qWeight := weight\<rparr> else s)"

definition SetBroadcastPort :: "string \<Rightarrow> Server \<Rightarrow> Server" where
  "SetBroadcastPort port s = s\<lparr>broadcastPort := port\<rparr>"

definition DisableMsgTypeCheck :: "Server \<Rightarrow> Server" where
  "DisableMsgTypeCheck s = s\<lparr>srv_msgTypeCheck := False\<rparr>"

definition EnableRootRegistry :: "Server \<Rightarrow> Server" where
  "EnableRootRegistry s = s\<lparr>enable_rootRegistry := True\<rparr>"

definition EnableAutoReverseProxy :: "Server \<Rightarrow> Server" where
  "EnableAutoReverseProxy s = s\<lparr>autoReverseProxy := True\<rparr>"

definition EnableServiceLister :: "Server \<Rightarrow> Server" where
  "EnableServiceLister s = s\<lparr>serviceLister := True\<rparr>"

definition EnableIPObserver :: "Server \<Rightarrow> Server" where
  "EnableIPObserver s = s\<lparr>ipObserver := True\<rparr>"

definition EnableMessageTracer :: "Server \<Rightarrow> Server" where
  "EnableMessageTracer s = s\<lparr>msgTracer := True\<rparr>"

datatype ServiceOption = OnNewStreamFunc | OnStreamCloseFunc | OnConnectFunc | OnDisconnectFunc | UseNamedUDS

fun apply_service_option :: "ServiceOption \<Rightarrow> service \<Rightarrow> service" where
  "apply_service_option OnNewStreamFunc svc = svc\<lparr>fnOnNewStream := True\<rparr>"
| "apply_service_option OnStreamCloseFunc svc = svc\<lparr>fnOnStreamClose := True\<rparr>"
| "apply_service_option OnConnectFunc svc = svc\<lparr>fnOnConnect := True\<rparr>"
| "apply_service_option OnDisconnectFunc svc = svc\<lparr>fnOnDisconnect := True\<rparr>"
| "apply_service_option UseNamedUDS svc = svc\<lparr>useNamedUDS := True\<rparr>"

section \<open>Transports\<close>

type_synonym result = "string option \<times> Server \<times> netState"

text \<open>\<open>if err := f(); err != nil { return err }\<close>\<close>

definition and_then :: "result outcome \<Rightarrow> (Server \<Rightarrow> netState \<Rightarrow> result outcome) \<Rightarrow> result outcome" where
  "and_then m f = bind_outcome m (\<lambda>(err, s, st). case err of Some e \<Rightarrow> Ret (Some e, s, st) | None \<Rightarrow> f s st)"

definition if_do :: "bool \<Rightarrow> (Server \<Rightarrow> netState \<Rightarrow> result outcome) \<Rightarrow> Server \<Rightarrow> netState \<Rightarrow> result outcome" where
  "if_do b f s st = (if b then f s st else Ret (None, s, st))"

definition addCloser :: "closer \<Rightarrow> Server \<Rightarrow> Server" where
  "addCloser c s = s\<lparr>closers := closers s @ [c]\<rparr>"

definition newChanTransport :: "service \<Rightarrow> Server \<Rightarrow> netState \<Rightarrow> result outcome" where
  "newChanTransport svc s st =
     bind_outcome (regServiceChan (publisherName svc) (serviceName svc) svc (n_table st)) (\<lambda>table.
       Ret (None, addCloser (CloseChan svc) s, st\<lparr>n_table := table\<rparr>))"

text \<open>An address that is in use cannot be listened on.\<close>

definition newUDSTransport :: "env \<Rightarrow> service \<Rightarrow> Server \<Rightarrow> netState \<Rightarrow> result outcome" where
  "newUDSTransport e svc s st =
     (let a = toUDSAddr (publisherName svc) (serviceName svc) (useNamedUDS svc) (svc_providerID svc) in
      if a \<in> set (n_unix st) then Ret (Some ''address already in use'', s, st)
      else case e_listenUnix e a of
             Some err \<Rightarrow> Ret (Some err, s, st)
           | None \<Rightarrow> Ret (None, addCloser (CloseUDS svc a) s, st\<lparr>n_unix := n_unix st @ [a]\<rparr>))"

text \<open>Whether a built-in service is found in the process or offered by another process of the host.\<close>

definition builtin_name :: "string \<Rightarrow> string" where
  "builtin_name srv = toPublisherServiceName BuiltinPublisher srv"

definition SrvLANRegistry :: string where "SrvLANRegistry = ''LANRegistry''"
definition SrvProviderInfo :: string where "SrvProviderInfo = ''providerInfo''"
definition SrvRegistryInfo :: string where "SrvRegistryInfo = ''registryInfo''"
definition SrvReverseProxy :: string where "SrvReverseProxy = ''reverseProxy''"
definition SrvServiceLister :: string where "SrvServiceLister = ''serviceLister''"
definition SrvIPObserver :: string where "SrvIPObserver = ''IPObserver''"
definition SrvMessageTracing :: string where "SrvMessageTracing = ''messageTracing''"

definition lanRegistry_found :: "env \<Rightarrow> netState \<Rightarrow> bool" where
  "lanRegistry_found e st \<longleftrightarrow> map_of (n_table st) (builtin_name SrvLANRegistry) \<noteq> None \<or> e_lanRegistry e"

definition svc_name :: "service \<Rightarrow> string" where
  "svc_name svc = toPublisherServiceName (publisherName svc) (serviceName svc)"

definition regServiceLAN :: "env \<Rightarrow> service \<Rightarrow> string \<Rightarrow> netState \<Rightarrow> string option \<times> netState" where
  "regServiceLAN e svc port st =
     (if \<not> lanRegistry_found e st then (Some ''LANRegistry not found'', st)
      else case e_regLAN e of
             Some err \<Rightarrow> (Some err, st)
           | None \<Rightarrow> (None, st\<lparr>n_lan := AList.update (svc_name svc) port (n_lan st)\<rparr>))"

definition delServiceLAN :: "env \<Rightarrow> service \<Rightarrow> netState \<Rightarrow> netState" where
  "delServiceLAN e svc st =
     (if \<not> lanRegistry_found e st then st else st\<lparr>n_lan := AList.delete (svc_name svc) (n_lan st)\<rparr>)"

definition regServiceWAN :: "env \<Rightarrow> service \<Rightarrow> string \<Rightarrow> Server \<Rightarrow> netState \<Rightarrow> string option \<times> netState" where
  "regServiceWAN e svc port s st =
     (case e_regWAN e of
        Some err \<Rightarrow> (Some err, st)
      | None \<Rightarrow> (None, st\<lparr>n_wan := AList.update (svc_name svc, svc_providerID svc)
                            (port, svc_providerID svc \<noteq> providerID s) (n_wan st)\<rparr>))"

definition delServiceWAN :: "env \<Rightarrow> service \<Rightarrow> netState \<Rightarrow> netState" where
  "delServiceWAN e svc st =
     (case e_regWAN e of
        Some err \<Rightarrow> st
      | None \<Rightarrow> st\<lparr>n_wan := AList.delete (svc_name svc, svc_providerID svc) (n_wan st)\<rparr>)"

text \<open>\<open>streamTransport.close\<close> of a listener on a TCP port and of one on a unix socket.\<close>

definition close_tcp :: "env \<Rightarrow> service \<Rightarrow> string \<Rightarrow> netState \<Rightarrow> netState" where
  "close_tcp e svc port st =
     (let st = st\<lparr>n_tcp := filter (\<lambda>p. p \<noteq> port) (n_tcp st)\<rparr>;
          st = (if in_scope (svc_scope svc) ScopeLAN then delServiceLAN e svc st else st)
      in if in_scope (svc_scope svc) ScopeWAN then delServiceWAN e svc st else st)"

definition close_uds :: "string \<Rightarrow> netState \<Rightarrow> netState" where
  "close_uds a st = st\<lparr>n_unix := filter (\<lambda>b. b \<noteq> a) (n_unix st)\<rparr>"

definition newTCPTransport :: "env \<Rightarrow> string \<Rightarrow> service \<Rightarrow> Server \<Rightarrow> netState \<Rightarrow> result outcome" where
  "newTCPTransport e onPort svc s st =
     (let onPort = (if length onPort = 0 then ''0'' else onPort) in
      case e_listenTCP e (n_tcp st) onPort of
        Inl err \<Rightarrow> Ret (Some err, s, st)
      | Inr port \<Rightarrow>
          (let st = st\<lparr>n_tcp := n_tcp st @ [port]\<rparr>;
               (errL, st) = (if in_scope (svc_scope svc) ScopeLAN then regServiceLAN e svc port st else (None, st))
           in case errL of
                Some err \<Rightarrow> Ret (Some err, s, close_tcp e svc port st)
              | None \<Rightarrow>
                  (let (errW, st) = (if in_scope (svc_scope svc) ScopeWAN then regServiceWAN e svc port s st else (None, st))
                   in case errW of
                        Some err \<Rightarrow>
                          if e_reverseProxy e then Ret (None, addCloser (CloseTCP svc port) s, st)
                          else Ret (Some err, s, close_tcp e svc port st)
                      | None \<Rightarrow> Ret (None, addCloser (CloseTCP svc port) s, st))))"

section \<open>Publishing\<close>

definition QueryMsgQInfo_type :: gotype where
  "QueryMsgQInfo_type = TName ''adaptiveservice.QueryMsgQInfo''"

definition newService :: "Server \<Rightarrow> Scope \<Rightarrow> string \<Rightarrow> string \<Rightarrow> gotype list \<Rightarrow> service" where
  "newService s sc publisher name knownMessages =
     \<lparr>publisherName = publisher, serviceName = name, svc_providerID = providerID s,
      knownMsgTypes = knownMessages @ [QueryMsgQInfo_type], msgTypeCheck = srv_msgTypeCheck s, svc_scope = sc,
      useNamedUDS = False, fnOnConnect = False, fnOnDisconnect = False, fnOnNewStream = False, fnOnStreamClose = False,
      svc_qsize = nat (qsize s)\<rparr>"

text \<open>The last part of \<open>publish\<close>: a transport for each kind of scope.\<close>

definition open_transports :: "env \<Rightarrow> Scope \<Rightarrow> service \<Rightarrow> Server \<Rightarrow> netState \<Rightarrow> result outcome" where
  "open_transports e sc svc s st =
     and_then (if_do (in_scope sc ScopeProcess) (newChanTransport svc) s st) (\<lambda>s st.
     and_then (if_do (in_scope sc ScopeOS) (newUDSTransport e svc) s st) (\<lambda>s st.
       if_do (in_scope sc ScopeLAN \<or> in_scope sc ScopeWAN) (newTCPTransport e [] svc) s st))"

text \<open>\<open>publish\<close> for a service that does not use named sockets, as the built-in ones; the server is initialised.\<close>

definition publish_plain ::
  "env \<Rightarrow> Scope \<Rightarrow> string \<Rightarrow> string \<Rightarrow> gotype list \<Rightarrow> ServiceOption list \<Rightarrow> Server \<Rightarrow> netState \<Rightarrow> result outcome" where
  "publish_plain e sc publisher name knownMessages options s st =
     (let sc = scope s AND sc;
          svc = fold apply_service_option options (newService s sc publisher name knownMessages)
      in open_transports e sc svc s st)"

definition ptr :: "string \<Rightarrow> gotype" where
  "ptr n = TPtr (TName (''adaptiveservice.'' @ n))"

definition GetSelfProviderID :: "env \<Rightarrow> netState \<Rightarrow> string option \<times> netState" where
  "GetSelfProviderID e st =
     (if length (cachedSelfProviderID st) \<noteq> 0 then (Some (cachedSelfProviderID st), st)
      else case map_of (n_table st) (builtin_name SrvProviderInfo) of
             Some svc \<Rightarrow> (Some (shared_providerID st), st\<lparr>cachedSelfProviderID := shared_providerID st\<rparr>)
           | None \<Rightarrow>
               (case e_selfID e of
                  None \<Rightarrow> (None, st)
                | Some i \<Rightarrow> (Some i, st\<lparr>cachedSelfProviderID := i\<rparr>)))"

definition publishProviderInfoService :: "env \<Rightarrow> Server \<Rightarrow> netState \<Rightarrow> result outcome" where
  "publishProviderInfoService e s st =
     (if length (providerID s) = 0 then Panic ''provider ID not specified''
      else publish_plain e (ScopeProcess OR ScopeOS) BuiltinPublisher SrvProviderInfo [ptr ''ReqProviderInfo''] [] s
             (st\<lparr>shared_providerID := providerID s\<rparr>))"

definition initProviderID :: "env \<Rightarrow> Server \<Rightarrow> netState \<Rightarrow> result outcome" where
  "initProviderID e s st =
     (case GetSelfProviderID e st of
        (None, st) \<Rightarrow>
          publishProviderInfoService e (if length (providerID s) = 0 then s\<lparr>providerID := e_genID e\<rparr> else s) st
      | (Some i, st) \<Rightarrow>
          (let s = (if length (providerID s) = 0 then s\<lparr>providerID := i\<rparr> else s) in
           if providerID s \<noteq> i
           then Ret (Some (''provider ID mismatch: user specified '' @ providerID s @ '', discovered '' @ i), s, st)
           else Ret (None, s, st)))"

section \<open>Initialisation\<close>

definition publishLANRegistryService :: "env \<Rightarrow> Server \<Rightarrow> netState \<Rightarrow> result outcome" where
  "publishLANRegistryService e s st =
     (if broadcastPort s \<in> set (n_udp st) then Ret (Some ''address already in use'', s, st)
      else case e_listenUDP e (broadcastPort s) of
             Some err \<Rightarrow> Ret (Some err, s, st)
           | None \<Rightarrow>
               publish_plain e (ScopeProcess OR ScopeOS) BuiltinPublisher SrvLANRegistry
                 [ptr ''queryServiceInLAN'', ptr ''regServiceInLAN'', ptr ''delServiceInLAN''] [OnNewStreamFunc]
                 (addCloser CloseLANRegistry (addCloser (CloseIO (broadcastPort s)) s))
                 (st\<lparr>n_udp := n_udp st @ [broadcastPort s]\<rparr>))"

definition init_lan :: "env \<Rightarrow> Server \<Rightarrow> netState \<Rightarrow> result outcome" where
  "init_lan e s st =
     (if lanRegistry_found e st then Ret (None, s, st)
      else if length (broadcastPort s) = 0 then Ret (None, s\<lparr>scope := scope s AND NOT ScopeLAN\<rparr>, st)
      else publishLANRegistryService e s st)"

definition discoverRegistryAddr :: "env \<Rightarrow> netState \<Rightarrow> string option" where
  "discoverRegistryAddr e st =
     (case map_of (n_table st) (builtin_name SrvRegistryInfo) of
        Some svc \<Rightarrow> Some (shared_registryAddr st)
      | None \<Rightarrow> e_registryInfo e)"

definition publishRegistryInfoService :: "env \<Rightarrow> Server \<Rightarrow> netState \<Rightarrow> result outcome" where
  "publishRegistryInfoService e s st =
     (if length (registryAddr s) = 0 then Panic ''registry address not specified''
      else publish_plain e (ScopeProcess OR ScopeOS) BuiltinPublisher SrvRegistryInfo [ptr ''reqRegistryInfo''] [] s
             (st\<lparr>shared_registryAddr := registryAddr s\<rparr>))"

definition init_wan :: "env \<Rightarrow> Server \<Rightarrow> netState \<Rightarrow> result outcome" where
  "init_wan e s st =
     (case discoverRegistryAddr e st of
        None \<Rightarrow>
          if length (registryAddr s) = 0 then Ret (None, s\<lparr>scope := scope s AND NOT ScopeWAN\<rparr>, st)
          else publishRegistryInfoService e s st
      | Some a \<Rightarrow> Ret (None, s\<lparr>registryAddr := a\<rparr>, st))"

text \<open>\<open>net.SplitHostPort\<close>\<close>

definition last_colon :: "string \<Rightarrow> nat option" where
  "last_colon s = (case str_index (rev s) '':'' of None \<Rightarrow> None | Some r \<Rightarrow> Some (length s - 1 - r))"

definition host_port :: "string \<Rightarrow> nat \<Rightarrow> nat \<Rightarrow> nat \<Rightarrow> string \<Rightarrow> string + string \<times> string" where
  "host_port s i j k host =
     (if CHR ''['' \<in> set (drop j s) then Inl ''unexpected '[' in address''
      else if CHR '']'' \<in> set (drop k s) then Inl ''unexpected ']' in address''
      else Inr (host, drop (i + 1) s))"

definition SplitHostPort :: "string \<Rightarrow> string + string \<times> string" where
  "SplitHostPort s =
     (case last_colon s of
        None \<Rightarrow> Inl ''missing port in address''
      | Some i \<Rightarrow>
          if prefix ''['' s then
            (case str_index s '']'' of
               None \<Rightarrow> Inl ''missing ']' in address''
             | Some k \<Rightarrow>
                 if k + 1 = length s then Inl ''missing port in address''
                 else if k + 1 = i then host_port s i 1 (k + 1) (take (k - 1) (drop 1 s))
                 else if s ! (k + 1) = CHR '':'' then Inl ''too many colons in address''
                 else Inl ''missing port in address'')
          else
            let host = take i s in
            if CHR '':'' \<in> set host then Inl ''too many colons in address'' else host_port s i 0 0 host)"

text \<open>The port, empty when the call fails.\<close>

definition split_port :: "string \<Rightarrow> string" where
  "split_port hostport = (case SplitHostPort hostport of Inl e \<Rightarrow> [] | Inr (host, port) \<Rightarrow> port)"

definition startRootRegistry :: "env \<Rightarrow> string \<Rightarrow> Server \<Rightarrow> netState \<Rightarrow> result outcome" where
  "startRootRegistry e port s st =
     newTCPTransport e port
       ((newService s 0 BuiltinPublisher ''rootRegistry'' [])\<lparr>
          knownMsgTypes := [ptr ''regServiceInWAN'', ptr ''delServiceInWAN'', ptr ''queryServiceInWAN'', ptr ''testReverseProxy''],
          fnOnNewStream := True\<rparr>) s st"

definition init_root :: "env \<Rightarrow> Server \<Rightarrow> netState \<Rightarrow> result outcome" where
  "init_root e s st =
     (if length (registryAddr s) = 0 then Ret (Some ''root registry address not configured'', s, st)
      else if \<not> in_scope (scope s) ScopeWAN then Panic ''scope error''
      else startRootRegistry e (split_port (registryAddr s)) s st)"

text \<open>
  The interface addresses are given by whether they are IPv4 and whether they are loopback. \<open>e_probe\<close> is
  the error of listening on a free port, dialling the root registry or having it dial back.
\<close>

definition canProxy :: "env \<Rightarrow> Server \<Rightarrow> bool" where
  "canProxy e s =
     (if enable_rootRegistry s then True
      else if length (filter (\<lambda>(v4, loopback). v4 \<and> \<not> loopback) (e_interfaces e)) < 2 then False
      else e_probe e = None)"

definition init_proxy :: "env \<Rightarrow> Server \<Rightarrow> netState \<Rightarrow> result outcome" where
  "init_proxy e s st =
     if_do (canProxy e s)
       (publish_plain e (if enable_rootRegistry s then ScopeLAN OR ScopeWAN else ScopeLAN) BuiltinPublisher SrvReverseProxy
          [ptr ''proxyRegServiceInWAN''] [OnNewStreamFunc]) s st"

definition server_init :: "env \<Rightarrow> Server \<Rightarrow> netState \<Rightarrow> result outcome" where
  "server_init e s st =
     (if initialized s then Ret (None, s, st)
      else
        let s = s\<lparr>initialized := True,
                  srv_mq := Some (newMsgQ (srv_residentWorkers s) (nat (srv_qSizePerCore s)) (srv_qWeight s) (e_numCPU e))\<rparr>;
            s = addCloser CloseMsgQ s
        in
          and_then (if_do (in_scope (scope s) ScopeLAN \<or> in_scope (scope s) ScopeWAN) (initProviderID e) s st) (\<lambda>s st.
          and_then (if_do (in_scope (scope s) ScopeLAN) (init_lan e) s st) (\<lambda>s st.
          and_then (if_do (in_scope (scope s) ScopeWAN) (init_wan e) s st) (\<lambda>s st.
          and_then (if_do (enable_rootRegistry s) (init_root e) s st) (\<lambda>s st.
          and_then (if_do (in_scope (scope s) ScopeWAN \<and> autoReverseProxy s) (init_proxy e) s st) (\<lambda>s st.
          and_then (if_do (serviceLister s)
            (publish_plain e (ScopeProcess OR ScopeOS) BuiltinPublisher SrvServiceLister [ptr ''ListService''] [OnNewStreamFunc]) s st) (\<lambda>s st.
          and_then (if_do (ipObserver s)
            (publish_plain e (scope s) BuiltinPublisher SrvIPObserver [TName ''adaptiveservice.GetObservedIP''] []) s st) (\<lambda>s st.
            if_do (msgTracer s)
              (publish_plain e (scope s) BuiltinPublisher SrvMessageTracing
                 [ptr ''tracedMessageRecord'', ptr ''readTracedMsg''] [OnNewStreamFunc]) s st))))))))"

definition publish ::
  "env \<Rightarrow> Scope \<Rightarrow> string \<Rightarrow> string \<Rightarrow> gotype list \<Rightarrow> ServiceOption list \<Rightarrow> Server \<Rightarrow> netState \<Rightarrow> result outcome" where
  "publish e sc publisher name knownMessages options s st =
     and_then (if_do (\<not> initialized s) (server_init e) s st) (\<lambda>s st.
       let sc = scope s AND sc;
           svc = fold apply_service_option options (newService s sc publisher name knownMessages)
       in and_then (if_do (useNamedUDS svc) (initProviderID e) s st) (\<lambda>s st.
            let svc = (if useNamedUDS svc then svc\<lparr>svc_providerID := providerID s\<rparr> else svc)
            in open_transports e sc svc s st))"

definition Publish :: "env \<Rightarrow> string \<Rightarrow> gotype list \<Rightarrow> ServiceOption list \<Rightarrow> Server \<Rightarrow> netState \<Rightarrow> result outcome" where
  "Publish e name knownMessages options s st =
     (case checkNameConvention name of
        Some err \<Rightarrow> Panic err
      | None \<Rightarrow> publish e (scope s) (srv_publisher s) name knownMessages options s st)"

definition PublishIn ::
  "env \<Rightarrow> Scope \<Rightarrow> string \<Rightarrow> gotype list \<Rightarrow> ServiceOption list \<Rightarrow> Server \<Rightarrow> netState \<Rightarrow> result outcome" where
  "PublishIn e sc name knownMessages options s st =
     (case checkNameConvention name of
        Some err \<Rightarrow> Panic err
      | None \<Rightarrow> publish e sc (srv_publisher s) name knownMessages options s st)"

section \<open>Handlers of built-in services\<close>

text \<open>The replies of \<open>reqRegistryInfo\<close> and \<open>ReqProviderInfo\<close>.\<close>

definition reqRegistryInfo_Handle :: "netState \<Rightarrow> string" where
  "reqRegistryInfo_Handle st = shared_registryAddr st"

definition ReqProviderInfo_Handle :: "netState \<Rightarrow> string" where
  "ReqProviderInfo_Handle st = shared_providerID st"

text \<open>\<open>lan\<close> and \<open>wan\<close> are what the two network registries answer.\<close>

definition ListService_Handle ::
  "string option \<Rightarrow> os_files \<Rightarrow> string option \<Rightarrow> ServiceInfo list \<Rightarrow> ServiceInfo list \<Rightarrow> Scope \<Rightarrow> string \<Rightarrow> string \<Rightarrow>
   Server \<Rightarrow> netState \<Rightarrow> ServiceInfo list list outcome" where
  "ListService_Handle proc files selfID lan wan target p n s st =
     (let sc = target AND scope s in
      bind_outcome (if in_scope sc ScopeProcess then queryServiceProcess p n (n_table st) else Ret []) (\<lambda>r0.
      bind_outcome (if in_scope sc ScopeOS then queryServiceOS proc files selfID p n else Ret []) (\<lambda>r1.
        Ret [r0, r1, if in_scope sc ScopeLAN then lan else [], if in_scope sc ScopeWAN then wan else []])))"

text \<open>The reply of \<open>GetObservedIP\<close>, an error or a string, for a connection's network and remote address.\<close>

definition GetObservedIP_Handle :: "string \<Rightarrow> string \<Rightarrow> string + string" where
  "GetObservedIP_Handle network remote =
     (if network = ''chan'' \<or> network = ''unix'' then Inr ''127.0.0.1''
      else case SplitHostPort remote of Inl err \<Rightarrow> Inl err | Inr (host, port) \<Rightarrow> Inr host)"

section \<open>Serving and closing\<close>

fun close_one :: "env \<Rightarrow> closer \<Rightarrow> netState \<Rightarrow> netState" where
  "close_one e CloseMsgQ st = st"
| "close_one e (CloseIO port) st = st\<lparr>n_udp := filter (\<lambda>p. p \<noteq> port) (n_udp st)\<rparr>"
| "close_one e CloseLANRegistry st = st"
| "close_one e (CloseChan svc) st = st\<lparr>n_table := delServiceChan (publisherName svc) (serviceName svc) (n_table st)\<rparr>"
| "close_one e (CloseUDS svc a) st = close_uds a st"
| "close_one e (CloseTCP svc port) st = close_tcp e svc port st"

definition doClose :: "env \<Rightarrow> Server \<Rightarrow> netState \<Rightarrow> Server \<times> netState" where
  "doClose e s st =
     (if closers s = [] then (s, st)
      else (s\<lparr>closers := [], srv_closed := True\<rparr>, fold (close_one e) (closers s) st))"

text \<open>\<open>Close\<close> and the close by a signal; \<open>None\<close> is blocking on the full error channel.\<close>

definition server_Close :: "Server \<Rightarrow> Server option" where
  "server_Close s =
     (if closers s = [] then Some s
      else map_option (\<lambda>ch. s\<lparr>errRecovers := ch\<rparr>) (try_send NoError (errRecovers s)))"

definition signal_close :: "Server \<Rightarrow> Server option" where
  "signal_close s =
     (if closers s = [] then Some s
      else map_option (\<lambda>ch. s\<lparr>errRecovers := ch\<rparr>) (try_send (UnrecoverableError ''server closed by signal'') (errRecovers s)))"

fun recovers :: "errorRecover \<Rightarrow> bool" where
  "recovers (CustomErrorRecover err str ok) = ok"
| "recovers _ = False"

fun error_of :: "errorRecover \<Rightarrow> string option" where
  "error_of NoError = None"
| "error_of (UnrecoverableError err) = Some err"
| "error_of (CustomErrorRecover err str ok) = Some err"

text \<open>The loop of \<open>Serve\<close> over what comes through the error channel; \<open>None\<close> is still serving.\<close>

fun serve_loop :: "errorRecover list \<Rightarrow> string option option" where
  "serve_loop [] = None"
| "serve_loop (er # ers) = (if er = NoError then Some None else if recovers er then serve_loop ers else Some (error_of er))"

definition Serve :: "env \<Rightarrow> errorRecover list \<Rightarrow> Server \<Rightarrow> netState \<Rightarrow> (string option option \<times> Server \<times> netState) outcome" where
  "Serve e ers s st =
     bind_outcome (if_do (\<not> initialized s) (server_init e) s st) (\<lambda>(err, s, st).
       case err of
         Some er \<Rightarrow> Ret (Some (Some er), s, st)
       | None \<Rightarrow>
           (case serve_loop ers of
              None \<Rightarrow> Ret (None, s, st)
            | Some r \<Rightarrow> (let (s, st) = doClose e s st in Ret (Some r, s, st))))"

section \<open>What the server owns\<close>

definition chan_of :: "closer \<Rightarrow> (string \<times> service) option" where
  "chan_of c = (case c of CloseChan svc \<Rightarrow> Some (svc_name svc, svc) | _ \<Rightarrow> None)"

definition unix_of :: "closer \<Rightarrow> string option" where
  "unix_of c = (case c of CloseUDS svc a \<Rightarrow> Some a | _ \<Rightarrow> None)"

definition tcp_of :: "closer \<Rightarrow> string option" where
  "tcp_of c = (case c of CloseTCP svc p \<Rightarrow> Some p | _ \<Rightarrow> None)"

definition udp_of :: "closer \<Rightarrow> string option" where
  "udp_of c = (case c of CloseIO p \<Rightarrow> Some p | _ \<Rightarrow> None)"

lemmas closer_views = chan_of_def unix_of_def tcp_of_def udp_of_def

text \<open>A list of listeners is the one before the server started and what its closers will close.\<close>

definition listens_on :: "string list \<Rightarrow> string list \<Rightarrow> string list \<Rightarrow> bool" where
  "listens_on xs0 own xs \<longleftrightarrow> xs = xs0 @ own \<and> set own \<inter> set xs0 = {}"

text \<open>Relative to the state before the server started, everything it added is the business of one of its closers.\<close>

definition owned :: "netState \<Rightarrow> Server \<Rightarrow> netState \<Rightarrow> bool" where
  "owned st0 s st \<longleftrightarrow>
     map_of (n_table st) = map_of (n_table st0) ++ map_of (List.map_filter chan_of (closers s)) \<and>
     (\<forall>n. n \<in> fst ` set (List.map_filter chan_of (closers s)) \<longrightarrow> map_of (n_table st0) n = None) \<and>
     listens_on (n_unix st0) (List.map_filter unix_of (closers s)) (n_unix st) \<and>
     listens_on (n_tcp st0) (List.map_filter tcp_of (closers s)) (n_tcp st) \<and>
     listens_on (n_udp st0) (List.map_filter udp_of (closers s)) (n_udp st)"

definition keeps :: "netState \<Rightarrow> result outcome \<Rightarrow> bool" where
  "keeps st0 m \<longleftrightarrow> (\<forall>err s st. m = Ret (err, s, st) \<longrightarrow> owned st0 s st)"

named_theorems keeps_rules

lemma keeps_Ret [keeps_rules]: "owned st0 s st \<Longrightarrow> keeps st0 (Ret (err, s, st))"
  by (simp add: keeps_def)

lemma keeps_Panic [keeps_rules]: "keeps st0 (Panic e)"
  by (simp add: keeps_def)

lemma keeps_and_then [keeps_rules]:
  "keeps st0 m \<Longrightarrow> (\<And>s st. owned st0 s st \<Longrightarrow> keeps st0 (f s st)) \<Longrightarrow> keeps st0 (and_then m f)"
  by (cases m) (auto simp: keeps_def and_then_def split: option.splits)

lemma keeps_if_do [keeps_rules]: "owned st0 s st \<Longrightarrow> keeps st0 (f s st) \<Longrightarrow> keeps st0 (if_do b f s st)"
  by (simp add: if_do_def keeps_def)

text \<open>The environment's ports are free ones.\<close>

definition fresh_ports :: "env \<Rightarrow> bool" where
  "fresh_ports e \<longleftrightarrow> (\<forall>used p port. e_listenTCP e used p = Inr port \<longrightarrow> port \<notin> set used)"

lemma map_filter_snoc: "List.map_filter f (xs @ [x]) = List.map_filter f xs @ (case f x of None \<Rightarrow> [] | Some y \<Rightarrow> [y])"
  by (simp add: map_filter_append map_filter_simps split: option.split)

lemma listens_on_snoc: "listens_on xs0 own xs \<Longrightarrow> x \<notin> set xs \<Longrightarrow> listens_on xs0 (own @ [x]) (xs @ [x])"
  by (auto simp: listens_on_def)

lemma owned_cong:
  "owned st0 s st \<Longrightarrow> closers s' = closers s \<Longrightarrow> n_table st' = n_table st \<Longrightarrow> n_unix st' = n_unix st \<Longrightarrow>
   n_tcp st' = n_tcp st \<Longrightarrow> n_udp st' = n_udp st \<Longrightarrow> owned st0 s' st'"
  by (simp add: owned_def)

lemma keeps_newChan [keeps_rules]:
  assumes "owned st0 s st"
  shows "keeps st0 (newChanTransport svc s st)"
proof (cases "map_of (n_table st) (svc_name svc)")
  case None
  then have t: "map_of (n_table st0) (svc_name svc) = None"
    using assms by (auto simp: owned_def map_add_None)
  have "newChanTransport svc s st = Ret (None, addCloser (CloseChan svc) s, st\<lparr>n_table := AList.update (svc_name svc) svc (n_table st)\<rparr>)"
    using None by (simp add: newChanTransport_def regServiceChan_def svc_name_def Let_def)
  moreover have "owned st0 (addCloser (CloseChan svc) s) (st\<lparr>n_table := AList.update (svc_name svc) svc (n_table st)\<rparr>)"
    using assms t None
    by (auto simp: owned_def addCloser_def map_filter_snoc closer_views fun_eq_iff map_add_def map_of_append split: option.splits)
  ultimately show ?thesis by (simp add: keeps_Ret)
next
  case (Some x)
  then show ?thesis by (simp add: newChanTransport_def regServiceChan_def svc_name_def Let_def keeps_Panic)
qed

lemma keeps_newUDS [keeps_rules]:
  assumes "owned st0 s st"
  shows "keeps st0 (newUDSTransport e svc s st)"
proof -
  define a where "a = toUDSAddr (publisherName svc) (serviceName svc) (useNamedUDS svc) (svc_providerID svc)"
  have "owned st0 (addCloser (CloseUDS svc a) s) (st\<lparr>n_unix := n_unix st @ [a]\<rparr>)" if "a \<notin> set (n_unix st)"
    using assms that by (simp add: owned_def addCloser_def map_filter_snoc closer_views listens_on_snoc)
  then show ?thesis
    using assms by (simp add: newUDSTransport_def a_def [symmetric] Let_def keeps_Ret split: option.split)
qed

lemma reg_keeps_fields:
  "n_table (snd (regServiceLAN e svc p st)) = n_table st" "n_unix (snd (regServiceLAN e svc p st)) = n_unix st"
  "n_tcp (snd (regServiceLAN e svc p st)) = n_tcp st" "n_udp (snd (regServiceLAN e svc p st)) = n_udp st"
  "n_table (snd (regServiceWAN e svc p s st)) = n_table st" "n_unix (snd (regServiceWAN e svc p s st)) = n_unix st"
  "n_tcp (snd (regServiceWAN e svc p s st)) = n_tcp st" "n_udp (snd (regServiceWAN e svc p s st)) = n_udp st"
  by (simp_all add: regServiceLAN_def regServiceWAN_def split: option.split)

lemma close_tcp_fields [simp]:
  "n_table (close_tcp e svc p st) = n_table st" "n_unix (close_tcp e svc p st) = n_unix st"
  "n_tcp (close_tcp e svc p st) = filter (\<lambda>q. q \<noteq> p) (n_tcp st)" "n_udp (close_tcp e svc p st) = n_udp st"
  by (simp_all add: close_tcp_def delServiceLAN_def delServiceWAN_def Let_def split: option.split)

lemma keeps_newTCP [keeps_rules]:
  assumes "fresh_ports e" and "owned st0 s st"
  shows "keeps st0 (newTCPTransport e onPort svc s st)"
proof -
  have fail: "owned st0 s (close_tcp e svc port st')" and succ: "owned st0 (addCloser (CloseTCP svc port) s) st'"
    if "port \<notin> set (n_tcp st)" "n_table st' = n_table st" "n_unix st' = n_unix st" "n_tcp st' = n_tcp st @ [port]" "n_udp st' = n_udp st"
    for port st'
  proof -
    have f: "filter (\<lambda>q. q \<noteq> port) (n_tcp st) = n_tcp st" using that(1) by (auto simp: filter_id_conv)
    show "owned st0 s (close_tcp e svc port st')"
      by (rule owned_cong [OF assms(2)]) (simp_all add: that f)
    show "owned st0 (addCloser (CloseTCP svc port) s) st'"
      using assms(2) that by (simp add: owned_def addCloser_def map_filter_snoc closer_views listens_on_snoc)
  qed
  show ?thesis
  proof (cases "e_listenTCP e (n_tcp st) (if length onPort = 0 then ''0'' else onPort)")
    case (Inl err)
    then show ?thesis using assms(2) by (simp add: newTCPTransport_def keeps_Ret Let_def)
  next
    case (Inr port)
    then have new: "port \<notin> set (n_tcp st)" using assms(1) by (auto simp: fresh_ports_def)
    let ?st = "st\<lparr>n_tcp := n_tcp st @ [port]\<rparr>"
    obtain e1 st1 where l: "(if in_scope (svc_scope svc) ScopeLAN then regServiceLAN e svc port ?st else (None, ?st)) = (e1, st1)"
      by force
    then have f1: "n_table st1 = n_table st" "n_unix st1 = n_unix st" "n_tcp st1 = n_tcp st @ [port]" "n_udp st1 = n_udp st"
      using reg_keeps_fields(1-4) [of e svc port ?st] by (auto split: if_splits)
    obtain e2 st2 where w: "(if in_scope (svc_scope svc) ScopeWAN then regServiceWAN e svc port s st1 else (None, st1)) = (e2, st2)"
      by force
    then have f2: "n_table st2 = n_table st" "n_unix st2 = n_unix st" "n_tcp st2 = n_tcp st @ [port]" "n_udp st2 = n_udp st"
      using reg_keeps_fields(5-8) [of e svc port s st1] f1 by (auto split: if_splits)
    show ?thesis
      unfolding newTCPTransport_def Let_def Inr l w sum.case prod.case
      using fail [OF new f1] fail [OF new f2] succ [OF new f2]
      by (simp add: keeps_Ret w split: option.split)
  qed
qed

lemma keeps_open [keeps_rules]: "fresh_ports e \<Longrightarrow> owned st0 s st \<Longrightarrow> keeps st0 (open_transports e sc svc s st)"
  unfolding open_transports_def by (intro keeps_rules) assumption+


lemma keeps_plain [keeps_rules]:
  "fresh_ports e \<Longrightarrow> owned st0 s st \<Longrightarrow> keeps st0 (publish_plain e sc p n known opts s st)"
  by (simp add: publish_plain_def Let_def keeps_open)

lemma keeps_initProviderID [keeps_rules]:
  assumes "fresh_ports e" and "owned st0 s st"
  shows "keeps st0 (initProviderID e s st)"
proof -
  obtain r st1 where g: "GetSelfProviderID e st = (r, st1)" by force
  then have "owned st0 s st1"
    by (intro owned_cong [OF assms(2)]) (auto simp: GetSelfProviderID_def split: if_splits option.splits)
  then have o: "owned st0 (s\<lparr>providerID := i\<rparr>) st1" "owned st0 s (st1\<lparr>shared_providerID := i\<rparr>)"
      "owned st0 (s\<lparr>providerID := i\<rparr>) (st1\<lparr>shared_providerID := j\<rparr>)" "owned st0 s st1" for i j
    by (auto intro: owned_cong)
  show ?thesis
    using o by (cases r)
      (auto simp: initProviderID_def g publishProviderInfoService_def Let_def intro!: keeps_rules assms(1))
qed

lemma keeps_init_lan [keeps_rules]:
  assumes "fresh_ports e" and "owned st0 s st"
  shows "keeps st0 (init_lan e s st)"
proof -
  have "owned st0 (addCloser CloseLANRegistry (addCloser (CloseIO (broadcastPort s)) s)) (st\<lparr>n_udp := n_udp st @ [broadcastPort s]\<rparr>)"
    if "broadcastPort s \<notin> set (n_udp st)"
    using assms(2) that by (simp add: owned_def addCloser_def map_filter_append map_filter_simps closer_views listens_on_snoc)
  moreover have "owned st0 (s\<lparr>scope := x\<rparr>) st" for x by (rule owned_cong [OF assms(2)]) simp_all
  ultimately show ?thesis
    using assms by (auto simp: init_lan_def publishLANRegistryService_def intro!: keeps_rules split: option.split)
qed

lemma keeps_init_wan [keeps_rules]:
  assumes "fresh_ports e" and "owned st0 s st"
  shows "keeps st0 (init_wan e s st)"
proof -
  have "owned st0 (s\<lparr>scope := x\<rparr>) st" "owned st0 (s\<lparr>registryAddr := a\<rparr>) st" "owned st0 s (st\<lparr>shared_registryAddr := a\<rparr>)" for x a
    by (rule owned_cong [OF assms(2)]; simp)+
  then show ?thesis
    using assms by (auto simp: init_wan_def publishRegistryInfoService_def intro!: keeps_rules split: option.split)
qed

lemma keeps_init_root [keeps_rules]: "fresh_ports e \<Longrightarrow> owned st0 s st \<Longrightarrow> keeps st0 (init_root e s st)"
  by (auto simp: init_root_def startRootRegistry_def intro!: keeps_rules)

lemma keeps_init_proxy [keeps_rules]: "fresh_ports e \<Longrightarrow> owned st0 s st \<Longrightarrow> keeps st0 (init_proxy e s st)"
  by (auto simp: init_proxy_def intro!: keeps_rules)

lemma keeps_server_init [keeps_rules]:
  assumes "fresh_ports e" and "owned st0 s st"
  shows "keeps st0 (server_init e s st)"
proof (cases "initialized s")
  case True
  then show ?thesis using assms by (simp add: server_init_def keeps_Ret)
next
  case False
  have "owned st0 (addCloser CloseMsgQ (s\<lparr>initialized := True, srv_mq := mq\<rparr>)) st" for mq
    using assms(2) by (simp add: owned_def addCloser_def map_filter_snoc closer_views)
  then show ?thesis
    unfolding server_init_def Let_def if_not_P [OF False] by (intro keeps_rules assms(1)) assumption+
qed

lemma keeps_publish [keeps_rules]:
  assumes "fresh_ports e" and "owned st0 s st"
  shows "keeps st0 (publish e sc p n known opts s st)"
  unfolding publish_def Let_def by (intro keeps_rules assms) assumption+

text \<open>A program that publishes services one after the other, going on when one of the calls returns an error.\<close>

type_synonym publication = "Scope option \<times> string \<times> gotype list \<times> ServiceOption list"

fun publications :: "env \<Rightarrow> publication list \<Rightarrow> Server \<Rightarrow> netState \<Rightarrow> (Server \<times> netState) outcome" where
  "publications e [] s st = Ret (s, st)"
| "publications e ((sc, name, known, opts) # ps) s st =
     bind_outcome
       (case sc of None \<Rightarrow> Publish e name known opts s st | Some x \<Rightarrow> PublishIn e x name known opts s st)
       (\<lambda>(err, s, st). publications e ps s st)"

lemma keeps_Publish: "fresh_ports e \<Longrightarrow> owned st0 s st \<Longrightarrow> keeps st0 (Publish e n known opts s st)"
  and keeps_PublishIn: "fresh_ports e \<Longrightarrow> owned st0 s st \<Longrightarrow> keeps st0 (PublishIn e sc n known opts s st)"
  by (auto simp: Publish_def PublishIn_def intro!: keeps_rules split: option.split)

lemma publications_owned:
  assumes "fresh_ports e"
  shows "owned st0 s st \<Longrightarrow> publications e ps s st = Ret (s', st') \<Longrightarrow> owned st0 s' st'"
proof (induction ps arbitrary: s st)
  case (Cons p ps)
  obtain sc name known opts where p: "p = (sc, name, known, opts)" by (cases p)
  let ?call = "case sc of None \<Rightarrow> Publish e name known opts s st | Some x \<Rightarrow> PublishIn e x name known opts s st"
  have "keeps st0 ?call"
    using Cons.prems(1) keeps_Publish [OF assms] keeps_PublishIn [OF assms] by (cases sc) simp_all
  moreover obtain err s1 st1 where "?call = Ret (err, s1, st1)" and rest: "publications e ps s1 st1 = Ret (s', st')"
    using Cons.prems(2) unfolding p publications.simps bind_outcome_Ret_iff by auto
  ultimately have "owned st0 s1 st1" unfolding keeps_def by blast
  then show ?case using Cons.IH rest by blast
qed simp

section \<open>Closing\<close>

lemma close_fold_table:
  "map_of (n_table (fold (close_one e) cs st)) n =
     (if n \<in> fst ` set (List.map_filter chan_of cs) then None else map_of (n_table st) n)"
proof (induction cs arbitrary: st)
  case (Cons c cs)
  then show ?case
    by (cases c) (auto simp: map_filter_simps closer_views close_uds_def delServiceChan_def svc_name_def Let_def)
qed (simp add: map_filter_simps)

lemma close_fold_listeners:
  "n_unix (fold (close_one e) cs st) = filter (\<lambda>a. a \<notin> set (List.map_filter unix_of cs)) (n_unix st)"
  "n_tcp (fold (close_one e) cs st) = filter (\<lambda>a. a \<notin> set (List.map_filter tcp_of cs)) (n_tcp st)"
  "n_udp (fold (close_one e) cs st) = filter (\<lambda>a. a \<notin> set (List.map_filter udp_of cs)) (n_udp st)"
proof (induction cs arbitrary: st)
  case (Cons c cs)
  case 1
  show ?case using Cons(1) by (cases c) (simp_all add: map_filter_simps closer_views close_uds_def conj_commute)
  case 2
  show ?case using Cons(2) by (cases c) (simp_all add: map_filter_simps closer_views close_uds_def conj_commute)
  case 3
  show ?case using Cons(3) by (cases c) (simp_all add: map_filter_simps closer_views close_uds_def conj_commute)
qed (simp_all add: map_filter_simps)

lemma listens_on_close: "listens_on xs0 own xs \<Longrightarrow> filter (\<lambda>a. a \<notin> set own) xs = xs0"
  by (auto simp: listens_on_def filter_id_conv filter_empty_conv)

lemma owned_close:
  assumes "owned st0 s st"
  shows "map_of (n_table (fold (close_one e) (closers s) st)) = map_of (n_table st0) \<and>
    n_unix (fold (close_one e) (closers s) st) = n_unix st0 \<and>
    n_tcp (fold (close_one e) (closers s) st) = n_tcp st0 \<and> n_udp (fold (close_one e) (closers s) st) = n_udp st0"
proof (intro conjI ext)
  fix n
  let ?own = "List.map_filter chan_of (closers s)"
  have t: "map_of (n_table st) n = (map_of (n_table st0) ++ map_of ?own) n"
    and d: "n \<in> fst ` set ?own \<Longrightarrow> map_of (n_table st0) n = None"
    using assms by (simp_all add: owned_def)
  have "map_of ?own n = None" if "n \<notin> fst ` set ?own" using that by (simp add: map_of_eq_None_iff)
  then show "map_of (n_table (fold (close_one e) (closers s) st)) n = map_of (n_table st0) n"
    using t d by (auto simp: close_fold_table map_add_def)
qed (use assms in \<open>simp_all add: owned_def close_fold_listeners listens_on_close\<close>)


section \<open>Successful publishing\<close>

lemma newTCP_success:
  assumes "newTCPTransport e onPort svc s st = Ret (None, s', st')"
  shows "\<exists>port. s' = addCloser (CloseTCP svc port) s \<and> n_tcp st' = n_tcp st @ [port] \<and> n_table st' = n_table st \<and>
    n_unix st' = n_unix st \<and> (in_scope (svc_scope svc) ScopeLAN \<longrightarrow> map_of (n_lan st') (svc_name svc) = Some port)"
proof -
  let ?p = "if length onPort = 0 then ''0'' else onPort"
  obtain port where l: "e_listenTCP e (n_tcp st) ?p = Inr port"
    using assms by (auto simp: newTCPTransport_def Let_def split: sum.splits)
  let ?st = "st\<lparr>n_tcp := n_tcp st @ [port]\<rparr>"
  obtain e1 st1 where r1: "(if in_scope (svc_scope svc) ScopeLAN then regServiceLAN e svc port ?st else (None, ?st)) = (e1, st1)" by force
  obtain e2 st2 where r2: "(if in_scope (svc_scope svc) ScopeWAN then regServiceWAN e svc port s st1 else (None, st1)) = (e2, st2)" by force
  have e1: "e1 = None" and s': "s' = addCloser (CloseTCP svc port) s" and st': "st' = st2"
    using assms unfolding newTCPTransport_def Let_def l r1 r2 sum.case prod.case
    by (auto simp: r2 split: option.splits if_splits)
  have "n_table st1 = n_table st \<and> n_unix st1 = n_unix st \<and> n_tcp st1 = n_tcp st @ [port]"
    using r1 reg_keeps_fields(1-3) [of e svc port ?st] by (auto split: if_splits)
  moreover have "n_table st2 = n_table st1 \<and> n_unix st2 = n_unix st1 \<and> n_tcp st2 = n_tcp st1 \<and> n_lan st2 = n_lan st1"
    using r2 reg_keeps_fields(5-7) [of e svc port s st1]
    by (auto simp: regServiceWAN_def split: if_splits option.splits)
  moreover have "in_scope (svc_scope svc) ScopeLAN \<Longrightarrow> map_of (n_lan st1) (svc_name svc) = Some port"
    using r1 e1 by (auto simp: regServiceLAN_def split: if_splits option.splits)
  ultimately show ?thesis using s' st' by auto
qed

lemma newUDS_success:
  "newUDSTransport e svc s st = Ret (None, s', st') \<Longrightarrow>
   let a = toUDSAddr (publisherName svc) (serviceName svc) (useNamedUDS svc) (svc_providerID svc) in
   s' = addCloser (CloseUDS svc a) s \<and> n_unix st' = n_unix st @ [a] \<and> n_table st' = n_table st"
  by (auto simp: newUDSTransport_def Let_def split: if_splits option.splits)

lemma newChan_success:
  "newChanTransport svc s st = Ret (None, s', st') \<Longrightarrow>
   s' = addCloser (CloseChan svc) s \<and> n_table st' = AList.update (svc_name svc) svc (n_table st) \<and> n_unix st' = n_unix st"
  by (auto simp: newChanTransport_def regServiceChan_def svc_name_def Let_def bind_outcome_Ret_iff split: option.splits)

lemma and_then_success: "and_then m f = Ret (None, s', st') \<Longrightarrow> \<exists>s st. m = Ret (None, s, st) \<and> f s st = Ret (None, s', st')"
  by (cases m) (auto simp: and_then_def split: option.splits)

lemma if_do_success:
  "if_do b f s st = Ret (None, s', st') \<Longrightarrow> if b then f s st = Ret (None, s', st') else s' = s \<and> st' = st"
  by (auto simp: if_do_def)

definition published :: "Scope \<Rightarrow> service \<Rightarrow> Server \<Rightarrow> netState \<Rightarrow> Server \<Rightarrow> netState \<Rightarrow> bool" where
  "published sc svc s st s' st' \<longleftrightarrow>
     (\<exists>port. let a = toUDSAddr (publisherName svc) (serviceName svc) (useNamedUDS svc) (svc_providerID svc) in
        closers s' = closers s @ (if in_scope sc ScopeProcess then [CloseChan svc] else []) @
          (if in_scope sc ScopeOS then [CloseUDS svc a] else []) @
          (if in_scope sc ScopeLAN \<or> in_scope sc ScopeWAN then [CloseTCP svc port] else []) \<and>
        (if in_scope sc ScopeProcess then map_of (n_table st') (svc_name svc) = Some svc else n_table st' = n_table st) \<and>
        n_unix st' = n_unix st @ (if in_scope sc ScopeOS then [a] else []) \<and>
        (in_scope (svc_scope svc) ScopeLAN \<and> in_scope sc ScopeLAN \<longrightarrow> map_of (n_lan st') (svc_name svc) = Some port))"

lemma open_success:
  assumes "open_transports e sc svc s st = Ret (None, s', st')"
  shows "published sc svc s st s' st'"
proof -
  let ?a = "toUDSAddr (publisherName svc) (serviceName svc) (useNamedUDS svc) (svc_providerID svc)"
  from and_then_success [OF assms [unfolded open_transports_def]] obtain s1 st1
    where one: "if_do (in_scope sc ScopeProcess) (newChanTransport svc) s st = Ret (None, s1, st1)"
      and rest: "and_then (if_do (in_scope sc ScopeOS) (newUDSTransport e svc) s1 st1) (\<lambda>s st.
        if_do (in_scope sc ScopeLAN \<or> in_scope sc ScopeWAN) (newTCPTransport e [] svc) s st) = Ret (None, s', st')"
    by blast
  from and_then_success [OF rest] obtain s2 st2
    where two: "if_do (in_scope sc ScopeOS) (newUDSTransport e svc) s1 st1 = Ret (None, s2, st2)"
      and three: "if_do (in_scope sc ScopeLAN \<or> in_scope sc ScopeWAN) (newTCPTransport e [] svc) s2 st2 = Ret (None, s', st')"
    by blast
  have c1: "closers s1 = closers s @ (if in_scope sc ScopeProcess then [CloseChan svc] else []) \<and> n_unix st1 = n_unix st \<and>
      (if in_scope sc ScopeProcess then map_of (n_table st1) (svc_name svc) = Some svc else n_table st1 = n_table st)"
    using if_do_success [OF one] by (auto simp: addCloser_def dest: newChan_success split: if_splits)
  have c2: "closers s2 = closers s1 @ (if in_scope sc ScopeOS then [CloseUDS svc ?a] else []) \<and>
      n_unix st2 = n_unix st1 @ (if in_scope sc ScopeOS then [?a] else []) \<and> n_table st2 = n_table st1"
    using if_do_success [OF two] by (auto simp: addCloser_def Let_def dest: newUDS_success split: if_splits)
  obtain port where "closers s' = closers s2 @ (if in_scope sc ScopeLAN \<or> in_scope sc ScopeWAN then [CloseTCP svc port] else []) \<and>
      n_unix st' = n_unix st2 \<and> n_table st' = n_table st2 \<and>
      (in_scope (svc_scope svc) ScopeLAN \<and> in_scope sc ScopeLAN \<longrightarrow> map_of (n_lan st') (svc_name svc) = Some port)"
  proof (cases "in_scope sc ScopeLAN \<or> in_scope sc ScopeWAN")
    case True
    then have "newTCPTransport e [] svc s2 st2 = Ret (None, s', st')" using if_do_success [OF three] by simp
    from newTCP_success [OF this] True that show ?thesis by (auto simp: addCloser_def)
  next
    case False
    with if_do_success [OF three] that show ?thesis by auto
  qed
  with c1 c2 show ?thesis unfolding published_def Let_def by (intro exI [of _ port]) simp
qed


lemma named_by_option: "useNamedUDS (fold apply_service_option opts svc) \<longleftrightarrow> useNamedUDS svc \<or> UseNamedUDS \<in> set opts"
proof (induction opts arbitrary: svc)
  case (Cons x xs)
  then show ?case by (cases x) auto
qed simp

lemma publish_opens:
  assumes "initialized s" and "UseNamedUDS \<notin> set opts" and "publish e sc p n known opts s st = Ret (None, s', st')"
  shows "open_transports e (scope s AND sc) (fold apply_service_option opts (newService s (scope s AND sc) p n known)) s st = Ret (None, s', st')"
  using assms by (simp add: publish_def if_do_def and_then_def Let_def named_by_option newService_def)

section \<open>Addresses\<close>

lemma str_index_skip: "c \<notin> set u \<Longrightarrow> str_index (u @ c # v) [c] = Some (length u)"
  by (induction u) (auto simp: prefix_Cons)

lemma last_colon_append: "CHR '':'' \<notin> set port \<Longrightarrow> last_colon (host @ CHR '':'' # port) = Some (length host)"
  by (simp add: last_colon_def str_index_skip)

lemma SplitHostPort_plain:
  assumes "CHR '':'' \<notin> set (host @ port)" and "CHR ''['' \<notin> set (host @ port)" and "CHR '']'' \<notin> set (host @ port)"
  shows "SplitHostPort (host @ CHR '':'' # port) = Inr (host, port)"
proof -
  have "\<not> prefix ''['' (host @ CHR '':'' # port)" using assms(2) by (cases host) auto
  then show ?thesis using assms by (simp add: SplitHostPort_def last_colon_append host_port_def Let_def)
qed

section \<open>Properties\<close>

definition demo_env :: env where
  "demo_env = \<lparr>e_selfID = None, e_lanRegistry = False, e_registryInfo = None, e_genID = ''id'', e_listenUDP = \<lambda>p. None,
     e_listenUnix = \<lambda>a. None, e_listenTCP = \<lambda>used p. Inl ''no network'', e_regLAN = None, e_regWAN = None,
     e_reverseProxy = False, e_interfaces = [], e_probe = None, e_numCPU = 1\<rparr>"

definition demo_net :: netState where
  "demo_net = \<lparr>n_table = [], n_unix = [], n_tcp = [], n_udp = [], n_lan = [], n_wan = [], shared_registryAddr = [],
     shared_providerID = [], cachedSelfProviderID = []\<rparr>"

definition demo_server :: Server where
  "demo_server = NewServer [WithScope (ScopeProcess OR ScopeOS)]"

lemma demo_server_fields [simp]:
  "closers demo_server = []" "initialized demo_server = False" "scope demo_server = 3" "srv_publisher demo_server = ''default.org''"
  "enable_rootRegistry demo_server = False" "autoReverseProxy demo_server = False" "serviceLister demo_server = False"
  "ipObserver demo_server = False" "msgTracer demo_server = False" "providerID demo_server = []"
  by (simp_all add: demo_server_def NewServer_def newConf_def ScopeProcess_def ScopeOS_def)

lemma demo_scopes [simp]:
  "in_scope 3 ScopeProcess" "in_scope 3 ScopeOS" "\<not> in_scope 3 ScopeLAN" "\<not> in_scope 3 ScopeWAN" "3 AND 3 = (3 :: Scope)"
  by (simp_all add: in_scope_def ScopeProcess_def ScopeOS_def ScopeLAN_def ScopeWAN_def)

lemma demo_net_fields [simp]: "n_table demo_net = []" "n_unix demo_net = []" "e_listenUnix demo_env a = None"
  by (simp_all add: demo_net_def demo_env_def)

lemma demo_init:
  "\<exists>s. server_init demo_env demo_server demo_net = Ret (None, s, demo_net) \<and> closers s = [CloseMsgQ] \<and> initialized s \<and>
     scope s = 3 \<and> srv_publisher s = ''default.org'' \<and> providerID s = []"
  by (simp add: server_init_def Let_def and_then_def if_do_def addCloser_def)

text \<open>
  C14 (\<open>Serve\<close>, \<open>doClose\<close>): a server that has published services, whether the calls succeeded or returned errors, and is then
  closed or fails while it serves, leaves nothing behind: the process table and the lists of unix,
  TCP and UDP listeners are what they were before it started, and all its closers were called.
\<close>

theorem server_close_releases:
  assumes "fresh_ports e" and "closers s0 = []" and "publications e ps s0 st0 = Ret (s, st)" and "initialized s"
    and "serve_loop ers = Some r"
  shows "\<exists>s' st'. Serve e ers s st = Ret (Some r, s', st') \<and> closers s' = [] \<and>
    map_of (n_table st') = map_of (n_table st0) \<and> n_unix st' = n_unix st0 \<and> n_tcp st' = n_tcp st0 \<and> n_udp st' = n_udp st0"
proof -
  have "owned st0 s0 st0" using assms(2) by (simp add: owned_def listens_on_def map_filter_simps)
  then have o: "owned st0 s st" using publications_owned [OF assms(1) _ assms(3)] by blast
  obtain s' st' where c: "doClose e s st = (s', st')" by force
  have "Serve e ers s st = Ret (Some r, s', st')"
    using assms(4,5) c by (simp add: Serve_def if_do_def)
  moreover have "closers s' = [] \<and> map_of (n_table st') = map_of (n_table st0) \<and> n_unix st' = n_unix st0 \<and>
      n_tcp st' = n_tcp st0 \<and> n_udp st' = n_udp st0"
  proof (cases "closers s = []")
    case True
    then have "s' = s \<and> st' = st" using c by (simp add: doClose_def)
    with True owned_close [OF o, of e] show ?thesis by simp
  next
    case False
    then have "closers s' = [] \<and> st' = fold (close_one e) (closers s) st" using c by (auto simp: doClose_def)
    with owned_close [OF o, of e] show ?thesis by simp
  qed
  ultimately show ?thesis by blast
qed

lemma demo_publication:
  "\<exists>s st. publications demo_env [(None, ''echo'', [TName ''M''], [])] demo_server demo_net = Ret (s, st) \<and> initialized s \<and>
     n_unix st = [''@adaptiveservice/default.org_echo.sock'']"
proof -
  obtain s1 where i: "server_init demo_env demo_server demo_net = Ret (None, s1, demo_net)"
    and f: "closers s1 = [CloseMsgQ]" "initialized s1" "scope s1 = 3" "srv_publisher s1 = ''default.org''" "providerID s1 = []"
    using demo_init by blast
  show ?thesis
    by (simp add: Publish_def publish_def checkNameConvention_def if_do_def and_then_def i f Let_def newService_def open_transports_def
        newChanTransport_def regServiceChan_def newUDSTransport_def toUDSAddr_def udsRegistryAnon_def
        toPublisherServiceName_def addCloser_def)
qed

theorem server_close_releases_witness:
  "\<exists>s st s' st'. publications demo_env [(None, ''echo'', [TName ''M''], [])] demo_server demo_net = Ret (s, st) \<and>
     n_unix st = [''@adaptiveservice/default.org_echo.sock''] \<and>
     Serve demo_env [CustomErrorRecover ''e'' ''s'' True, NoError] s st = Ret (Some None, s', st') \<and> n_unix st' = []"
proof -
  obtain s st where p: "publications demo_env [(None, ''echo'', [TName ''M''], [])] demo_server demo_net = Ret (s, st)"
    and i: "initialized s" and u: "n_unix st = [''@adaptiveservice/default.org_echo.sock'']"
    using demo_publication by blast
  have "fresh_ports demo_env" by (simp add: fresh_ports_def demo_env_def)
  moreover have "serve_loop [CustomErrorRecover ''e'' ''s'' True, NoError] = Some None" by simp
  ultimately obtain s' st' where "Serve demo_env [CustomErrorRecover ''e'' ''s'' True, NoError] s st = Ret (Some None, s', st')"
      "n_unix st' = n_unix demo_net"
    using server_close_releases [OF _ demo_server_fields(1) p i] by blast
  with p u show ?thesis by (auto simp: demo_net_def)
qed

text \<open>
  A successful call opens exactly the transports for the scopes that both the call and the server have: the
  process table maps the name to the service, its unix socket is listened on, and with a network
  scope one TCP listener exists, registered with its port in the LAN registry if the LAN is among
  them; each transport has its closer, in this order.
\<close>

theorem publish_in_scope:
  assumes "initialized s" and "UseNamedUDS \<notin> set opts" and "publish e sc p n known opts s st = Ret (None, s', st')"
  shows "published (scope s AND sc) (fold apply_service_option opts (newService s (scope s AND sc) p n known)) s st s' st'"
  using publish_opens [OF assms] by (rule open_success)

theorem publish_in_scope_witness:
  "\<exists>s s' st'. publish demo_env ScopeProcess ''p'' ''echo'' [TName ''M''] [] s demo_net = Ret (None, s', st') \<and>
     published (scope s AND ScopeProcess) (newService s (scope s AND ScopeProcess) ''p'' ''echo'' [TName ''M'']) s demo_net s' st'"
proof -
  let ?s = "demo_server\<lparr>initialized := True\<rparr>"
  have sc: "3 AND ScopeProcess = ScopeProcess" "in_scope ScopeProcess ScopeProcess" "\<not> in_scope ScopeProcess ScopeOS"
      "\<not> in_scope ScopeProcess ScopeLAN" "\<not> in_scope ScopeProcess ScopeWAN"
    by (simp_all add: in_scope_def ScopeProcess_def ScopeOS_def ScopeLAN_def ScopeWAN_def)
  obtain s' st' where p: "publish demo_env ScopeProcess ''p'' ''echo'' [TName ''M''] [] ?s demo_net = Ret (None, s', st')"
    by (simp add: publish_def if_do_def and_then_def Let_def newService_def open_transports_def newChanTransport_def
        regServiceChan_def sc)
  have "initialized ?s" by simp
  from publish_in_scope [OF this _ p] p show ?thesis by fastforce
qed

end
