(* ===== verification/Tracing.thy ===== *)
theory Tracing
  imports Messages Wildcard
begin

text \<open>
  The client side of message tracing (\<open>messagetracing.go\<close>): which messages start a tracing session and the
  ids they get, the helper goroutine that sends records to the tracing service, and the report that
  \<open>ReadTracedMsg\<close> prints. Parameters are the kinds of the types and how a field prints (reflection and
  \<open>fmt\<close>), the UUID package and the order of equal time stamps after \<open>sort.Slice\<close>.
\<close>

section \<open>Starting a session\<close>

record traceFilter =
  f_field :: string
  f_pattern :: string

record traceConf =
  tc_id :: nat
  tc_count :: "32 word"
  tc_seqNum :: "32 word"
  tc_filters :: "traceFilter list"

text \<open>The map holds pointers, so configurations live in a store that only grows.\<close>

record tracedMsgList =
  tl_types :: "(gotype, nat) gomap"
  tl_confs :: "traceConf list"

datatype gokind = Struct "string list" | OtherKind string

text \<open>The loop over the filters; \<open>names\<close> are the fields of the structure.\<close>

fun parse_filters :: "string list \<Rightarrow> string list \<Rightarrow> string + traceFilter list" where
  "parse_filters names [] = Inr []"
| "parse_filters names (flt # filters) =
     (let strs = split_on CHR ''='' flt in
      if length strs \<noteq> 2 then Inl (flt @ '' format error'')
      else if strs ! 0 \<notin> set names then Inl (''no field '' @ strs ! 0 @ '' found'')
      else case parse_filters names filters of
             Inl e \<Rightarrow> Inl e
           | Inr fs \<Rightarrow> Inr (\<lparr>f_field = strs ! 0, f_pattern = strs ! 1\<rparr> # fs))"

definition elem_type :: "gotype \<Rightarrow> gotype" where
  "elem_type t = (case t of TPtr t' \<Rightarrow> t' | _ \<Rightarrow> t)"

definition trace_filters :: "(gotype \<Rightarrow> gokind) \<Rightarrow> gotype \<Rightarrow> string list \<Rightarrow> string + traceFilter list" where
  "trace_filters kinds rtype filters =
     (if length filters \<noteq> 0 then
        (case kinds (elem_type rtype) of
           OtherKind k \<Rightarrow> Inl (''type '' @ k @ '' not supported'')
         | Struct names \<Rightarrow> parse_filters names filters)
      else Inr [])"

definition trace_token :: "(nat \<Rightarrow> string) \<Rightarrow> nat \<Rightarrow> 32 word \<Rightarrow> string" where
  "trace_token uuid_str i count =
     (if count < 1 then ''NA''
      else if count > 1 then uuid_str i @ ''.0..'' @ show_nat (unat (count - 1))
      else uuid_str i @ ''.0'')"

definition TraceMsgByNameWithFilters ::
  "(gotype \<Rightarrow> gokind) \<Rightarrow> (nat \<Rightarrow> string) \<Rightarrow> string + nat \<Rightarrow> type_registry \<Rightarrow>
   string \<Rightarrow> 32 word \<Rightarrow> string list \<Rightarrow> tracedMsgList \<Rightarrow> (string + string) \<times> tracedMsgList" where
  "TraceMsgByNameWithFilters kinds uuid_str newRandom reg name count filters tml =
     (let count = (if unat count > MaxTracingSessions then of_nat MaxTracingSessions else count) in
      case GetRegisteredTypeByName name reg of
        None \<Rightarrow> (Inl (name @ '' not traceable''), tml)
      | Some rtype \<Rightarrow>
          (case trace_filters kinds rtype filters of
             Inl e \<Rightarrow> (Inl e, tml)
           | Inr traceFilters \<Rightarrow>
               if count < 1 then
                 (Inr (trace_token uuid_str uuid_Nil count), tml\<lparr>tl_types := AList.delete rtype (tl_types tml)\<rparr>)
               else case map_of (tl_types tml) rtype of
                 Some p \<Rightarrow>
                   (let tc = tl_confs tml ! p;
                        count = (if count < tc_seqNum tc then tc_seqNum tc + 1 else count)
                    in (Inr (trace_token uuid_str (tc_id tc) count),
                        tml\<lparr>tl_confs := (tl_confs tml)[p := tc\<lparr>tc_count := count, tc_filters := traceFilters\<rparr>]\<rparr>))
               | None \<Rightarrow>
                   (case newRandom of
                      Inl e \<Rightarrow> (Inl e, tml)
                    | Inr u \<Rightarrow>
                        (Inr (trace_token uuid_str u count),
                         tml\<lparr>tl_types := AList.update rtype (length (tl_confs tml)) (tl_types tml),
                            tl_confs := tl_confs tml @
                              [\<lparr>tc_id = u, tc_count = count, tc_seqNum = 0, tc_filters = traceFilters\<rparr>]\<rparr>))))"

definition TraceMsgByName where
  "TraceMsgByName kinds uuid_str newRandom reg name count =
     TraceMsgByNameWithFilters kinds uuid_str newRandom reg name count []"

definition TraceMsgByType where
  "TraceMsgByType kinds uuid_str newRandom reg msg count =
     TraceMsgByName kinds uuid_str newRandom reg (type_name (type_of msg)) count"

definition TraceMsgByTypeWithFilters where
  "TraceMsgByTypeWithFilters kinds uuid_str newRandom reg msg count filters =
     TraceMsgByNameWithFilters kinds uuid_str newRandom reg (type_name (type_of msg)) count filters"

definition UnTraceMsgAll :: "tracedMsgList \<Rightarrow> tracedMsgList" where
  "UnTraceMsgAll tml = tml\<lparr>tl_types := []\<rparr>"

section \<open>The id of a message\<close>

text \<open>The part of \<open>getTracingID\<close> under the lock.\<close>

definition getTraceConf :: "gotype \<Rightarrow> tracedMsgList \<Rightarrow> nat option \<times> tracedMsgList" where
  "getTraceConf rtype tml =
     (case map_of (tl_types tml) rtype of
        None \<Rightarrow> (None, tml)
      | Some p \<Rightarrow>
          if tc_seqNum (tl_confs tml ! p) \<ge> tc_count (tl_confs tml ! p)
          then (None, tml\<lparr>tl_types := AList.delete rtype (tl_types tml)\<rparr>)
          else (Some p, tml))"

text \<open>\<open>show_field v f\<close> is how \<open>fmt\<close> prints the field \<open>f\<close> of the structure \<open>v\<close>.\<close>

definition filters_match ::
  "(gotype \<Rightarrow> gokind) \<Rightarrow> (govalue \<Rightarrow> string \<Rightarrow> string) \<Rightarrow> traceFilter list \<Rightarrow> govalue \<Rightarrow> bool" where
  "filters_match kinds show_field filters msg =
     (if length filters \<noteq> 0 then
        (case (if is_TPtr (type_of msg) then elem_of msg else Some msg) of
           None \<Rightarrow> False
         | Some rv \<Rightarrow>
             (case kinds (type_of rv) of
                OtherKind k \<Rightarrow> False
              | Struct names \<Rightarrow> list_all (\<lambda>f. WildcardMatch (f_pattern f) (show_field rv (f_field f))) filters))
      else True)"

text \<open>The last two statements: reading the number and, in a step of its own, adding one to it.\<close>

definition read_id :: "nat \<Rightarrow> tracedMsgList \<Rightarrow> uuidInfo" where
  "read_id p tml = \<lparr>u_id = tc_id (tl_confs tml ! p), u_seqNum = tc_seqNum (tl_confs tml ! p)\<rparr>"

definition add_seqNum :: "nat \<Rightarrow> tracedMsgList \<Rightarrow> tracedMsgList" where
  "add_seqNum p tml =
     tml\<lparr>tl_confs := (tl_confs tml)[p := (tl_confs tml ! p)\<lparr>tc_seqNum := tc_seqNum (tl_confs tml ! p) + 1\<rparr>]\<rparr>"

text \<open>\<open>getTracingID\<close> of a goroutine whose local id is \<open>local\<close>, run alone.\<close>

definition getTracingID ::
  "(gotype \<Rightarrow> gokind) \<Rightarrow> (govalue \<Rightarrow> string \<Rightarrow> string) \<Rightarrow> uuidInfo option \<Rightarrow> govalue \<Rightarrow>
   tracedMsgList \<Rightarrow> uuidInfo option \<times> tracedMsgList" where
  "getTracingID kinds show_field local msg tml =
     (case local of
        Some tracingID \<Rightarrow> (Some tracingID, tml)
      | None \<Rightarrow>
          if length (tl_types tml) = 0 then (None, tml)
          else case getTraceConf (type_of msg) tml of
                 (None, tml') \<Rightarrow> (None, tml')
               | (Some p, tml') \<Rightarrow>
                   if \<not> filters_match kinds show_field (tc_filters (tl_confs tml' ! p)) msg then (None, tml')
                   else (Some (read_id p tml'), add_seqNum p tml'))"

fun getTracingIDs ::
  "(gotype \<Rightarrow> gokind) \<Rightarrow> (govalue \<Rightarrow> string \<Rightarrow> string) \<Rightarrow> govalue list \<Rightarrow> tracedMsgList \<Rightarrow> uuidInfo option list" where
  "getTracingIDs kinds show_field [] tml = []"
| "getTracingIDs kinds show_field (m # ms) tml =
     (let (r, tml') = getTracingID kinds show_field None m tml in r # getTracingIDs kinds show_field ms tml')"

section \<open>The helper\<close>

record tracedMsgRaw =
  raw_timeStamp :: int
  raw_msg :: gomsg
  raw_tracingID :: uuidInfo
  raw_tag :: string
  raw_network :: string
  raw_local :: string
  raw_remote :: string

datatype helper_pc = NotStarted | Discovering | Delivering | Taking | Stopped

text \<open>
  \<open>th_pc\<close> is where the goroutine of \<open>runOnce\<close> is; \<open>th_sent\<close> is what \<open>Send\<close> has taken. A stopped helper has
  closed \<open>done\<close> and set \<open>closed\<close>.
\<close>

record msgTraceHelper =
  tracedMsgChan :: "tracedMsgRaw chan option"
  undelivered :: "tracedMessageRecord option"
  failedCount :: nat
  th_pc :: helper_pc
  th_sent :: "tracedMessageRecord list"

definition mTraceHelper :: msgTraceHelper where
  "mTraceHelper = \<lparr>tracedMsgChan = None, undelivered = None, failedCount = 0, th_pc = NotStarted, th_sent = []\<rparr>"

definition th_closed :: "msgTraceHelper \<Rightarrow> bool" where
  "th_closed h \<longleftrightarrow> th_pc h = Stopped"

definition th_buffered :: "msgTraceHelper \<Rightarrow> tracedMsgRaw list" where
  "th_buffered h = (case tracedMsgChan h of None \<Rightarrow> [] | Some ch \<Rightarrow> buffered ch)"

definition th_len :: "msgTraceHelper \<Rightarrow> nat" where
  "th_len h = length (th_buffered h) + (if undelivered h \<noteq> None then 1 else 0)"

definition runOnce :: "msgTraceHelper \<Rightarrow> msgTraceHelper" where
  "runOnce h =
     (if th_pc h = NotStarted then h\<lparr>tracedMsgChan := Some (make_chan 128), th_pc := Discovering\<rparr> else h)"

definition is_record :: "gomsg \<Rightarrow> bool" where
  "is_record msg =
     (case msg of MValue v \<Rightarrow> type_of v = TPtr (TName ''adaptiveservice.tracedMessageRecord'') | MError e \<Rightarrow> False)"

definition traceMsg :: "tracedMsgRaw \<Rightarrow> msgTraceHelper \<Rightarrow> (string option \<times> msgTraceHelper) outcome" where
  "traceMsg raw h =
     (if is_record (raw_msg raw) then Ret (None, h)
      else
        let h = runOnce h in
        if th_closed h then Ret (Some ''Message trace helper closed'', h)
        else case tracedMsgChan h of
               None \<Rightarrow> Ret (Some ''Message trace helper buffer full'', h)
             | Some ch \<Rightarrow>
                 bind_outcome (chan_send raw ch) (\<lambda>r.
                   case r of
                     None \<Rightarrow> Ret (Some ''Message trace helper buffer full'', h)
                   | Some ch' \<Rightarrow> Ret (None, h\<lparr>tracedMsgChan := Some ch'\<rparr>)))"

text \<open>\<open>close\<close> up to where it waits for the helper to stop; closing a nil channel panics.\<close>

definition th_close :: "msgTraceHelper \<Rightarrow> msgTraceHelper outcome" where
  "th_close h =
     (case tracedMsgChan h of
        None \<Rightarrow> Panic ''close of nil channel''
      | Some ch \<Rightarrow> bind_outcome (chan_close ch) (\<lambda>ch'. Ret (h\<lparr>tracedMsgChan := Some ch'\<rparr>)))"

definition make_record :: "(gomsg \<Rightarrow> string) \<Rightarrow> tracedMsgRaw \<Rightarrow> tracedMessageRecord" where
  "make_record show_msg raw =
     \<lparr>r_timeStamp = raw_timeStamp raw, r_msg = show_msg (raw_msg raw), r_tracingID = raw_tracingID raw,
      r_tag = raw_tag raw,
      r_connInfo = raw_network raw @ '': '' @ raw_local raw @ '' <--> '' @ raw_remote raw\<rparr>"

text \<open>What happens when \<open>run\<close> returns an error.\<close>

definition run_failed :: "msgTraceHelper \<Rightarrow> msgTraceHelper" where
  "run_failed h =
     (let n = failedCount h + 1 in
      h\<lparr>failedCount := n, th_pc := (if n \<ge> 3 then Stopped else Discovering)\<rparr>)"

text \<open>
  The steps of the goroutine: the discovery and the delivery, which may fail, and taking the next raw
  message. \<open>None\<close> is a step that is not at hand.
\<close>

datatype helper_step = Discovered bool | Delivered bool | TakeRaw

fun run_step :: "(gomsg \<Rightarrow> string) \<Rightarrow> helper_step \<Rightarrow> msgTraceHelper \<Rightarrow> msgTraceHelper option" where
  "run_step show_msg (Discovered ok) h =
     (if th_pc h \<noteq> Discovering then None
      else if \<not> ok then Some (run_failed h)
      else Some (h\<lparr>th_pc := (if undelivered h \<noteq> None then Delivering else Taking)\<rparr>))"
| "run_step show_msg (Delivered ok) h =
     (if th_pc h \<noteq> Delivering then None
      else case undelivered h of
        None \<Rightarrow> None
      | Some r \<Rightarrow>
          if \<not> ok then Some (run_failed h)
          else Some (h\<lparr>th_sent := th_sent h @ [r], undelivered := None, failedCount := 0, th_pc := Taking\<rparr>))"
| "run_step show_msg TakeRaw h =
     (if th_pc h \<noteq> Taking then None
      else case tracedMsgChan h of
        None \<Rightarrow> None
      | Some ch \<Rightarrow>
          (case chan_recv ch of
             None \<Rightarrow> None
           | Some (None, ch') \<Rightarrow> Some (h\<lparr>tracedMsgChan := Some ch', th_pc := Stopped\<rparr>)
           | Some (Some raw, ch') \<Rightarrow>
               Some (h\<lparr>tracedMsgChan := Some ch', undelivered := Some (make_record show_msg raw), th_pc := Delivering\<rparr>)))"

section \<open>The report\<close>

fun parse_digits :: "string \<Rightarrow> nat \<Rightarrow> nat option" where
  "parse_digits [] n = Some n"
| "parse_digits (c # cs) n =
     (if 48 \<le> (of_char c :: nat) \<and> (of_char c :: nat) \<le> 57 then parse_digits cs (10 * n + (of_char c - 48)) else None)"

text \<open>\<open>strconv.ParseUint(s, 10, 32)\<close>\<close>

definition ParseUint :: "string \<Rightarrow> string + 32 word" where
  "ParseUint s =
     (case (if s = [] then None else parse_digits s 0) of
        None \<Rightarrow> Inl ''invalid syntax''
      | Some n \<Rightarrow> if n < 2 ^ 32 then Inr (of_nat n) else Inl ''value out of range'')"

definition parse_token :: "(string \<Rightarrow> string + nat) \<Rightarrow> string \<Rightarrow> string + uuidInfo" where
  "parse_token uuid_parse token =
     (let fs = split_on CHR ''.'' token in
      if length fs \<noteq> 2 then Inl (token @ '' format error'')
      else case uuid_parse (fs ! 0) of
             Inl e \<Rightarrow> Inl (''parse UUID error: '' @ e)
           | Inr i \<Rightarrow>
               (case ParseUint (fs ! 1) of
                  Inl e \<Rightarrow> Inl (''parse sequence number error: '' @ e)
                | Inr n \<Rightarrow> Inr \<lparr>u_id = i, u_seqNum = n\<rparr>))"

text \<open>The records of all tracing services, which forget what they return.\<close>

fun collect_records :: "uuidInfo \<Rightarrow> messageTracer list \<Rightarrow> messageTracer list \<times> tracedMessageRecord list" where
  "collect_records k [] = ([], [])"
| "collect_records k (t # ts) =
     (let (t', rs) = readTracedMsg_Handle k t; (ts', rs') = collect_records k ts in (t' # ts', rs @ rs'))"

definition newline :: char where "newline = CHR 0x0A"
definition quote :: string where "quote = [CHR 0x22]"

definition record_text :: "(int \<Rightarrow> string) \<Rightarrow> int \<Rightarrow> tracedMessageRecord \<Rightarrow> string" where
  "record_text fmt_time indent rcd =
     fmt_time (r_timeStamp rcd) @ '' '' @ replicate (nat indent) (CHR 0x09) @ ''['' @ r_tag rcd @ ''] |'' @
     r_connInfo rcd @ ''| <'' @ r_msg rcd @ ''>'' @ [newline]"

fun record_lines :: "(int \<Rightarrow> string) \<Rightarrow> int \<Rightarrow> tracedMessageRecord list \<Rightarrow> string" where
  "record_lines fmt_time indent [] = []"
| "record_lines fmt_time indent (rcd # rcds) =
     (let indent = (if r_tag rcd = ''client recv'' then indent - 1 else indent);
          indent = (if indent < 0 then 0 else indent)
      in record_text fmt_time indent rcd @
         record_lines fmt_time (if r_tag rcd = ''client send'' then indent + 1 else indent) rcds)"

text \<open>\<open>shortenMsg\<close>: in each line the expression \<open>\{.*\}\<close> matches from the first opening to the last closing brace.\<close>

definition shorten_line :: "string \<Rightarrow> string" where
  "shorten_line s =
     (let pre = takeWhile (\<lambda>c. c \<noteq> CHR ''{'') s; rest = dropWhile (\<lambda>c. c \<noteq> CHR ''{'') s in
      if CHR ''}'' \<in> set rest then pre @ ''{}'' @ rev (takeWhile (\<lambda>c. c \<noteq> CHR ''}'') (rev rest)) else s)"

definition shortenMsg :: "string \<Rightarrow> string" where
  "shortenMsg msg = str_join (map shorten_line (split_on newline msg)) [newline]"

text \<open>The lines of the summary; \<open>svcs\<close> is the stack of services that are handling a message.\<close>

definition message_text :: "(int \<Rightarrow> string) \<Rightarrow> string \<Rightarrow> tracedMessageRecord \<Rightarrow> string" where
  "message_text fmt_time who rcd =
     quote @ who @ quote @ '': '' @ fmt_time (r_timeStamp rcd) @ '' '' @ shortenMsg (r_msg rcd) @ [newline]"

fun summary_lines :: "(int \<Rightarrow> string) \<Rightarrow> string list \<Rightarrow> tracedMessageRecord list \<Rightarrow> string" where
  "summary_lines fmt_time svcs [] = []"
| "summary_lines fmt_time svcs (rcd # rcds) =
     (let fs = str_fields (r_tag rcd) in
      if length fs \<noteq> 2 then summary_lines fmt_time svcs rcds
      else
        let who = fs ! 0; action = fs ! 1 in
        if action = ''send'' then
          (let ln = length svcs;
               who' = (if ln \<noteq> 0 \<and> who = ''client'' then last svcs else who);
               svcs' = (if ln \<noteq> 0 \<and> who \<noteq> ''client'' then butlast svcs else svcs)
           in quote @ who' @ quote @ '' -> '' @ summary_lines fmt_time svcs' rcds)
        else if action = ''handler'' then
          message_text fmt_time who rcd @ summary_lines fmt_time (svcs @ [who]) rcds
        else if action = ''recv'' then
          (let who' = (if length svcs \<noteq> 0 \<and> who = ''client'' then last svcs else who)
           in message_text fmt_time who' rcd @ summary_lines fmt_time svcs rcds)
        else summary_lines fmt_time svcs rcds)"

definition trace_report :: "(int \<Rightarrow> string) \<Rightarrow> tracedMessageRecord list \<Rightarrow> string" where
  "trace_report fmt_time allRecord =
     (let sb = record_lines fmt_time 0 allRecord in
      if length sb = 0 then []
      else sb @ [newline] @ ''Summary(paste below content to http://www.plantuml.com/plantuml):'' @ [newline] @
           summary_lines fmt_time [] allRecord)"

text \<open>\<open>sort_slice\<close> is \<open>sort.Slice\<close> by time stamp, \<open>tracers\<close> are the tracing services that are found and answer.\<close>

definition ReadTracedMsg ::
  "(string \<Rightarrow> string + nat) \<Rightarrow> (tracedMessageRecord list \<Rightarrow> tracedMessageRecord list) \<Rightarrow> (int \<Rightarrow> string) \<Rightarrow>
   string \<Rightarrow> messageTracer list \<Rightarrow> (string + string) \<times> messageTracer list" where
  "ReadTracedMsg uuid_parse sort_slice fmt_time token tracers =
     (case parse_token uuid_parse token of
        Inl e \<Rightarrow> (Inl e, tracers)
      | Inr k \<Rightarrow>
          (let (tracers', allRecord) = collect_records k tracers
           in (Inr (trace_report fmt_time (sort_slice allRecord)), tracers')))"

definition ReadAllTracedMsg where
  "ReadAllTracedMsg uuid_parse sort_slice fmt_time =
     ReadTracedMsg uuid_parse sort_slice fmt_time ''00000000-0000-0000-0000-000000000000.0''"

section \<open>Sessions\<close>

text \<open>The ids of a session of \<open>n\<close> messages, when \<open>k\<close> ids are taken and \<open>P\<close> says which messages match.\<close>

fun session_ids :: "nat \<Rightarrow> nat \<Rightarrow> nat \<Rightarrow> (govalue \<Rightarrow> bool) \<Rightarrow> govalue list \<Rightarrow> uuidInfo option list" where
  "session_ids u n k P [] = []"
| "session_ids u n k P (m # ms) =
     (if P m \<and> k < n then Some \<lparr>u_id = u, u_seqNum = of_nat k\<rparr> # session_ids u n (Suc k) P ms
      else None # session_ids u n k P ms)"

lemma session_ids_nth:
  "i < length ms \<Longrightarrow> session_ids u n k P ms ! i =
     (let j = k + length (filter P (take i ms)) in
      if P (ms ! i) \<and> j < n then Some \<lparr>u_id = u, u_seqNum = of_nat j\<rparr> else None)"
proof (induction ms arbitrary: i k)
  case (Cons m ms)
  then show ?case by (cases i) (auto simp: Let_def)
qed simp

lemma session_ids_over: "n \<le> k \<Longrightarrow> session_ids u n k P ms = replicate (length ms) None"
  by (induction ms) auto

lemma length_session_ids [simp]: "length (session_ids u n k P ms) = length ms"
  by (induction ms arbitrary: k) auto

lemma unat_Suc_less: "x < y \<Longrightarrow> unat (x + 1) = Suc (unat x)" for x y :: "'a::len word"
proof -
  assume "x < y"
  then have "unat x < unat y" by (simp add: word_less_nat_alt)
  then have "unat x + 1 < 2 ^ LENGTH('a)" using unsigned_less [of y] by (metis Suc_eq_plus1 Suc_lessI less_trans_Suc not_less_eq order_less_trans)
  then show "unat (x + 1) = Suc (unat x)" by (simp add: unat_word_ariths)
qed

lemma getTracingIDs_untraced:
  assumes "map_of (tl_types tml) t = None" and "\<And>m. m \<in> set ms \<Longrightarrow> type_of m = t"
  shows "getTracingIDs kinds sf ms tml = replicate (length ms) None"
  using assms(2)
proof (induction ms)
  case (Cons m ms)
  then have "getTracingID kinds sf None m tml = (None, tml)"
    using assms(1) by (simp add: getTracingID_def getTraceConf_def)
  with Cons show ?case by simp
qed simp

lemma getTracingIDs_session:
  assumes "map_of (tl_types tml) t = Some p" and "p < length (tl_confs tml)"
    and "tl_confs tml ! p = \<lparr>tc_id = u, tc_count = c, tc_seqNum = s, tc_filters = fs\<rparr>"
    and "\<And>m. m \<in> set ms \<Longrightarrow> type_of m = t"
  shows "getTracingIDs kinds sf ms tml = session_ids u (unat c) (unat s) (filters_match kinds sf fs) ms"
  using assms
proof (induction ms arbitrary: tml s)
  case (Cons m ms)
  have ne: "tl_types tml \<noteq> []" using Cons.prems(1) by auto
  have m: "type_of m = t" using Cons.prems(4) by simp
  consider (over) "s \<ge> c" | (no) "s < c" "\<not> filters_match kinds sf fs m" | (match) "s < c" "filters_match kinds sf fs m"
    by force
  then show ?case
  proof cases
    case over
    let ?tml = "tml\<lparr>tl_types := AList.delete t (tl_types tml)\<rparr>"
    have "getTracingID kinds sf None m tml = (None, ?tml)"
      using over Cons.prems ne m by (simp add: getTracingID_def getTraceConf_def)
    moreover have "getTracingIDs kinds sf ms ?tml = replicate (length ms) None"
      using Cons.prems(4) by (intro getTracingIDs_untraced [of _ t]) auto
    moreover have "unat c \<le> unat s" using over by (simp add: word_le_nat_alt)
    ultimately show ?thesis by (simp add: session_ids_over)
  next
    case no
    then have "getTracingID kinds sf None m tml = (None, tml)"
      using Cons.prems ne m by (simp add: getTracingID_def getTraceConf_def)
    then show ?thesis using Cons.IH [OF Cons.prems(1-3)] Cons.prems(4) no by simp
  next
    case match
    let ?tml = "add_seqNum p tml"
    have "getTracingID kinds sf None m tml = (Some \<lparr>u_id = u, u_seqNum = s\<rparr>, ?tml)"
      using match Cons.prems ne m by (simp add: getTracingID_def getTraceConf_def read_id_def)
    moreover have "getTracingIDs kinds sf ms ?tml =
        session_ids u (unat c) (unat (s + 1)) (filters_match kinds sf fs) ms"
      using Cons.prems by (intro Cons.IH) (auto simp: add_seqNum_def)
    ultimately show ?thesis using match unat_Suc_less [OF match(1)] by (simp add: word_less_nat_alt)
  qed
qed simp


section \<open>Ids are given once\<close>

datatype trace_event = TraceOn string "32 word" "string list" "string + nat" | Untrace | Sending govalue

text \<open>A run with the ids given on the way, newest last.\<close>

fun trace_step ::
  "(gotype \<Rightarrow> gokind) \<Rightarrow> (nat \<Rightarrow> string) \<Rightarrow> (govalue \<Rightarrow> string \<Rightarrow> string) \<Rightarrow> type_registry \<Rightarrow>
   tracedMsgList \<times> uuidInfo list \<Rightarrow> trace_event \<Rightarrow> tracedMsgList \<times> uuidInfo list" where
  "trace_step kinds us sf reg (tml, ids) (TraceOn name count filters r) =
     (snd (TraceMsgByNameWithFilters kinds us r reg name count filters tml), ids)"
| "trace_step kinds us sf reg (tml, ids) Untrace = (UnTraceMsgAll tml, ids)"
| "trace_step kinds us sf reg (tml, ids) (Sending m) =
     (case getTracingID kinds sf None m tml of
        (None, tml') \<Rightarrow> (tml', ids)
      | (Some k, tml') \<Rightarrow> (tml', ids @ [k]))"

definition id_given :: "traceConf list \<Rightarrow> uuidInfo \<Rightarrow> bool" where
  "id_given confs k \<longleftrightarrow> (\<exists>c\<in>set confs. u_id k = tc_id c \<and> u_seqNum k < tc_seqNum c)"

text \<open>Every configuration has its own UUID and has given exactly the numbers below its own.\<close>

fun ids_inv :: "tracedMsgList \<times> uuidInfo list \<Rightarrow> bool" where
  "ids_inv (tml, ids) \<longleftrightarrow>
     ran (map_of (tl_types tml)) \<subseteq> {..<length (tl_confs tml)} \<and>
     distinct (map tc_id (tl_confs tml)) \<and> distinct ids \<and>
     (\<forall>k\<in>set ids. id_given (tl_confs tml) k)"

lemma map_list_update_same: "i < length xs \<Longrightarrow> f y = f (xs ! i) \<Longrightarrow> map f (xs[i := y]) = map f xs"
  by (metis list_update_id map_update)

lemma ran_map_of_delete: "ran (map_of (AList.delete k m)) \<subseteq> ran (map_of m)"
  by (auto simp: ran_def split: if_splits)

lemma ran_map_of_update: "ran (map_of (AList.update k v m)) \<subseteq> insert v (ran (map_of m))"
  by (auto simp: ran_def split: if_splits)

lemma confs_witness_update:
  assumes "p < length confs" and "tc_id c = tc_id (confs ! p)" and "tc_seqNum (confs ! p) \<le> tc_seqNum c"
    and "id_given confs k"
  shows "id_given (confs[p := c]) k"
proof -
  obtain i where i: "i < length confs" "u_id k = tc_id (confs ! i)" "u_seqNum k < tc_seqNum (confs ! i)"
    using assms(4) by (auto simp: id_given_def in_set_conv_nth)
  have "confs[p := c] ! i \<in> set (confs[p := c])" using i(1) by simp
  moreover have "u_id k = tc_id (confs[p := c] ! i) \<and> u_seqNum k < tc_seqNum (confs[p := c] ! i)"
    using i assms(1-3) by (cases "i = p") auto
  ultimately show ?thesis unfolding id_given_def by blast
qed

lemma id_given_append: "id_given confs k \<Longrightarrow> id_given (confs @ cs) k"
  by (auto simp: id_given_def)

lemma TraceMsg_cases:
  obtains (same) "snd (TraceMsgByNameWithFilters kinds us r reg name count filters tml) = tml"
    | (del) t where "snd (TraceMsgByNameWithFilters kinds us r reg name count filters tml) =
        tml\<lparr>tl_types := AList.delete t (tl_types tml)\<rparr>"
    | (again) t p n fs where "map_of (tl_types tml) t = Some p"
        "snd (TraceMsgByNameWithFilters kinds us r reg name count filters tml) =
         tml\<lparr>tl_confs := (tl_confs tml)[p := (tl_confs tml ! p)\<lparr>tc_count := n, tc_filters := fs\<rparr>]\<rparr>"
    | (new) t u n fs where "r = Inr u"
        "snd (TraceMsgByNameWithFilters kinds us r reg name count filters tml) =
         tml\<lparr>tl_types := AList.update t (length (tl_confs tml)) (tl_types tml),
           tl_confs := tl_confs tml @ [\<lparr>tc_id = u, tc_count = n, tc_seqNum = 0, tc_filters = fs\<rparr>]\<rparr>"
proof (cases "GetRegisteredTypeByName name reg")
  case None
  then show ?thesis using same by (simp add: TraceMsgByNameWithFilters_def Let_def)
next
  case t: (Some t)
  let ?count = "if unat count > MaxTracingSessions then of_nat MaxTracingSessions else count :: 32 word"
  show ?thesis
  proof (cases "trace_filters kinds t filters")
    case (Inl e)
    then show ?thesis using same t by (simp add: TraceMsgByNameWithFilters_def Let_def)
  next
    case fs: (Inr fs)
    show ?thesis
    proof (cases "?count < 1")
      case True
      then show ?thesis using t fs del [of t] unfolding TraceMsgByNameWithFilters_def Let_def
        by (simp only: option.case sum.case if_True snd_conv)
    next
      case False
      note unf = TraceMsgByNameWithFilters_def Let_def
      show ?thesis
      proof (cases "map_of (tl_types tml) t")
        case None
        show ?thesis
        proof (cases r)
          case (Inl e)
          with None t fs False show ?thesis
            using same unfolding unf by (simp only: option.case sum.case if_False snd_conv)
        next
          case (Inr u)
          with None t fs False show ?thesis
            using new unfolding unf by (simp only: option.case sum.case if_False snd_conv)
        qed
      next
        case (Some p)
        with t fs False show ?thesis
          using again [OF Some] unfolding unf by (simp only: option.case sum.case if_False snd_conv)
      qed
    qed
  qed
qed

lemma ids_inv_TraceOn:
  assumes "ids_inv (tml, ids)" and "\<And>u. r = Inr u \<Longrightarrow> u \<notin> tc_id ` set (tl_confs tml)"
  shows "ids_inv (snd (TraceMsgByNameWithFilters kinds us r reg name count filters tml), ids)"
proof -
  let ?res = "snd (TraceMsgByNameWithFilters kinds us r reg name count filters tml)"
  consider (same) "?res = tml"
    | (del) t where "?res = tml\<lparr>tl_types := AList.delete t (tl_types tml)\<rparr>"
    | (again) t p n fs where "map_of (tl_types tml) t = Some p"
        "?res = tml\<lparr>tl_confs := (tl_confs tml)[p := (tl_confs tml ! p)\<lparr>tc_count := n, tc_filters := fs\<rparr>]\<rparr>"
    | (new) t u n fs where "r = Inr u"
        "?res = tml\<lparr>tl_types := AList.update t (length (tl_confs tml)) (tl_types tml),
           tl_confs := tl_confs tml @ [\<lparr>tc_id = u, tc_count = n, tc_seqNum = 0, tc_filters = fs\<rparr>]\<rparr>"
    by (rule TraceMsg_cases)
  then show ?thesis
  proof cases
    case same
    then show ?thesis using assms by simp
  next
    case del
    then show ?thesis using assms(1) ran_map_of_delete [of t "tl_types tml"] by auto
  next
    case again
    then have p: "p < length (tl_confs tml)" using assms(1) by (auto simp: ran_def)
    show ?thesis
      using assms(1) again(2) p
        confs_witness_update [OF p, of "(tl_confs tml ! p)\<lparr>tc_count := n, tc_filters := fs\<rparr>"]
      by (simp add: map_list_update_same)
  next
    case new
    then show ?thesis
      using assms ran_map_of_update [of t "length (tl_confs tml)" "tl_types tml"]
      by (fastforce intro: id_given_append)
  qed
qed

lemma getTracingID_cases:
  obtains (same) "getTracingID kinds sf None m tml = (None, tml)"
    | (del) t where "getTracingID kinds sf None m tml = (None, tml\<lparr>tl_types := AList.delete t (tl_types tml)\<rparr>)"
    | (some) t p where "map_of (tl_types tml) t = Some p" "tc_seqNum (tl_confs tml ! p) < tc_count (tl_confs tml ! p)"
        "getTracingID kinds sf None m tml = (Some (read_id p tml), add_seqNum p tml)"
  by (fastforce simp: getTracingID_def getTraceConf_def not_le split: option.splits if_splits)

lemma ids_inv_Sending:
  assumes "ids_inv (tml, ids)"
  shows "ids_inv (trace_step kinds us sf reg (tml, ids) (Sending m))"
proof (cases rule: getTracingID_cases [of kinds sf m tml])
    case same
    then show ?thesis using assms by simp
  next
    case (del t)
    then show ?thesis using assms ran_map_of_delete [of t "tl_types tml"] by auto
  next
    case (some t p)
    let ?c = "tl_confs tml ! p"
    let ?c' = "?c\<lparr>tc_seqNum := tc_seqNum ?c + 1\<rparr>"
    have p: "p < length (tl_confs tml)" using some(1) assms by (auto simp: ran_def)
    have s: "tc_seqNum ?c < tc_seqNum ?c + 1"
      using unat_Suc_less [OF some(2)] by (simp add: word_less_nat_alt)
    have "read_id p tml \<notin> set ids"
    proof
      assume "read_id p tml \<in> set ids"
      then have "id_given (tl_confs tml) (read_id p tml)" using assms by simp
      then obtain c where "c \<in> set (tl_confs tml)" "tc_id ?c = tc_id c" "tc_seqNum ?c < tc_seqNum c"
        by (auto simp: id_given_def read_id_def)
      then obtain i where "i < length (tl_confs tml)" "tc_id ?c = tc_id (tl_confs tml ! i)"
          "tc_seqNum ?c < tc_seqNum (tl_confs tml ! i)"
        by (metis in_set_conv_nth)
      moreover from this(1,2) have "i = p"
        using assms p nth_eq_iff_index_eq [of "map tc_id (tl_confs tml)" i p] by simp
      ultimately show False by simp
    qed
    moreover have "id_given ((tl_confs tml)[p := ?c']) k"
      if "k \<in> set (ids @ [read_id p tml])" for k
    proof (cases "k \<in> set ids")
      case True
      then show ?thesis using assms s by (intro confs_witness_update [OF p]) (auto simp: less_imp_le)
    next
      case False
      have "?c' \<in> set ((tl_confs tml)[p := ?c'])" using p by (rule set_update_memI)
      with False that s show ?thesis unfolding id_given_def by (intro bexI [of _ ?c']) (auto simp: read_id_def)
    qed
    ultimately show ?thesis
      using assms some(3) p by (simp add: add_seqNum_def map_list_update_same)
qed

text \<open>The UUIDs that a run takes from the generator.\<close>

definition event_uuid :: "trace_event \<Rightarrow> nat option" where
  "event_uuid e = (case e of TraceOn name count filters (Inr u) \<Rightarrow> Some u | _ \<Rightarrow> None)"

lemma trace_step_confs:
  "tc_id ` set (tl_confs (fst (trace_step kinds us sf reg st e))) \<subseteq>
     tc_id ` set (tl_confs (fst st)) \<union> set_option (event_uuid e)"
proof (cases st)
  case st: (Pair tml ids)
  have upd: "tc_id ` set (xs[p := c]) \<subseteq> tc_id ` set xs" if "tc_id c = tc_id (xs ! p)" for xs p c
  proof (cases "p < length xs")
    case True
    then show ?thesis using that by (metis image_set map_list_update_same order_refl)
  qed (simp add: list_update_beyond)
  show ?thesis
  proof (cases e)
    case (TraceOn name count filters r)
    show ?thesis unfolding st TraceOn fst_conv trace_step.simps
    proof (cases rule: TraceMsg_cases [of kinds us r reg name count filters tml])
      case (again t p n fs)
      then show "tc_id ` set (tl_confs (snd (TraceMsgByNameWithFilters kinds us r reg name count filters tml))) \<subseteq>
          tc_id ` set (tl_confs tml) \<union> set_option (event_uuid (TraceOn name count filters r))"
        using upd [of "(tl_confs tml ! p)\<lparr>tc_count := n, tc_filters := fs\<rparr>" "tl_confs tml" p] by auto
    qed (auto simp: event_uuid_def)
  next
    case (Sending m)
    show ?thesis
    proof (cases rule: getTracingID_cases [of kinds sf m tml])
      case (some t p)
      then show ?thesis
        using upd [of "(tl_confs tml ! p)\<lparr>tc_seqNum := tc_seqNum (tl_confs tml ! p) + 1\<rparr>" "tl_confs tml" p]
        by (auto simp: Sending st add_seqNum_def)
    qed (simp_all add: Sending st)
  qed (simp add: UnTraceMsgAll_def st)
qed

lemma ids_inv_run:
  assumes "ids_inv st" and "distinct (List.map_filter event_uuid es)"
    and "\<And>u. u \<in> tc_id ` set (tl_confs (fst st)) \<Longrightarrow> u \<notin> set (List.map_filter event_uuid es)"
  shows "ids_inv (foldl (trace_step kinds us sf reg) st es)"
  using assms
proof (induction es arbitrary: st)
  case (Cons e es)
  obtain tml ids where st: "st = (tml, ids)" by force
  have mf: "List.map_filter event_uuid (e # es) =
      (case event_uuid e of None \<Rightarrow> [] | Some u \<Rightarrow> [u]) @ List.map_filter event_uuid es"
    by (simp add: map_filter_simps split: option.split)
  have "ids_inv (trace_step kinds us sf reg st e)"
  proof (cases e)
    case (TraceOn name count filters r)
    have "u \<notin> tc_id ` set (tl_confs tml)" if "r = Inr u" for u
      using Cons.prems(3) [of u] that TraceOn st by (auto simp: mf event_uuid_def)
    with Cons.prems(1) show ?thesis unfolding st TraceOn trace_step.simps by (intro ids_inv_TraceOn)
  next
    case Untrace
    with Cons.prems(1) st show ?thesis by (simp add: UnTraceMsgAll_def)
  next
    case (Sending m)
    with Cons.prems(1) st ids_inv_Sending show ?thesis by simp
  qed
  moreover have "u \<notin> set (List.map_filter event_uuid es)"
    if "u \<in> tc_id ` set (tl_confs (fst (trace_step kinds us sf reg st e)))" for u
    using subsetD [OF trace_step_confs that] Cons.prems(2,3) by (auto simp: mf split: option.splits)
  moreover have "distinct (List.map_filter event_uuid es)" using Cons.prems(2) by (simp add: mf split: option.splits)
  ultimately show ?case using Cons.IH by (metis foldl_Cons)
qed simp


section \<open>The helper conserves records\<close>

datatype helper_event = Trace tracedMsgRaw | Step helper_step

text \<open>A run of the helper with callers of \<open>traceMsg\<close>; it collects the messages that were accepted.\<close>

fun helper_run ::
  "(gomsg \<Rightarrow> string) \<Rightarrow> helper_event list \<Rightarrow> msgTraceHelper \<times> tracedMsgRaw list \<Rightarrow> (msgTraceHelper \<times> tracedMsgRaw list) option" where
  "helper_run show_msg [] s = Some s"
| "helper_run show_msg (Trace raw # es) (h, acc) =
     (case traceMsg raw h of
        Panic e \<Rightarrow> None
      | Ret (err, h') \<Rightarrow>
          helper_run show_msg es (h', if err = None \<and> \<not> is_record (raw_msg raw) then acc @ [raw] else acc))"
| "helper_run show_msg (Step s # es) (h, acc) =
     (case run_step show_msg s h of None \<Rightarrow> None | Some h' \<Rightarrow> helper_run show_msg es (h', acc))"

definition helper_inv :: "(gomsg \<Rightarrow> string) \<Rightarrow> msgTraceHelper \<times> tracedMsgRaw list \<Rightarrow> bool" where
  "helper_inv show_msg s \<longleftrightarrow>
     (case s of (h, acc) \<Rightarrow>
        th_sent h @ (case undelivered h of None \<Rightarrow> [] | Some r \<Rightarrow> [r]) @ map (make_record show_msg) (th_buffered h) =
          map (make_record show_msg) acc \<and>
        (th_pc h = NotStarted \<longleftrightarrow> tracedMsgChan h = None) \<and>
        (\<forall>ch. tracedMsgChan h = Some ch \<longrightarrow> \<not> closed ch \<and> length (buffered ch) \<le> 128 \<and> capacity ch = 128) \<and>
        (th_pc h = Delivering \<longleftrightarrow> undelivered h \<noteq> None \<and> th_pc h \<notin> {Discovering, Stopped}) \<and>
        (if th_pc h = Stopped then failedCount h = 3 else failedCount h < 3))"

lemma traceMsg_inv:
  assumes "helper_inv show_msg (h, acc)"
  shows "\<exists>err h'. traceMsg raw h = Ret (err, h') \<and>
    helper_inv show_msg (h', if err = None \<and> \<not> is_record (raw_msg raw) then acc @ [raw] else acc)"
proof (cases "is_record (raw_msg raw)")
  case True
  then show ?thesis using assms by (simp add: traceMsg_def)
next
  case False
  have once: "helper_inv show_msg (runOnce h, acc)"
    using assms by (auto simp: helper_inv_def runOnce_def th_buffered_def make_chan_def)
  show ?thesis
  proof (cases "th_closed (runOnce h)")
    case True
    then show ?thesis using once False by (simp add: traceMsg_def Let_def)
  next
    case open': False
    obtain ch where ch: "tracedMsgChan (runOnce h) = Some ch"
      using once by (cases "tracedMsgChan (runOnce h)") (auto simp: helper_inv_def runOnce_def split: if_splits)
    have cl: "\<not> closed ch" using once ch by (simp add: helper_inv_def)
    show ?thesis
    proof (cases "length (buffered ch) < capacity ch")
      case True
      let ?h = "(runOnce h)\<lparr>tracedMsgChan := Some (ch\<lparr>buffered := buffered ch @ [raw]\<rparr>)\<rparr>"
      have "traceMsg raw h = Ret (None, ?h)"
        using True False open' ch cl by (simp add: traceMsg_def Let_def chan_send_def)
      moreover have "helper_inv show_msg (?h, acc @ [raw])"
        using once ch True open' by (auto simp: helper_inv_def th_buffered_def th_closed_def)
      ultimately show ?thesis using False by simp
    next
      case full: False
      then have "traceMsg raw h = Ret (Some ''Message trace helper buffer full'', runOnce h)"
        using False open' ch cl by (simp add: traceMsg_def Let_def chan_send_def)
      then show ?thesis using once by simp
    qed
  qed
qed

lemma run_step_inv:
  assumes "helper_inv show_msg (h, acc)" and "run_step show_msg s h = Some h'"
  shows "helper_inv show_msg (h', acc)"
proof (cases s)
  case (Discovered ok)
  then show ?thesis using assms
    by (auto simp: helper_inv_def run_failed_def Let_def th_buffered_def split: if_splits)
next
  case (Delivered ok)
  then show ?thesis using assms
    by (auto simp: helper_inv_def run_failed_def Let_def th_buffered_def split: if_splits option.splits)
next
  case TakeRaw
  then obtain ch where pc: "th_pc h = Taking" and ch: "tracedMsgChan h = Some ch"
    using assms(2) by (auto split: if_splits option.splits)
  have u: "undelivered h = None" using assms(1) pc by (auto simp: helper_inv_def)
  have cl: "\<not> closed ch" using assms(1) ch by (simp add: helper_inv_def)
  with TakeRaw assms(2) pc ch obtain raw raws where "buffered ch = raw # raws"
      "h' = h\<lparr>tracedMsgChan := Some (ch\<lparr>buffered := raws\<rparr>), undelivered := Some (make_record show_msg raw), th_pc := Delivering\<rparr>"
    by (auto simp: chan_recv_def split: list.splits)
  then show ?thesis using assms(1) pc ch u by (auto simp: helper_inv_def th_buffered_def)
qed

lemma helper_run_inv:
  "helper_inv show_msg s \<Longrightarrow> helper_run show_msg es s = Some s' \<Longrightarrow> helper_inv show_msg s'"
proof (induction show_msg es s rule: helper_run.induct)
  case (2 show_msg raw es h acc)
  then show ?case using traceMsg_inv [of show_msg h acc raw] by (fastforce split: if_splits)
next
  case (3 show_msg s es h acc)
  then show ?case by (auto split: option.splits dest: run_step_inv)
qed simp


text \<open>Once connected, the helper sends what is buffered.\<close>

lemma helper_drains:
  assumes "th_pc h = Taking" and "tracedMsgChan h = Some ch" and "buffered ch = raws"
  shows "\<exists>h'. helper_run show_msg (concat (replicate (length raws) [Step TakeRaw, Step (Delivered True)])) (h, acc) =
      Some (h', acc) \<and> th_sent h' = th_sent h @ map (make_record show_msg) raws \<and> th_pc h' = Taking"
  using assms
proof (induction raws arbitrary: h ch)
  case (Cons raw raws)
  let ?ch = "ch\<lparr>buffered := raws\<rparr>"
  let ?h1 = "h\<lparr>tracedMsgChan := Some ?ch, undelivered := Some (make_record show_msg raw), th_pc := Delivering\<rparr>"
  let ?h2 = "?h1\<lparr>th_sent := th_sent h @ [make_record show_msg raw], undelivered := None, failedCount := 0, th_pc := Taking\<rparr>"
  have "run_step show_msg TakeRaw h = Some ?h1" using Cons.prems by (simp add: chan_recv_def)
  moreover have "run_step show_msg (Delivered True) ?h1 = Some ?h2" by simp
  moreover obtain h' where "helper_run show_msg (concat (replicate (length raws) [Step TakeRaw, Step (Delivered True)])) (?h2, acc) =
      Some (h', acc)" "th_sent h' = th_sent ?h2 @ map (make_record show_msg) raws" "th_pc h' = Taking"
    using Cons.IH [of ?h2 ?ch] by auto
  ultimately show ?case by (simp del: run_step.simps)
qed simp

section \<open>Call trees\<close>

text \<open>
  A traced call: the service that handles it, the records of the request at the client and at the
  handler, the calls that the handler makes, the records of the reply.
\<close>

datatype call = Call string tracedMessageRecord tracedMessageRecord "call list" tracedMessageRecord tracedMessageRecord

primrec call_records :: "call \<Rightarrow> tracedMessageRecord list" where
  "call_records (Call svc s h subs p r) =
     [s\<lparr>r_tag := ''client send''\<rparr>, h\<lparr>r_tag := svc @ '' handler''\<rparr>] @ concat (map call_records subs) @
     [p\<lparr>r_tag := svc @ '' send''\<rparr>, r\<lparr>r_tag := ''client recv''\<rparr>]"

primrec call_ok :: "call \<Rightarrow> bool" where
  "call_ok (Call svc s h subs p r) \<longleftrightarrow>
     svc \<noteq> [] \<and> list_all (\<lambda>c. \<not> is_space c) svc \<and> svc \<noteq> ''client'' \<and> list_all id (map call_ok subs)"

text \<open>The sequence diagram of a call by \<open>caller\<close>: an arrow there with the request, the inner calls, an arrow back.\<close>

definition arrow :: "(int \<Rightarrow> string) \<Rightarrow> string \<Rightarrow> string \<Rightarrow> tracedMessageRecord \<Rightarrow> string" where
  "arrow fmt_time from to rcd = quote @ from @ quote @ '' -> '' @ message_text fmt_time to rcd"

primrec diagram :: "(int \<Rightarrow> string) \<Rightarrow> call \<Rightarrow> string \<Rightarrow> string" where
  "diagram fmt_time (Call svc s h subs p r) = (\<lambda>caller.
     arrow fmt_time caller svc h @ concat (map (\<lambda>c. c svc) (map (diagram fmt_time) subs)) @ arrow fmt_time svc caller r)"

text \<open>The listing of a call, indented by its depth.\<close>

primrec listing :: "(int \<Rightarrow> string) \<Rightarrow> call \<Rightarrow> nat \<Rightarrow> string" where
  "listing fmt_time (Call svc s h subs p r) = (\<lambda>d.
     record_text fmt_time (int d) (s\<lparr>r_tag := ''client send''\<rparr>) @
     record_text fmt_time (int d + 1) (h\<lparr>r_tag := svc @ '' handler''\<rparr>) @
     concat (map (\<lambda>c. c (Suc d)) (map (listing fmt_time) subs)) @
     record_text fmt_time (int d + 1) (p\<lparr>r_tag := svc @ '' send''\<rparr>) @
     record_text fmt_time (int d) (r\<lparr>r_tag := ''client recv''\<rparr>))"

definition top_of :: "string list \<Rightarrow> string" where
  "top_of svcs = (if svcs = [] then ''client'' else last svcs)"

lemma fields_tag:
  assumes "svc \<noteq> []" and "list_all (\<lambda>c. \<not> is_space c) svc"
  shows "str_fields (svc @ '' handler'') = [svc, ''handler'']" and "str_fields (svc @ '' send'') = [svc, ''send'']"
  using str_fields_word [of svc "CHR '' ''"] assms
  by (simp_all add: list_all_iff is_space_def str_fields_last)

lemma client_tags:
  "str_fields ''client send'' = [''client'', ''send'']" "str_fields ''client recv'' = [''client'', ''recv'']"
  by (simp_all add: str_fields_def is_space_def)

lemma summary_call:
  "call_ok c \<Longrightarrow> summary_lines fmt_time svcs (call_records c @ rs) =
     diagram fmt_time c (top_of svcs) @ summary_lines fmt_time svcs rs"
proof (induction c arbitrary: svcs rs)
  case (Call svc s h subs p r)
  have ok: "svc \<noteq> []" "list_all (\<lambda>c. \<not> is_space c) svc" "svc \<noteq> ''client''" "\<And>c. c \<in> set subs \<Longrightarrow> call_ok c"
    using Call.prems by (auto simp: list_all_iff)
  have inner: "\<forall>c\<in>set cs. c \<in> set subs \<Longrightarrow>
      summary_lines fmt_time (svcs @ [svc]) (concat (map call_records cs) @ rs') =
      concat (map (\<lambda>c. diagram fmt_time c svc) cs) @ summary_lines fmt_time (svcs @ [svc]) rs'" for cs rs'
    by (induction cs) (simp_all add: Call.IH ok(4) top_of_def)
  show ?case
    using ok(3) by (simp add: inner client_tags fields_tag [OF ok(1,2)] Let_def arrow_def top_of_def message_text_def comp_def)
qed

lemma svc_tag:
  assumes "svc \<noteq> ''client''"
  shows "svc @ '' handler'' \<noteq> ''client send''" "svc @ '' handler'' \<noteq> ''client recv''"
    "svc @ '' send'' \<noteq> ''client send''" "svc @ '' send'' \<noteq> ''client recv''"
  using assms append_same_eq [of svc "'' send''" "''client''"]
  by (auto dest: arg_cong [of _ _ rev])

lemma listing_call:
  "call_ok c \<Longrightarrow> record_lines fmt_time (int d) (call_records c @ rs) = listing fmt_time c d @ record_lines fmt_time (int d) rs"
proof (induction c arbitrary: d rs)
  case (Call svc s h subs p r)
  have ok: "svc \<noteq> ''client''" "\<And>c. c \<in> set subs \<Longrightarrow> call_ok c"
    using Call.prems by (auto simp: list_all_iff)
  have inner: "\<forall>c\<in>set cs. c \<in> set subs \<Longrightarrow>
      record_lines fmt_time (int (Suc d)) (concat (map call_records cs) @ rs') =
      concat (map (\<lambda>c. listing fmt_time c (Suc d)) cs) @ record_lines fmt_time (int (Suc d)) rs'" for cs rs'
    by (induction cs) (simp_all del: of_nat_Suc add: Call.IH ok(2))
  show ?case
    using inner [of subs] by (simp add: svc_tag [OF ok(1)] Let_def comp_def add.commute)
qed


section \<open>Properties\<close>

lemma unat_of_min: "n \<le> 4096 \<Longrightarrow> unat (of_nat n :: 32 word) = n"
  by (simp add: unat_of_nat)

text \<open>
  C19 (tracing): starting a session for \<open>count\<close> messages of a type (at most \<open>MaxTracingSessions\<close>) returns a token for
  exactly the ids of the session, and the messages of that type that pass the filters get these ids
  in order, each once, until they are used up; no other message of the type is traced.
\<close>

theorem trace_session:
  assumes "GetRegisteredTypeByName name reg = Some t" and "trace_filters kinds t filters = Inr fs"
    and "map_of (tl_types tml) t = None" and "0 < count" and "n = min (unat count) MaxTracingSessions"
    and "\<And>m. m \<in> set ms \<Longrightarrow> type_of m = t"
  shows "\<exists>tml'. TraceMsgByNameWithFilters kinds us (Inr u) reg name count filters tml =
      (Inr (us u @ (if n = 1 then ''.0'' else ''.0..'' @ show_nat (n - 1))), tml') \<and>
    length (getTracingIDs kinds sf ms tml') = length ms \<and>
    (\<forall>i<length ms. getTracingIDs kinds sf ms tml' ! i =
       (let j = length (filter (filters_match kinds sf fs) (take i ms)) in
        if filters_match kinds sf fs (ms ! i) \<and> j < n then Some \<lparr>u_id = u, u_seqNum = of_nat j\<rparr> else None))"
proof -
  define c where "c = (if unat count > MaxTracingSessions then of_nat MaxTracingSessions else count :: 32 word)"
  have n: "unat c = n" using assms(5) by (auto simp: c_def MaxTracingSessions_def)
  have pos: "0 < unat count" using assms(4) by (simp add: word_less_nat_alt)
  then have "1 \<le> n" using assms(5) by (simp add: MaxTracingSessions_def)
  then have c1: "\<not> c < 1" using n by (simp add: word_less_nat_alt)
  have tok: "trace_token us u c = us u @ (if n = 1 then ''.0'' else ''.0..'' @ show_nat (n - 1))"
    using n \<open>1 \<le> n\<close> c1 by (simp add: trace_token_def word_less_nat_alt unat_sub word_le_nat_alt)
  let ?conf = "\<lparr>tc_id = u, tc_count = c, tc_seqNum = 0, tc_filters = fs\<rparr>"
  let ?tml = "tml\<lparr>tl_types := AList.update t (length (tl_confs tml)) (tl_types tml), tl_confs := tl_confs tml @ [?conf]\<rparr>"
  have "TraceMsgByNameWithFilters kinds us (Inr u) reg name count filters tml = (Inr (trace_token us u c), ?tml)"
    using assms(1-3) c1 unfolding TraceMsgByNameWithFilters_def Let_def c_def by simp
  moreover have "getTracingIDs kinds sf ms ?tml = session_ids u n 0 (filters_match kinds sf fs) ms"
    using getTracingIDs_session [of ?tml t "length (tl_confs tml)" u c 0 fs ms kinds sf] assms(6) n by simp
  ultimately show ?thesis unfolding tok by (simp add: session_ids_nth)
qed

definition demo_reg :: type_registry where
  "demo_reg = RegisterType (TPtr (TName ''main.M'')) []"

theorem trace_session_witness:
  "\<exists>tml'. TraceMsgByNameWithFilters (\<lambda>t. Struct []) (\<lambda>u. ''u'') (Inr 7) demo_reg ''*main.M'' 1 [] \<lparr>tl_types = [], tl_confs = []\<rparr> =
     (Inr ''u.0'', tml') \<and>
   getTracingIDs (\<lambda>t. Struct []) (\<lambda>v f. []) [V (TPtr (TName ''main.M'')) 1, V (TPtr (TName ''main.M'')) 2] tml' ! 0 =
     Some \<lparr>u_id = 7, u_seqNum = 0\<rparr> \<and>
   getTracingIDs (\<lambda>t. Struct []) (\<lambda>v f. []) [V (TPtr (TName ''main.M'')) 1, V (TPtr (TName ''main.M'')) 2] tml' ! 1 = None"
proof -
  let ?ms = "[V (TPtr (TName ''main.M'')) 1, V (TPtr (TName ''main.M'')) 2]"
  have reg: "GetRegisteredTypeByName ''*main.M'' demo_reg = Some (TPtr (TName ''main.M''))"
    by (simp add: GetRegisteredTypeByName_def demo_reg_def RegisterType_def)
  have "trace_filters (\<lambda>t. Struct []) (TPtr (TName ''main.M'')) [] = Inr []" by (simp add: trace_filters_def)
  moreover have "map_of (tl_types \<lparr>tl_types = [], tl_confs = []\<rparr>) (TPtr (TName ''main.M'')) = None" by simp
  moreover have "(0::32 word) < 1" and "1 = min (unat (1::32 word)) MaxTracingSessions"
    by (simp_all add: MaxTracingSessions_def)
  moreover have "type_of m = TPtr (TName ''main.M'')" if "m \<in> set ?ms" for m using that by auto
  ultimately obtain tml' where t: "TraceMsgByNameWithFilters (\<lambda>t. Struct []) (\<lambda>u. ''u'') (Inr 7) demo_reg ''*main.M'' 1 []
      \<lparr>tl_types = [], tl_confs = []\<rparr> = (Inr (''u'' @ (if (1::nat) = 1 then ''.0'' else ''.0..'' @ show_nat (1 - 1))), tml')"
    and i: "\<forall>i<length ?ms. getTracingIDs (\<lambda>t. Struct []) (\<lambda>v f. []) ?ms tml' ! i =
       (let j = length (filter (filters_match (\<lambda>t. Struct []) (\<lambda>v f. []) []) (take i ?ms)) in
        if filters_match (\<lambda>t. Struct []) (\<lambda>v f. []) [] (?ms ! i) \<and> j < 1 then Some \<lparr>u_id = 7, u_seqNum = of_nat j\<rparr> else None)"
    using trace_session [OF reg] by blast
  have "getTracingIDs (\<lambda>t. Struct []) (\<lambda>v f. []) ?ms tml' ! 0 = Some \<lparr>u_id = 7, u_seqNum = 0\<rparr>"
    using i [rule_format, of 0] by (simp add: filters_match_def del: getTracingIDs.simps)
  moreover have "getTracingIDs (\<lambda>t. Struct []) (\<lambda>v f. []) ?ms tml' ! 1 = None"
    using i [rule_format, of 1] by (simp add: filters_match_def del: getTracingIDs.simps)
  moreover have "TraceMsgByNameWithFilters (\<lambda>t. Struct []) (\<lambda>u. ''u'') (Inr 7) demo_reg ''*main.M'' 1 []
      \<lparr>tl_types = [], tl_confs = []\<rparr> = (Inr ''u.0'', tml')"
    using t by simp
  ultimately show ?thesis by blast
qed



text \<open>
  A session of which all ids are used cannot be started again with the same count: the call returns its token
  as if it had, but the next message is not traced and the type is forgotten. So tracing one message,
  sending it, and tracing one message again traces nothing.
\<close>

theorem used_up_session_not_restarted:
  assumes "GetRegisteredTypeByName name reg = Some t" and "trace_filters kinds t filters = Inr fs"
    and "map_of (tl_types tml) t = Some p" and "p < length (tl_confs tml)"
    and "tc_seqNum (tl_confs tml ! p) = count" and "1 \<le> unat count" and "unat count \<le> MaxTracingSessions"
    and "type_of m = t"
  shows "\<exists>tml' tml''. TraceMsgByNameWithFilters kinds us r reg name count filters tml =
      (Inr (trace_token us (tc_id (tl_confs tml ! p)) count), tml') \<and>
    getTracingID kinds sf None m tml' = (None, tml'') \<and> map_of (tl_types tml'') t = None"
proof -
  let ?tml = "tml\<lparr>tl_confs := (tl_confs tml)[p := (tl_confs tml ! p)\<lparr>tc_count := count, tc_filters := fs\<rparr>]\<rparr>"
  have "\<not> count < 1" using assms(6) by (simp add: word_less_nat_alt)
  then have "TraceMsgByNameWithFilters kinds us r reg name count filters tml =
      (Inr (trace_token us (tc_id (tl_confs tml ! p)) count), ?tml)"
    using assms unfolding TraceMsgByNameWithFilters_def Let_def by simp
  moreover have "getTracingID kinds sf None m ?tml = (None, ?tml\<lparr>tl_types := AList.delete t (tl_types tml)\<rparr>)"
    using assms by (auto simp: getTracingID_def getTraceConf_def)
  ultimately show ?thesis by simp
qed


theorem used_up_session_not_restarted_witness:
  "\<exists>tml' tml''. TraceMsgByNameWithFilters (\<lambda>t. Struct []) (\<lambda>u. ''u'') (Inr 8) demo_reg ''*main.M'' 1 []
      \<lparr>tl_types = [(TPtr (TName ''main.M''), 0)], tl_confs = [\<lparr>tc_id = 7, tc_count = 1, tc_seqNum = 1, tc_filters = []\<rparr>]\<rparr> =
      (Inr ''u.0'', tml') \<and>
    getTracingID (\<lambda>t. Struct []) (\<lambda>v f. []) None (V (TPtr (TName ''main.M'')) 1) tml' = (None, tml'') \<and>
    map_of (tl_types tml'') (TPtr (TName ''main.M'')) = None"
proof -
  let ?tml = "\<lparr>tl_types = [(TPtr (TName ''main.M''), 0)], tl_confs = [\<lparr>tc_id = 7, tc_count = 1, tc_seqNum = 1, tc_filters = []\<rparr>]\<rparr>"
  have "GetRegisteredTypeByName ''*main.M'' demo_reg = Some (TPtr (TName ''main.M''))"
    by (simp add: GetRegisteredTypeByName_def demo_reg_def RegisterType_def)
  moreover have "trace_token (\<lambda>u. ''u'') (tc_id (tl_confs ?tml ! 0)) 1 = ''u.0''"
    by (simp add: trace_token_def)
  ultimately show ?thesis
    using used_up_session_not_restarted [of "''*main.M''" demo_reg "TPtr (TName ''main.M'')" "\<lambda>t. Struct []" "[]" "[]"
        ?tml 0 1 "V (TPtr (TName ''main.M'')) 1" "\<lambda>u. ''u''" "Inr 8" "\<lambda>v f. []"]
    by (simp add: trace_filters_def MaxTracingSessions_def)
qed

text \<open>
  C26 (tracing): whatever the callers and the helper do, every accepted message is sent, being delivered, or buffered, once and
  in order; the helper stops exactly at its third failure in a row without a delivery in between, and
  then refuses; it never panics, and while it is connected it can send all that is buffered.
\<close>

theorem trace_helper_conserves:
  assumes "helper_run show_msg es (mTraceHelper, []) = Some (h, acc)"
  shows "th_sent h @ (case undelivered h of None \<Rightarrow> [] | Some r \<Rightarrow> [r]) @ map (make_record show_msg) (th_buffered h) =
      map (make_record show_msg) acc \<and>
    length (th_buffered h) \<le> 128 \<and> failedCount h \<le> 3 \<and> (th_closed h \<longleftrightarrow> failedCount h = 3) \<and>
    (\<exists>err h'. traceMsg raw h = Ret (err, h') \<and> (th_closed h \<and> \<not> is_record (raw_msg raw) \<longrightarrow> err \<noteq> None \<and> h' = h)) \<and>
    (th_pc h = Taking \<longrightarrow>
      (\<exists>h'. helper_run show_msg (concat (replicate (length (th_buffered h)) [Step TakeRaw, Step (Delivered True)])) (h, acc) =
         Some (h', acc) \<and> th_sent h' = map (make_record show_msg) acc))"
proof -
  have "helper_inv show_msg (mTraceHelper, [])"
    by (simp add: helper_inv_def mTraceHelper_def th_buffered_def)
  from helper_run_inv [OF this assms] have inv: "helper_inv show_msg (h, acc)" .
  then have eq: "th_sent h @ (case undelivered h of None \<Rightarrow> [] | Some r \<Rightarrow> [r]) @ map (make_record show_msg) (th_buffered h) =
      map (make_record show_msg) acc" by (simp add: helper_inv_def)
  have "length (th_buffered h) \<le> 128" "failedCount h \<le> 3" "th_closed h \<longleftrightarrow> failedCount h = 3"
    using inv by (auto simp: helper_inv_def th_buffered_def th_closed_def split: option.splits if_splits)
  moreover have "\<exists>err h'. traceMsg raw h = Ret (err, h') \<and> (th_closed h \<and> \<not> is_record (raw_msg raw) \<longrightarrow> err \<noteq> None \<and> h' = h)"
  proof (cases "th_closed h \<and> \<not> is_record (raw_msg raw)")
    case True
    then show ?thesis by (simp add: traceMsg_def runOnce_def Let_def th_closed_def)
  next
    case False
    then show ?thesis using traceMsg_inv [OF inv, of raw] by auto
  qed
  moreover have "\<exists>h'. helper_run show_msg (concat (replicate (length (th_buffered h)) [Step TakeRaw, Step (Delivered True)])) (h, acc) =
         Some (h', acc) \<and> th_sent h' = map (make_record show_msg) acc" if pc: "th_pc h = Taking"
  proof -
    obtain ch where ch: "tracedMsgChan h = Some ch" using inv pc by (auto simp: helper_inv_def)
    have u: "undelivered h = None" using inv pc by (auto simp: helper_inv_def)
    have b: "th_buffered h = buffered ch" using ch by (simp add: th_buffered_def)
    obtain h' where "helper_run show_msg (concat (replicate (length (buffered ch)) [Step TakeRaw, Step (Delivered True)])) (h, acc) =
        Some (h', acc)" "th_sent h' = th_sent h @ map (make_record show_msg) (buffered ch)"
      using helper_drains [OF pc ch refl] by blast
    with eq u b show ?thesis by simp
  qed
  ultimately show ?thesis using eq by simp
qed

definition demo_raw :: tracedMsgRaw where
  "demo_raw = \<lparr>raw_timeStamp = 1, raw_msg = MValue (V (TName ''M'') 1), raw_tracingID = \<lparr>u_id = 7, u_seqNum = 0\<rparr>,
     raw_tag = ''client send'', raw_network = ''tcp'', raw_local = ''a'', raw_remote = ''b''\<rparr>"

theorem trace_helper_conserves_witness:
  "\<exists>h. helper_run (\<lambda>m. ''m'') [Trace demo_raw, Step (Discovered False), Step (Discovered True), Step TakeRaw, Step (Delivered True)]
      (mTraceHelper, []) = Some (h, [demo_raw]) \<and>
    th_sent h @ (case undelivered h of None \<Rightarrow> [] | Some r \<Rightarrow> [r]) @ map (make_record (\<lambda>m. ''m'')) (th_buffered h) =
      [make_record (\<lambda>m. ''m'') demo_raw]"
proof -
  obtain h where h: "helper_run (\<lambda>m. ''m'') [Trace demo_raw, Step (Discovered False), Step (Discovered True), Step TakeRaw, Step (Delivered True)]
      (mTraceHelper, []) = Some (h, [demo_raw])"
    by (simp add: traceMsg_def runOnce_def mTraceHelper_def is_record_def demo_raw_def th_closed_def chan_send_def
        make_chan_def run_failed_def chan_recv_def Let_def)
  from trace_helper_conserves [OF h] have "th_sent h @ (case undelivered h of None \<Rightarrow> [] | Some r \<Rightarrow> [r]) @
      map (make_record (\<lambda>m. ''m'')) (th_buffered h) = map (make_record (\<lambda>m. ''m'')) [demo_raw]" by blast
  with h show ?thesis by auto
qed

text \<open>The report of the records of nested calls.\<close>

lemma trace_report_calls:
  assumes "list_all call_ok calls" and "calls \<noteq> []"
  shows "trace_report fmt_time (concat (map call_records calls)) =
    concat (map (\<lambda>c. listing fmt_time c 0) calls) @ [newline] @
    ''Summary(paste below content to http://www.plantuml.com/plantuml):'' @ [newline] @
    concat (map (\<lambda>c. diagram fmt_time c ''client'') calls)"
proof -
  have l: "list_all call_ok cs \<Longrightarrow> record_lines fmt_time 0 (concat (map call_records cs)) =
      concat (map (\<lambda>c. listing fmt_time c 0) cs)" for cs
    by (induction cs) (use listing_call [where d = 0] in \<open>auto\<close>)
  have d: "list_all call_ok cs \<Longrightarrow> summary_lines fmt_time [] (concat (map call_records cs)) =
      concat (map (\<lambda>c. diagram fmt_time c ''client'') cs)" for cs
    by (induction cs) (auto simp: summary_call top_of_def)
  obtain c cs where c: "calls = c # cs" using assms(2) by (cases calls) auto
  have "listing fmt_time c 0 \<noteq> []" by (cases c) (simp add: record_text_def)
  with c l [OF assms(1)] d [OF assms(1)] show ?thesis by (simp add: trace_report_def Let_def)
qed

definition demo_rec :: "int \<Rightarrow> tracedMessageRecord" where
  "demo_rec t = \<lparr>r_timeStamp = t, r_msg = ''m{1}'', r_tracingID = \<lparr>u_id = 7, u_seqNum = 0\<rparr>, r_tag = [], r_connInfo = ''c''\<rparr>"

end
