(* ===== verification/RequestReply.thy ===== *)
theory RequestReply
  imports Server Tracing
begin

text \<open>
  The way of a request through the components, over the channel transport: the client's stream, the
  goroutine of the connection, the message queue, a worker (\<open>msgQ.worker\<close> in \<open>scalamsgq.go\<close>) with the
  message's handler, and the way of the reply back. Channels that two components share are handed
  over between the steps.
\<close>

section \<open>The worker\<close>

text \<open>
  A worker evaluates \<open>getEgressChan\<close> and receives from it; the two steps of the queue's model that
  belong together when no other worker runs in between.
\<close>

definition worker_take :: "'m msgQ_log \<Rightarrow> ('m metaKnownMsg \<times> 'm msgQ_log) option" where
  "worker_take mq =
     (let mq = worker_select mq in
      case egressChan mq of
        None \<Rightarrow> map_option (\<lambda>(m, mq'). (m, mq'\<lparr>waitN := waitN mq - 1, handled := handled mq @ [m]\<rparr>)) (recv_class Normal mq)
      | Some ch \<Rightarrow> map_option (\<lambda>(m, ch'). (m, mq\<lparr>egressChan := Some ch', waitE := waitE mq - 1, handled := handled mq @ [m]\<rparr>))
                    (try_recv ch))"

text \<open>
  What the worker does with a message: trace it, remember its tracing id for the goroutine, call the
  handler, send its reply through the message's stream if there is one. The handler works on the state of the service; \<open>new_tid\<close> is
  what \<open>getTracingID\<close> gives a reply when the goroutine has no id.
\<close>

definition worker_handle ::
  "(uuidInfo option \<Rightarrow> gomsg \<Rightarrow> serverSide \<Rightarrow> (goerror option \<times> serverSide) option) \<Rightarrow> (gomsg \<Rightarrow> uuidInfo option) \<Rightarrow>
   ('h \<Rightarrow> gomsg \<Rightarrow> 'h \<times> gomsg option) \<Rightarrow> metaMsg \<Rightarrow> serverSide \<Rightarrow> 'h \<Rightarrow> (serverSide \<times> 'h) option" where
  "worker_handle send new_tid handle mm ss h =
     (let tid = getTracingID_feats (mm_feats mm);
          ss = ss\<lparr>sv_traced := note_trace tid (sv_who ss @ '' handler'') (mm_msg mm) (sv_traced ss), sv_routine := tid\<rparr>;
          (h', reply) = handle h (mm_msg mm)
      in case reply of
           None \<Rightarrow> Some (ss, h')
         | Some r \<Rightarrow>
             map_option (\<lambda>(e, ss'). (ss', h'))
               (send (case sv_routine ss of Some u \<Rightarrow> Some u | None \<Rightarrow> new_tid r) r ss))"

section \<open>One request\<close>

record 'h chanSystem =
  sy_cs :: chanClientStream
  sy_conn :: "nat chanConn"
  sy_mq :: "(nat \<times> metaMsg) msgQ_log"
  sy_ss :: serverSide
  sy_h :: 'h

definition mk_known :: "(gomsg \<Rightarrow> bool) \<Rightarrow> (gomsg \<Rightarrow> bool) \<Rightarrow> nat \<times> metaMsg \<Rightarrow> (nat \<times> metaMsg) metaKnownMsg" where
  "mk_known high low x =
     \<lparr>msg = x, isHighPriority = high (mm_msg (snd x)), isLowPriority = low (mm_msg (snd x))\<rparr>"

text \<open>The connection takes what the client sent and hands the known messages to the queue.\<close>

definition serve_turn ::
  "(gotype \<Rightarrow> bool) \<Rightarrow> service \<Rightarrow> govalue \<Rightarrow> (gomsg \<Rightarrow> bool) \<Rightarrow> (gomsg \<Rightarrow> bool) \<Rightarrow> 'h chanSystem \<Rightarrow> 'h chanSystem option" where
  "serve_turn handles svc mqv high low sys =
     (case chan_turn handles svc mqv (svc_qsize svc) Incoming ((sy_conn sys)\<lparr>cc_recv := cs_serverChan (sy_cs sys)\<rparr>) of
        None \<Rightarrow> None
      | Some c \<Rightarrow>
          (let new = drop (length (enqueued (cc_state (sy_conn sys)))) (enqueued (cc_state c));
               sys = sys\<lparr>sy_conn := c, sy_cs := (sy_cs sys)\<lparr>cs_serverChan := cc_recv c\<rparr>\<rparr>
           in map_option (\<lambda>mq. sys\<lparr>sy_mq := mq\<rparr>)
                (fold (\<lambda>x r. Option.bind r (putMetaMsg (mk_known high low x))) new (Some (sy_mq sys)))))"

text \<open>A worker takes the next message and handles it; what it sends goes to the client's channel.\<close>

definition work_turn ::
  "(gomsg \<Rightarrow> uuidInfo option) \<Rightarrow> ('h \<Rightarrow> gomsg \<Rightarrow> 'h \<times> gomsg option) \<Rightarrow> 'h chanSystem \<Rightarrow> 'h chanSystem option" where
  "work_turn new_tid handle sys =
     (case (worker_take (sy_mq sys), cs_msgChan (sy_cs sys)) of
        (Some (km, mq), Some ch) \<Rightarrow>
          (case worker_handle (\<lambda>tid. chanServer_Send tid (capacity ch - length (buffered ch))) new_tid handle (snd (msg km)) (sy_ss sys) (sy_h sys) of
             None \<Rightarrow> None
           | Some (ss, h) \<Rightarrow>
               (let sent = drop (length (sv_sent (sy_ss sys))) (sv_sent ss) in
                Some (sys\<lparr>sy_mq := mq, sy_ss := ss, sy_h := h,
                  sy_cs := (sy_cs sys)\<lparr>cs_msgChan := Some (ch\<lparr>buffered := buffered ch @ sent\<rparr>)\<rparr>\<rparr>)))
      | _ \<Rightarrow> None)"

text \<open>\<open>SendRecv\<close> of the client with the server's turns in between.\<close>

definition chan_request ::
  "(gotype \<Rightarrow> bool) \<Rightarrow> service \<Rightarrow> govalue \<Rightarrow> (gomsg \<Rightarrow> bool) \<Rightarrow> (gomsg \<Rightarrow> bool) \<Rightarrow> (gomsg \<Rightarrow> uuidInfo option) \<Rightarrow>
   ('h \<Rightarrow> gomsg \<Rightarrow> 'h \<times> gomsg option) \<Rightarrow> uuidInfo option \<Rightarrow> target \<Rightarrow> gomsg \<Rightarrow> 'h chanSystem \<Rightarrow> (recv_result \<times> 'h chanSystem) option" where
  "chan_request handles svc mqv high low new_tid handle tid p m sys =
     (case chanClient_Send (\<lambda>m. m) tid m (sy_cs sys) of
        Ret (Some (None, cs)) \<Rightarrow>
          (case Option.bind (serve_turn handles svc mqv high low (sys\<lparr>sy_cs := cs\<rparr>)) (work_turn new_tid handle) of
             None \<Rightarrow> None
           | Some sys \<Rightarrow>
               (case chanClient_Recv TakeMsg p (sy_cs sys) of
                  Ret (Some (res, cs)) \<Rightarrow> Some (res, sys\<lparr>sy_cs := cs\<rparr>)
                | _ \<Rightarrow> None))
      | _ \<Rightarrow> None)"

section \<open>A system at rest\<close>

definition empty_chan :: "'a chan \<Rightarrow> bool" where
  "empty_chan ch \<longleftrightarrow> buffered ch = [] \<and> \<not> closed ch \<and> 0 < capacity ch"

definition at_rest :: "'h chanSystem \<Rightarrow> bool" where
  "at_rest sys \<longleftrightarrow>
     (\<exists>ch. cs_msgChan (sy_cs sys) = Some ch \<and> empty_chan ch) \<and> empty_chan (cs_serverChan (sy_cs sys)) \<and>
     \<not> cs_deepCopy (sy_cs sys) \<and> \<not> cc_ended (sy_conn sys) \<and>
     egressChan (sy_mq sys) = None \<and> empty_chan (ingressNormalChan (sy_mq sys)) \<and> sv_connClose (sy_ss sys) \<noteq> CCNil"

text \<open>A known message of normal priority.\<close>

definition plain_request :: "(gotype \<Rightarrow> bool) \<Rightarrow> service \<Rightarrow> (gomsg \<Rightarrow> bool) \<Rightarrow> (gomsg \<Rightarrow> bool) \<Rightarrow> gomsg \<Rightarrow> bool" where
  "plain_request handles svc high low m \<longleftrightarrow>
     canHandle handles svc m \<and> \<not> is_streamCloseMsg m \<and> \<not> high m \<and> \<not> low m"

lemma serve_turn_rest:
  assumes "buffered (cs_serverChan (sy_cs sys)) = [tm]" and "\<not> cc_ended (sy_conn sys)"
    and "plain_request handles svc high low (tm_msg tm)" and "empty_chan (ingressNormalChan (sy_mq sys))"
  shows "\<exists>c. serve_turn handles svc mqv high low sys = Some (sys\<lparr>sy_conn := c,
      sy_cs := (sy_cs sys)\<lparr>cs_serverChan := (cs_serverChan (sy_cs sys))\<lparr>buffered := []\<rparr>\<rparr>,
      sy_mq := (sy_mq sys)\<lparr>ingressNormalChan := (ingressNormalChan (sy_mq sys))\<lparr>buffered := [mk_known high low (tm_chan tm, meta tm)]\<rparr>\<rparr>\<rparr>) \<and>
    \<not> cc_ended c"
proof -
  let ?c0 = "(sy_conn sys)\<lparr>cc_recv := cs_serverChan (sy_cs sys)\<rparr>"
  obtain ss st1 where g: "get_stream svc mqv (svc_qsize svc) (tm_chan tm) (cc_state (sy_conn sys)) = (ss, st1)" by force
  have e: "enqueued st1 = enqueued (cc_state (sy_conn sys))"
    using g by (auto simp: get_stream_def Let_def split: option.splits)
  let ?st = "st1\<lparr>enqueued := enqueued st1 @ [(tm_chan tm, meta tm)]\<rparr>"
  have "chan_dispatch handles svc mqv (svc_qsize svc) tm (cc_state (sy_conn sys)) = Some ?st"
    using assms(3) g by (simp add: chan_dispatch_def plain_request_def meta_def)
  then have t: "chan_turn handles svc mqv (svc_qsize svc) Incoming ?c0 =
      Some (?c0\<lparr>cc_recv := (cs_serverChan (sy_cs sys))\<lparr>buffered := []\<rparr>, cc_state := ?st\<rparr>)"
    using assms(1,2) by (simp add: chan_turn_def chan_recv_def)
  have put: "putMetaMsg (mk_known high low (tm_chan tm, meta tm)) (sy_mq sys) = Some ((sy_mq sys)\<lparr>ingressNormalChan :=
      (ingressNormalChan (sy_mq sys))\<lparr>buffered := [mk_known high low (tm_chan tm, meta tm)]\<rparr>\<rparr>)"
    using assms(3,4)
    by (simp add: putMetaMsg_def class_of_def mk_known_def plain_request_def meta_def try_send_def chan_send_def empty_chan_def)
  show ?thesis
    using assms(2)
    by (intro exI [of _ "?c0\<lparr>cc_recv := (cs_serverChan (sy_cs sys))\<lparr>buffered := []\<rparr>, cc_state := ?st\<rparr>"])
       (simp add: serve_turn_def t e put Let_def)
qed

text \<open>The tracing id of the reply: the request's, which the worker's goroutine remembers, or a new one.\<close>

definition reply_tid :: "(gomsg \<Rightarrow> uuidInfo option) \<Rightarrow> uuidInfo option \<Rightarrow> gomsg \<Rightarrow> uuidInfo option" where
  "reply_tid new_tid tid r = (case tid of Some u \<Rightarrow> Some u | None \<Rightarrow> new_tid r)"

lemma getTracingID_mk_feats [simp]: "getTracingID_feats (mk_feats tid) = tid"
  by (simp add: getTracingID_feats_def mk_feats_def split: option.splits)

lemma worker_take_rest:
  assumes "egressChan mq = None" and "buffered (ingressNormalChan mq) = [km]"
  shows "worker_take mq = Some (km, mq\<lparr>ingressNormalChan := (ingressNormalChan mq)\<lparr>buffered := []\<rparr>,
    handled := handled mq @ [km]\<rparr>)"
  using assms
  by (simp add: worker_take_def worker_select_def getEgressChan_def Let_def recv_class_def try_recv_def chan_recv_def)

text \<open>The server's stream after the handler's reply.\<close>

definition served :: "uuidInfo option \<Rightarrow> uuidInfo option \<Rightarrow> gomsg \<Rightarrow> gomsg \<Rightarrow> serverSide \<Rightarrow> serverSide" where
  "served tid rtid m r ss =
     ss\<lparr>sv_traced := note_trace rtid (sv_who ss @ '' send'') r (note_trace tid (sv_who ss @ '' handler'') m (sv_traced ss)),
        sv_routine := tid, sv_sent := sv_sent ss @ [\<lparr>mm_msg = r, mm_feats = mk_feats rtid\<rparr>]\<rparr>"

lemma worker_handle_replies:
  assumes "sv_connClose ss \<noteq> CCNil" and "0 < room" and "handle h m = (h', Some r)"
  shows "worker_handle (\<lambda>tid. chanServer_Send tid room) new_tid handle \<lparr>mm_msg = m, mm_feats = mk_feats tid\<rparr> ss h =
    Some (served tid (reply_tid new_tid tid r) m r ss, h')"
  using assms by (simp add: worker_handle_def chanServer_Send_def served_def reply_tid_def Let_def)

lemma work_turn_rest:
  assumes "egressChan (sy_mq sys) = None" and "buffered (ingressNormalChan (sy_mq sys)) = [km]"
    and "cs_msgChan (sy_cs sys) = Some ch" and "empty_chan ch" and "sv_connClose (sy_ss sys) \<noteq> CCNil"
    and "snd (msg km) = \<lparr>mm_msg = m, mm_feats = mk_feats tid\<rparr>" and "handle (sy_h sys) m = (h', Some r)"
  shows "work_turn new_tid handle sys = Some (sys\<lparr>
      sy_mq := (sy_mq sys)\<lparr>ingressNormalChan := (ingressNormalChan (sy_mq sys))\<lparr>buffered := []\<rparr>, handled := handled (sy_mq sys) @ [km]\<rparr>,
      sy_ss := served tid (reply_tid new_tid tid r) m r (sy_ss sys), sy_h := h',
      sy_cs := (sy_cs sys)\<lparr>cs_msgChan := Some (ch\<lparr>buffered := [\<lparr>mm_msg = r, mm_feats = mk_feats (reply_tid new_tid tid r)\<rparr>]\<rparr>)\<rparr>\<rparr>)"
  using assms by (simp add: work_turn_def worker_take_rest worker_handle_replies empty_chan_def Let_def) (simp add: served_def)

text \<open>The traces of one request: the client's sending, the handler, the reply's sending, the client's receiving.\<close>

lemma chan_request_rest:
  fixes new_tid :: "gomsg \<Rightarrow> uuidInfo option" and tid :: "uuidInfo option"
  assumes rest: "at_rest sys" and req: "plain_request handles svc high low m" and h: "handle (sy_h sys) m = (h', Some r)"
    and r: "r \<noteq> MError io_EOF" and p: "p \<noteq> TargetBad"
  defines "rtid \<equiv> reply_tid new_tid tid r"
  shows "\<exists>sys'. chan_request handles svc mqv high low new_tid handle tid p m sys = Some (recv_msg True p r, sys') \<and>
    at_rest sys' \<and> sy_h sys' = h' \<and> sv_who (sy_ss sys') = sv_who (sy_ss sys) \<and>
    cs_traced (sy_cs sys') = note_trace rtid ''client recv'' r (note_trace tid ''client send'' m (cs_traced (sy_cs sys))) \<and>
    sv_traced (sy_ss sys') = note_trace rtid (sv_who (sy_ss sys) @ '' send'') r
      (note_trace tid (sv_who (sy_ss sys) @ '' handler'') m (sv_traced (sy_ss sys)))"
proof -
  from rest obtain ch where ch: "cs_msgChan (sy_cs sys) = Some ch" "empty_chan ch" by (auto simp: at_rest_def)
  let ?tm = "\<lparr>tm_chan = cs_id (sy_cs sys), tm_msg = m, tm_feats = mk_feats tid, tm_decErr = None\<rparr>"
  let ?cs = "(sy_cs sys)\<lparr>cs_serverChan := (cs_serverChan (sy_cs sys))\<lparr>buffered := [?tm]\<rparr>,
    cs_traced := note_trace tid ''client send'' m (cs_traced (sy_cs sys))\<rparr>"
  let ?km = "mk_known high low (cs_id (sy_cs sys), meta ?tm)"
  have send: "chanClient_Send (\<lambda>m. m) tid m (sy_cs sys) = Ret (Some (None, ?cs))"
    using rest ch by (simp add: at_rest_def chanClient_Send_def chan_send_def empty_chan_def)
  let ?s1 = "sys\<lparr>sy_cs := ?cs\<rparr>"
  obtain c where serve: "serve_turn handles svc mqv high low ?s1 = Some (?s1\<lparr>sy_conn := c,
      sy_cs := ?cs\<lparr>cs_serverChan := (cs_serverChan ?cs)\<lparr>buffered := []\<rparr>\<rparr>,
      sy_mq := (sy_mq sys)\<lparr>ingressNormalChan := (ingressNormalChan (sy_mq sys))\<lparr>buffered := [?km]\<rparr>\<rparr>\<rparr>)" and c: "\<not> cc_ended c"
    using serve_turn_rest [of ?s1 ?tm handles svc high low mqv] rest req by (auto simp: at_rest_def)
  let ?s2 = "?s1\<lparr>sy_conn := c, sy_cs := ?cs\<lparr>cs_serverChan := (cs_serverChan ?cs)\<lparr>buffered := []\<rparr>\<rparr>,
      sy_mq := (sy_mq sys)\<lparr>ingressNormalChan := (ingressNormalChan (sy_mq sys))\<lparr>buffered := [?km]\<rparr>\<rparr>\<rparr>"
  have km: "snd (msg ?km) = \<lparr>mm_msg = m, mm_feats = mk_feats tid\<rparr>" by (simp add: mk_known_def meta_def)
  have conds: "egressChan (sy_mq ?s2) = None" "buffered (ingressNormalChan (sy_mq ?s2)) = [?km]"
    "cs_msgChan (sy_cs ?s2) = Some ch" "sv_connClose (sy_ss ?s2) \<noteq> CCNil" "handle (sy_h ?s2) m = (h', Some r)"
    using rest ch h by (simp_all add: at_rest_def)
  note work = work_turn_rest [of ?s2 ?km ch m tid handle h' r new_tid, OF conds(1-3) ch(2) conds(4) km conds(5), folded rtid_def]
  let ?s3 = "?s2\<lparr>sy_mq := (sy_mq ?s2)\<lparr>ingressNormalChan := (ingressNormalChan (sy_mq ?s2))\<lparr>buffered := []\<rparr>, handled := handled (sy_mq ?s2) @ [?km]\<rparr>,
      sy_ss := served tid rtid m r (sy_ss ?s2), sy_h := h',
      sy_cs := (sy_cs ?s2)\<lparr>cs_msgChan := Some (ch\<lparr>buffered := [\<lparr>mm_msg = r, mm_feats = mk_feats rtid\<rparr>]\<rparr>)\<rparr>\<rparr>"
  let ?cs4 = "(sy_cs ?s3)\<lparr>cs_traced := note_trace rtid ''client recv'' r (cs_traced (sy_cs ?s3)), cs_msgChan := Some (ch\<lparr>buffered := []\<rparr>)\<rparr>"
  have recv: "chanClient_Recv TakeMsg p (sy_cs ?s3) = Ret (Some (recv_msg True p r, ?cs4))"
    using r p by (simp add: chanClient_Recv_def try_recv_def chan_recv_def Let_def)
  have run: "chan_request handles svc mqv high low new_tid handle tid p m sys = Some (recv_msg True p r, ?s3\<lparr>sy_cs := ?cs4\<rparr>)"
    by (simp only: chan_request_def send serve work recv option.case prod.case outcome.case bind.bind_lunit)
  have "at_rest (?s3\<lparr>sy_cs := ?cs4\<rparr>)"
    using rest ch c by (simp add: at_rest_def empty_chan_def served_def)
  with run show ?thesis
    by (intro exI [of _ "?s3\<lparr>sy_cs := ?cs4\<rparr>"]) (simp add: served_def)
qed

section \<open>Requests one after the other\<close>

fun chan_requests ::
  "(gotype \<Rightarrow> bool) \<Rightarrow> service \<Rightarrow> govalue \<Rightarrow> (gomsg \<Rightarrow> bool) \<Rightarrow> (gomsg \<Rightarrow> bool) \<Rightarrow> (gomsg \<Rightarrow> uuidInfo option) \<Rightarrow>
   ('h \<Rightarrow> gomsg \<Rightarrow> 'h \<times> gomsg option) \<Rightarrow> (uuidInfo option \<times> target \<times> gomsg) list \<Rightarrow> 'h chanSystem \<Rightarrow>
   (recv_result list \<times> 'h chanSystem) option" where
  "chan_requests handles svc mqv high low new_tid handle [] sys = Some ([], sys)"
| "chan_requests handles svc mqv high low new_tid handle ((tid, p, m) # xs) sys =
     Option.bind (chan_request handles svc mqv high low new_tid handle tid p m sys) (\<lambda>(res, sys').
       map_option (\<lambda>(rs, sys''). (res # rs, sys'')) (chan_requests handles svc mqv high low new_tid handle xs sys'))"

text \<open>The handler on its own, called with the messages in order: what it replies and its last state.\<close>

fun handler_run :: "('h \<Rightarrow> gomsg \<Rightarrow> 'h \<times> gomsg option) \<Rightarrow> gomsg list \<Rightarrow> 'h \<Rightarrow> gomsg option list \<times> 'h" where
  "handler_run handle [] h = ([], h)"
| "handler_run handle (m # ms) h =
     (let (h', r) = handle h m; (rs, h'') = handler_run handle ms h' in (r # rs, h''))"

text \<open>What the client makes of a reply.\<close>

definition client_view :: "target \<Rightarrow> gomsg option \<Rightarrow> recv_result" where
  "client_view p r = (case r of Some m \<Rightarrow> recv_msg True p m | None \<Rightarrow> RecvErr io_EOF)"

definition always_replies :: "('h \<Rightarrow> gomsg \<Rightarrow> 'h \<times> gomsg option) \<Rightarrow> bool" where
  "always_replies handle \<longleftrightarrow> (\<forall>h m. \<exists>h' r. handle h m = (h', Some r) \<and> r \<noteq> MError io_EOF)"

lemma chan_requests_rest:
  assumes "always_replies handle" and "at_rest sys"
    and "list_all (\<lambda>(tid, p, m). plain_request handles svc high low m \<and> p \<noteq> TargetBad) xs"
  shows "\<exists>sys'. chan_requests handles svc mqv high low new_tid handle xs sys =
      Some (map2 (\<lambda>(tid, p, m). client_view p) xs (fst (handler_run handle (map (snd \<circ> snd) xs) (sy_h sys))), sys') \<and>
    sy_h sys' = snd (handler_run handle (map (snd \<circ> snd) xs) (sy_h sys)) \<and> at_rest sys'"
  using assms(2,3)
proof (induction xs arbitrary: sys)
  case (Cons x xs)
  obtain tid p m where x: "x = (tid, p, m)" by (cases x)
  obtain h' r where h: "handle (sy_h sys) m = (h', Some r)" and r: "r \<noteq> MError io_EOF"
    using assms(1) unfolding always_replies_def by metis
  have pm: "plain_request handles svc high low m" "p \<noteq> TargetBad" using Cons.prems(2) x by simp_all
  obtain sys1 where 1: "chan_request handles svc mqv high low new_tid handle tid p m sys = Some (recv_msg True p r, sys1)"
    "at_rest sys1" "sy_h sys1 = h'"
    using chan_request_rest [where handle = handle, OF Cons.prems(1) pm(1) h r pm(2)] by blast
  have "list_all (\<lambda>(tid, p, m). plain_request handles svc high low m \<and> p \<noteq> TargetBad) xs" using Cons.prems(2) by simp
  from Cons.IH [OF 1(2) this] obtain sys2 where 2:
    "chan_requests handles svc mqv high low new_tid handle xs sys1 =
      Some (map2 (\<lambda>(tid, p, m). client_view p) xs (fst (handler_run handle (map (snd \<circ> snd) xs) h')), sys2)"
    "sy_h sys2 = snd (handler_run handle (map (snd \<circ> snd) xs) h')" "at_rest sys2"
    unfolding 1(3) by blast
  have view: "client_view p (Some r) = recv_msg True p r" by (simp add: client_view_def)
  show ?case
    using 2(2,3) by (intro exI [of _ sys2]) (simp add: x 1(1) 2(1) h view Let_def comp_def split_beta)
qed simp

text \<open>
  A client that has just connected through the process' channel to a service whose queue was just
  made: the connection's goroutine runs, the channels are empty. \<open>who\<close> names the service.
\<close>

definition new_chanSystem :: "nat \<Rightarrow> nat \<Rightarrow> int \<Rightarrow> nat \<Rightarrow> int \<Rightarrow> nat \<Rightarrow> string \<Rightarrow> 'h \<Rightarrow> 'h chanSystem" where
  "new_chanSystem i n resident qSizePerCore weight numCPU who h =
     \<lparr>sy_cs = chan_NewStream i (make_chan n) False,
      sy_conn = \<lparr>cc_closing = False, cc_recv = make_chan n, cc_state = new_connState, cc_ended = False\<rparr>,
      sy_mq = newMsgQ resident qSizePerCore weight numCPU,
      sy_ss = \<lparr>sv_connClose = CCOpen, sv_private = make_chan n, sv_sent = [], sv_encMainCopy = False, sv_d = 0,
        sv_routine = None, sv_who = who, sv_traced = []\<rparr>,
      sy_h = h\<rparr>"

lemma at_rest_new: "0 < n \<Longrightarrow> 0 < qSizePerCore * numCPU \<Longrightarrow> at_rest (new_chanSystem i n resident qSizePerCore weight numCPU who h)"
  by (simp add: at_rest_def new_chanSystem_def chan_NewStream_def empty_chan_def make_chan_def newMsgQ_def Let_def)

lemma sy_h_new [simp]: "sy_h (new_chanSystem i n resident qSizePerCore weight numCPU who h) = h"
  by (simp add: new_chanSystem_def)

end
