(* ===== verification/Framing.thy ===== *)
theory Framing
  imports Providers
begin

text \<open>
  The byte layer of the stream transports: the handshake of \<open>stream.go\<close> and the length-prefixed frames
  that \<open>streamServerStream.send\<close> and \<open>streamClientStream.Send\<close> write and the two receivers read. A
  connection delivers its bytes in chunks, as \<open>net.Conn.Read\<close> returns them; after the last chunk it
  is at its end. What a frame carries is encoded by the library gotiny and is here any list of
  bytes.
\<close>

unbundle bit_operations_syntax

type_synonym bytes = "8 word list"

section \<open>Numbers and strings as bytes\<close>

definition PutUint16 :: "16 word \<Rightarrow> bytes" where
  "PutUint16 v = [ucast (drop_bit 8 v), ucast v]"

definition Uint16 :: "bytes \<Rightarrow> 16 word" where
  "Uint16 b = push_bit 8 (ucast (b ! 0)) OR ucast (b ! 1)"

definition PutUint32 :: "32 word \<Rightarrow> bytes" where
  "PutUint32 v = [ucast (drop_bit 24 v), ucast (drop_bit 16 v), ucast (drop_bit 8 v), ucast v]"

definition Uint32 :: "bytes \<Rightarrow> 32 word" where
  "Uint32 b = push_bit 24 (ucast (b ! 0)) OR push_bit 16 (ucast (b ! 1)) OR
              push_bit 8 (ucast (b ! 2)) OR ucast (b ! 3)"

definition to_bytes :: "string \<Rightarrow> bytes" where
  "to_bytes s = map (\<lambda>c. of_nat (of_char c)) s"

definition of_bytes :: "bytes \<Rightarrow> string" where
  "of_bytes bs = map (\<lambda>b. char_of (unat b)) bs"

section \<open>Reading\<close>

datatype read_error = EOF | UnexpectedEOF

text \<open>
  \<open>io.ReadFull\<close>: \<open>Read\<close> with the missing part of the buffer until it is full. A read returns at most the
  next chunk; the rest of a longer chunk stays. \<open>acc\<close> is what was read so far.
\<close>

fun ReadFull_acc :: "bytes \<Rightarrow> nat \<Rightarrow> bytes list \<Rightarrow> read_error + bytes \<times> bytes list" where
  "ReadFull_acc acc n [] =
     (if n = 0 then Inr (acc, []) else Inl (if acc = [] then EOF else UnexpectedEOF))"
| "ReadFull_acc acc n (c # cs) =
     (if n = 0 then Inr (acc, c # cs)
      else if length c \<le> n then ReadFull_acc (acc @ c) (n - length c) cs
      else Inr (acc @ take n c, drop n c # cs))"

definition ReadFull :: "nat \<Rightarrow> bytes list \<Rightarrow> read_error + bytes \<times> bytes list" where
  "ReadFull n conn = ReadFull_acc [] n conn"

section \<open>Handshake\<close>

definition specVersion :: string where
  "specVersion = ''1.0''"

definition marker_prefix :: string where
  "marker_prefix = ''Adaptiveservice Spec Version ''"

text \<open>\<open>handshakeWithServer\<close>: the bytes the client writes and the text it returns.\<close>

definition handshakeWithServer :: "bytes \<times> string" where
  "handshakeWithServer =
     (let marker = marker_prefix @ specVersion;
          bufMsg = to_bytes marker;
          bufSize = PutUint16 (of_nat (length bufMsg))
      in (bufSize @ bufMsg, ''Local '' @ marker))"

text \<open>
  \<open>fmt.Sscanf\<close> for the literal part of a format without newlines: a space matches one or more spaces
  of the input, or its end; another byte matches itself.
\<close>

fun sscanf_lit :: "string \<Rightarrow> string \<Rightarrow> string option" where
  "sscanf_lit [] s = Some s"
| "sscanf_lit (f # fs) s =
     (if f = CHR '' '' then
        (case s of
           [] \<Rightarrow> sscanf_lit fs []
         | c # cs \<Rightarrow> if \<not> is_space c \<or> c = CHR 0x0A then None
                     else sscanf_lit fs (dropWhile (\<lambda>c. is_space c \<and> c \<noteq> CHR 0x0A) cs))
      else
        (case s of
           [] \<Rightarrow> None
         | c # cs \<Rightarrow> if c = f then sscanf_lit fs cs else None))"

text \<open>... followed by \<open>%s\<close>: after spaces, a non-empty run of other bytes.\<close>

definition sscanf_string :: "string \<Rightarrow> string \<Rightarrow> string option" where
  "sscanf_string fmt s =
     (case sscanf_lit fmt s of
        None \<Rightarrow> None
      | Some r \<Rightarrow>
          (case skip_space r of
             None \<Rightarrow> None
           | Some r' \<Rightarrow> if r' = [] then None else Some (takeWhile (\<lambda>c. \<not> is_space c) r')))"

datatype handshake_error = MarkerSize read_error | Marker read_error | SpecVersion

definition handshakeWithClient :: "bytes list \<Rightarrow> handshake_error + string \<times> bytes list" where
  "handshakeWithClient conn =
     (case ReadFull 2 conn of
        Inl e \<Rightarrow> Inl (MarkerSize e)
      | Inr (bufSize, conn) \<Rightarrow>
          (case ReadFull (unat (Uint16 bufSize)) conn of
             Inl e \<Rightarrow> Inl (Marker e)
           | Inr (bufMsg, conn) \<Rightarrow>
               (case sscanf_string marker_prefix (of_bytes bufMsg) of
                  None \<Rightarrow> Inl SpecVersion
                | Some specVer \<Rightarrow>
                    Inr (''Adaptiveservice Spec Version: Local '' @ specVersion @ '', Remote '' @ specVer, conn))))"

section \<open>Frames\<close>

definition MaxInt32 :: nat where
  "MaxInt32 = 2147483647"

text \<open>What \<open>send\<close> writes for an encoded message; \<open>None\<close> is \<open>ErrMsgTooLarge\<close>.\<close>

definition send_frame :: "bytes \<Rightarrow> bytes option" where
  "send_frame bufMsg =
     (if length bufMsg > MaxInt32 then None
      else Some (PutUint32 (of_nat (length bufMsg)) @ bufMsg))"

text \<open>
  One turn of the receiver's loop: the payload, the rest of the connection and the capacity of the
  buffer, which is kept when it is large enough. The flag of the error says whether the size or
  the payload could not be read.
\<close>

definition recv_frame ::
  "32 word \<times> bytes list \<Rightarrow> (bool \<times> read_error) + bytes \<times> 32 word \<times> bytes list" where
  "recv_frame s =
     (case s of (bufCap, conn) \<Rightarrow>
        case ReadFull 4 conn of
          Inl e \<Rightarrow> Inl (False, e)
        | Inr (bufSize, conn) \<Rightarrow>
            let size = Uint32 bufSize;
                bufCap = (if size \<le> bufCap then bufCap else size)
            in case ReadFull (unat size) conn of
                 Inl e \<Rightarrow> Inl (True, e)
               | Inr (bufMsg, conn) \<Rightarrow> Inr (bufMsg, bufCap, conn))"

lemma ReadFull_acc_less:
  "ReadFull_acc acc n conn = Inr (bs, conn') \<Longrightarrow> length (concat conn') + n = length (concat conn)"
  by (induction acc n conn rule: ReadFull_acc.induct) (auto split: if_splits)

lemma recv_frame_less:
  "recv_frame s = Inr (bufMsg, s') \<Longrightarrow> length (concat (snd s')) < length (concat (snd s))"
  by (cases s) (auto simp: recv_frame_def ReadFull_def Let_def split: sum.splits dest!: ReadFull_acc_less)

text \<open>The loop: all payloads until the connection fails.\<close>

function recv_frames :: "32 word \<times> bytes list \<Rightarrow> bytes list \<times> bool \<times> read_error" where
  "recv_frames s =
     (case recv_frame s of
        Inl e \<Rightarrow> ([], e)
      | Inr (bufMsg, s') \<Rightarrow> (let (ps, e) = recv_frames s' in (bufMsg # ps, e)))"
  by pat_completeness auto
termination
  by (relation "measure (\<lambda>s. length (concat (snd s)))") (auto dest: recv_frame_less)

declare recv_frames.simps [simp del]

section \<open>Reading back what was written\<close>

lemma Uint16_Put: "Uint16 (PutUint16 v @ bs) = v"
  by (simp add: Uint16_def PutUint16_def bit_eq_iff bit_simps) auto

lemma Uint32_Put: "Uint32 (PutUint32 v @ bs) = v"
  by (simp add: Uint32_def PutUint32_def numeral_2_eq_2 numeral_3_eq_3)
     (rule bit_word_eqI, rename_tac n, case_tac "n < 8"; case_tac "n < 16"; case_tac "n < 24";
       auto simp: bit_simps)

lemma of_to_bytes [simp]: "of_bytes (to_bytes s) = s"
proof -
  have "unat (of_nat (of_char c) :: 8 word) = of_char c" for c
    by (simp add: unat_of_nat)
  then show ?thesis by (simp add: of_bytes_def to_bytes_def comp_def)
qed

lemma ReadFull_acc_full:
  "n \<le> length (concat conn) \<Longrightarrow>
   \<exists>conn'. ReadFull_acc acc n conn = Inr (acc @ take n (concat conn), conn') \<and>
     concat conn' = drop n (concat conn)"
proof (induction acc n conn rule: ReadFull_acc.induct)
  case (2 acc n c cs)
  show ?case
  proof (cases "n = 0 \<or> n < length c")
    case True
    then show ?thesis by auto
  next
    case False
    then have "n - length c \<le> length (concat cs)" using 2 by simp
    with False 2 obtain conn' where "ReadFull_acc (acc @ c) (n - length c) cs =
        Inr ((acc @ c) @ take (n - length c) (concat cs), conn')" "concat conn' = drop (n - length c) (concat cs)"
      by auto
    with False show ?thesis by auto
  qed
qed simp

lemma ReadFull_acc_short:
  "length (concat conn) < n \<Longrightarrow>
   ReadFull_acc acc n conn = Inl (if acc = [] \<and> concat conn = [] then EOF else UnexpectedEOF)"
proof (induction acc n conn rule: ReadFull_acc.induct)
  case (2 acc n c cs)
  then show ?case by (auto simp: less_diff_conv)
qed simp

text \<open>\<open>ReadFull\<close> does not depend on how the bytes are cut into chunks.\<close>

lemma ReadFull_append:
  assumes "concat conn = bs @ rest"
  obtains conn' where "ReadFull (length bs) conn = Inr (bs, conn')" and "concat conn' = rest"
  using ReadFull_acc_full [of "length bs" conn "[]"] assms by (auto simp: ReadFull_def)

lemma ReadFull_short:
  "length (concat conn) < n \<Longrightarrow> ReadFull n conn = Inl (if concat conn = [] then EOF else UnexpectedEOF)"
  using ReadFull_acc_short [of conn n "[]"] by (simp add: ReadFull_def)

lemma length_Put [simp]: "length (PutUint32 v) = 4" "length (PutUint16 w) = 2"
  by (simp_all add: PutUint32_def PutUint16_def)

lemma unat_small: "n \<le> MaxInt32 \<Longrightarrow> unat (of_nat n :: 32 word) = n"
  by (simp add: MaxInt32_def unat_of_nat)

lemma recv_frame_sent:
  assumes "concat conn = PutUint32 (of_nat (length p)) @ p @ rest" and "length p \<le> MaxInt32"
  shows "\<exists>bufCap' conn'. recv_frame (bufCap, conn) = Inr (p, bufCap', conn') \<and> concat conn' = rest"
proof -
  obtain conn1 where r1: "ReadFull 4 conn = Inr (PutUint32 (of_nat (length p)), conn1)" "concat conn1 = p @ rest"
    using ReadFull_append [OF assms(1)] by auto
  obtain conn2 where r2: "ReadFull (length p) conn1 = Inr (p, conn2)" "concat conn2 = rest"
    using ReadFull_append [OF r1(2)] by blast
  show ?thesis
    using r1(1) r2 Uint32_Put [of "of_nat (length p)" "[]"] unat_small [OF assms(2)]
    by (simp add: recv_frame_def Let_def)
qed

lemma recv_frame_cut:
  assumes "concat conn = take k (PutUint32 (of_nat (length q)) @ q)" and "k < 4 + length q" and "length q \<le> MaxInt32"
  shows "recv_frame (bufCap, conn) =
    Inl (if k < 4 then (False, if k = 0 then EOF else UnexpectedEOF)
         else (True, if k = 4 then EOF else UnexpectedEOF))"
proof (cases "k < 4")
  case True
  then have l: "length (concat conn) = k" using assms(1) by simp
  then have "ReadFull 4 conn = Inl (if k = 0 then EOF else UnexpectedEOF)"
    using ReadFull_short [of conn 4] True by (metis length_0_conv)
  with True show ?thesis by (simp add: recv_frame_def)
next
  case False
  then have c: "concat conn = PutUint32 (of_nat (length q)) @ take (k - 4) q" using assms(1) by simp
  obtain conn1 where r1: "ReadFull 4 conn = Inr (PutUint32 (of_nat (length q)), conn1)" "concat conn1 = take (k - 4) q"
    using ReadFull_append [OF c] by auto
  have "length (concat conn1) < length q" using r1(2) assms(2) False by simp
  then have "ReadFull (length q) conn1 = Inl (if concat conn1 = [] then EOF else UnexpectedEOF)"
    by (rule ReadFull_short)
  moreover have "concat conn1 = [] \<longleftrightarrow> k = 4"
    using r1(2) assms(2) False by (cases q) auto
  ultimately show ?thesis
    using r1(1) False Uint32_Put [of "of_nat (length q)" "[]"] unat_small [OF assms(3)]
    by (simp add: recv_frame_def Let_def)
qed

definition wire :: "bytes list \<Rightarrow> bytes" where
  "wire ps = concat (map (\<lambda>p. PutUint32 (of_nat (length p)) @ p) ps)"

lemma recv_frames_sent:
  assumes "\<And>p. p \<in> set ps \<Longrightarrow> length p \<le> MaxInt32" and "concat conn = wire ps @ rest"
    and "\<And>bufCap conn'. concat conn' = rest \<Longrightarrow> recv_frame (bufCap, conn') = Inl e"
  shows "recv_frames (bufCap, conn) = (ps, e)"
  using assms
proof (induction ps arbitrary: bufCap conn)
  case Nil
  then show ?case by (subst recv_frames.simps) (simp add: wire_def)
next
  case (Cons p ps)
  have "concat conn = PutUint32 (of_nat (length p)) @ p @ (wire ps @ rest)" "length p \<le> MaxInt32"
    using Cons.prems by (simp_all add: wire_def)
  from recv_frame_sent [OF this, of bufCap] obtain bufCap' conn' where
    r: "recv_frame (bufCap, conn) = Inr (p, bufCap', conn')" "concat conn' = wire ps @ rest" by blast
  have "recv_frames (bufCap', conn') = (ps, e)" using Cons.prems r(2) by (intro Cons.IH) auto
  with r(1) show ?case by (subst recv_frames.simps) simp
qed

section \<open>Properties\<close>

text \<open>
  C6 (frames): the receivers read back exactly what was sent. However the network cuts the bytes of
  a sequence of frames into chunks, and wherever the connection breaks inside the frame that
  follows, the receiver's loop yields the complete payloads in order, each of its own length,
  never a partial one, and then ends with an error: the end of the file between two frames, an
  unexpected end inside one.
\<close>

theorem frames_roundtrip:
  assumes "\<And>p. p \<in> set ps \<Longrightarrow> send_frame p = Some (enc p)" and "send_frame q = Some (enc q)"
    and "concat conn = concat (map enc ps) @ take k (enc q)" and "k < length (enc q)"
  shows "recv_frames (512, conn) =
    (ps, if k < 4 then (False, if k = 0 then EOF else UnexpectedEOF)
         else (True, if k = 4 then EOF else UnexpectedEOF))"
proof -
  have e: "length p \<le> MaxInt32 \<and> enc p = PutUint32 (of_nat (length p)) @ p" if "p \<in> set ps \<or> p = q" for p
    using assms(1) [of p] assms(2) that by (auto simp: send_frame_def split: if_splits)
  have w: "concat (map enc ps) = wire ps"
    using e by (auto simp: wire_def intro!: arg_cong [where f = concat] map_cong)
  have "recv_frame (bufCap, conn') =
      Inl (if k < 4 then (False, if k = 0 then EOF else UnexpectedEOF)
           else (True, if k = 4 then EOF else UnexpectedEOF))" if "concat conn' = take k (enc q)" for bufCap conn'
    using that e [of q] assms(4) by (intro recv_frame_cut [where q = q]) auto
  with e assms(3) w show ?thesis by (intro recv_frames_sent [where rest = "take k (enc q)"]) auto
qed

theorem frames_roundtrip_witness:
  "recv_frames (512, [[0], [0, 0, 2, 7], [8, 0, 0], [0, 1]]) = ([[7, 8]], True, EOF)"
proof -
  let ?enc = "\<lambda>p :: bytes. PutUint32 (of_nat (length p)) @ p"
  have s: "send_frame p = Some (?enc p)" if "length p \<le> MaxInt32" for p
    using that by (simp add: send_frame_def)
  have "?enc [7, 8] = [0, 0, 0, 2, 7, 8]" "?enc [9] = [0, 0, 0, 1, 9]"
    by (simp_all add: PutUint32_def)
  then show ?thesis
    using frames_roundtrip [of "[[7, 8]]" ?enc "[9]" "[[0], [0, 0, 2, 7], [8, 0, 0], [0, 1]]" 4] s
    by (simp add: MaxInt32_def)
qed

text \<open>
  A server that reads a client's handshake accepts it, whatever the chunks, reports the
  client's version, and leaves the connection exactly behind the handshake.
\<close>

theorem handshake_accepted:
  assumes "concat conn = fst handshakeWithServer @ rest"
  shows "\<exists>conn'. handshakeWithClient conn =
      Inr (''Adaptiveservice Spec Version: Local 1.0, Remote 1.0'', conn') \<and> concat conn' = rest"
proof -
  let ?m = "to_bytes (marker_prefix @ specVersion)"
  have len: "length ?m = 32" by (simp add: to_bytes_def marker_prefix_def specVersion_def)
  have c: "concat conn = PutUint16 (of_nat (length ?m)) @ ?m @ rest"
    using assms by (simp add: handshakeWithServer_def Let_def)
  obtain conn1 where r1: "ReadFull 2 conn = Inr (PutUint16 (of_nat (length ?m)), conn1)" "concat conn1 = ?m @ rest"
    using ReadFull_append [OF c] by auto
  obtain conn2 where r2: "ReadFull (length ?m) conn1 = Inr (?m, conn2)" "concat conn2 = rest"
    using ReadFull_append [OF r1(2)] by blast
  have "sscanf_string marker_prefix (marker_prefix @ specVersion) = Some ''1.0''"
    by (simp add: sscanf_string_def marker_prefix_def specVersion_def is_space_def)
  then show ?thesis
    using r1(1) r2 len Uint16_Put [of "of_nat (length ?m)" "[]"]
    by (simp add: handshakeWithClient_def specVersion_def)
qed

theorem handshake_accepted_witness:
  "\<exists>conn'. handshakeWithClient [take 5 (fst handshakeWithServer), drop 5 (fst handshakeWithServer) @ [1, 2]] =
      Inr (''Adaptiveservice Spec Version: Local 1.0, Remote 1.0'', conn') \<and> concat conn' = [1, 2]"
  by (rule handshake_accepted) simp

end
