(* ===== verification/Connection.thy ===== *)
theory Connection
  imports Transport Framing
begin

text \<open>
  Network connections, from the bytes to the streams: how a client sets one up (\<open>newStreamConnection\<close>),
  how the server handles one from the handshake to its end (\<open>handleConn\<close>), and the client's receiver.
  Encoding and decoding are parameters, being gotiny's: \<open>enc\<close> gives the bytes of a message; \<open>dec\<close>
  gives what was decoded and the panic, if there was one, that stopped it. Dialling gives the chunks
  that the peer will send.
\<close>

section \<open>Setting up\<close>

record clientConn =
  cn_in :: "bytes list"
  cn_out :: bytes
  cn_stream :: streamClientStream

text \<open>
  The flag of an error says whether the dialled connection is left open. \<open>write\<close> is the error of writing
  the handshake; the stream's channel variable has the address \<open>i\<close>.
\<close>

definition newStreamConnection ::
  "(string \<Rightarrow> string + bytes list) \<Rightarrow> string option \<Rightarrow> nat \<Rightarrow> nat \<Rightarrow> string \<Rightarrow> ((string \<times> bool) + clientConn) outcome" where
  "newStreamConnection dial write i qsize a =
     (if a = [] then Panic ''index out of range''
      else
        let proxied = (last a = CHR ''P'');
            a = (if proxied then butlast a else a)
        in case dial a of
             Inl err \<Rightarrow> Ret (Inl (err, False))
           | Inr conn \<Rightarrow>
               (case (if proxied then ReadFull 1 conn else Inr ([], conn)) of
                  Inl e \<Rightarrow> Ret (Inl (''EOF'', True))
                | Inr (b, conn) \<Rightarrow>
                    (case write of
                       Some err \<Rightarrow> Ret (Inl (''failed to handshake with server: failed to write marker: '' @ err, False))
                     | None \<Rightarrow>
                         Ret (Inr \<lparr>cn_in = conn, cn_out = fst handshakeWithServer, cn_stream = stream_NewStream i qsize\<rparr>))))"

section \<open>The server's side\<close>

text \<open>Decoding, with the panic recovered: the error becomes the message, the channel is kept if it was decoded.\<close>

definition decode_msg :: "(bytes \<Rightarrow> nat transportMsg \<times> string option) \<Rightarrow> bytes \<Rightarrow> nat transportMsg" where
  "decode_msg dec bufMsg =
     (case dec bufMsg of
        (tm, None) \<Rightarrow> tm\<lparr>tm_decErr := None\<rparr>
      | (tm, Some e) \<Rightarrow>
          (let decErr = OtherError (''unknown message: '' @ e) in tm\<lparr>tm_msg := MError decErr, tm_decErr := Some decErr\<rparr>))"

text \<open>
  The loop of \<open>handleConn\<close>. \<open>closing\<close> is the number of turns after which it finds its transport closed.
  \<open>None\<close> is blocking on a full private channel.
\<close>

function conn_loop ::
  "(gotype \<Rightarrow> bool) \<Rightarrow> service \<Rightarrow> govalue \<Rightarrow> (bytes \<Rightarrow> nat transportMsg \<times> string option) \<Rightarrow> nat option \<Rightarrow>
   32 word \<times> bytes list \<Rightarrow> nat connState \<Rightarrow> nat connState option" where
  "conn_loop handles svc mqv dec closing s st =
     (if closing = Some 0 then Some st
      else case recv_frame s of
             Inl e \<Rightarrow> Some st
           | Inr (bufMsg, s') \<Rightarrow>
               (case stream_dispatch handles svc mqv (decode_msg dec bufMsg) st of
                  None \<Rightarrow> None
                | Some st' \<Rightarrow> conn_loop handles svc mqv dec (map_option (\<lambda>n. n - 1) closing) s' st'))"
  by pat_completeness auto
termination
  by (relation "measure (\<lambda>(_, _, _, _, _, s, _). length (concat (snd s)))") (auto dest: recv_frame_less)

declare conn_loop.simps [simp del]

text \<open>
  What happens to the connection itself: the service's functions are called, \<open>connClose\<close> is closed
  and set to nil, so that the streams of the connection end, and the connection is closed.
\<close>

datatype conn_event = OnConnect | OnDisconnect | ConnCloseNil | NetClose

definition handleConn ::
  "(gotype \<Rightarrow> bool) \<Rightarrow> service \<Rightarrow> govalue \<Rightarrow> (bytes \<Rightarrow> nat transportMsg \<times> string option) \<Rightarrow> bool \<Rightarrow> nat option \<Rightarrow>
   bytes list \<Rightarrow> (nat connState \<times> conn_event list) option" where
  "handleConn handles svc mqv dec takeOver closing conn =
     (case handshakeWithClient conn of
        Inl e \<Rightarrow> Some (new_connState, [NetClose])
      | Inr (info, conn) \<Rightarrow>
          (let connected = (if fnOnConnect svc then [OnConnect] else []) in
           if fnOnConnect svc \<and> takeOver then Some (new_connState, connected)
           else map_option (\<lambda>st. (st, connected @ (if fnOnDisconnect svc then [OnDisconnect] else []) @ [ConnCloseNil, NetClose]))
                  (conn_loop handles svc mqv dec closing (512, conn) new_connState)))"

section \<open>The client's side\<close>

text \<open>The client's receiver; \<open>Ret None\<close> is blocking, \<open>Ret (Some streams)\<close> its end, after which the connection is closed.\<close>

function client_loop ::
  "(bytes \<Rightarrow> nat transportMsg \<times> string option) \<Rightarrow> 32 word \<times> bytes list \<Rightarrow> clientStreams \<Rightarrow> clientStreams option outcome" where
  "client_loop dec s streams =
     (case recv_frame s of
        Inl e \<Rightarrow> Ret (Some streams)
      | Inr (bufMsg, s') \<Rightarrow>
          bind_outcome (client_receive (decode_msg dec bufMsg) streams) (\<lambda>r.
            case r of None \<Rightarrow> Ret None | Some streams' \<Rightarrow> client_loop dec s' streams'))"
  by pat_completeness auto
termination
  by (relation "measure (\<lambda>(_, s, _). length (concat (snd s)))") (auto dest: recv_frame_less)

declare client_loop.simps [simp del]

section \<open>Loops over frames\<close>

text \<open>Both loops do what their message handlers do over the decoded payloads that \<open>recv_frames\<close> yields.\<close>

lemma conn_loop_frames:
  "conn_loop handles svc mqv dec None s st = dispatch_all handles svc mqv (map (decode_msg dec) (fst (recv_frames s))) st"
proof (induction s arbitrary: st rule: recv_frames.induct)
  case (1 s)
  show ?case
  proof (cases "recv_frame s")
    case (Inl e)
    then show ?thesis by (simp add: conn_loop.simps recv_frames.simps [of s])
  next
    case (Inr r)
    obtain bufMsg s' where r: "r = (bufMsg, s')" by (cases r)
    show ?thesis
      using 1 [OF Inr r [symmetric]] Inr r
      by (subst conn_loop.simps) (simp add: recv_frames.simps [of s] split_beta split: option.split)
  qed
qed

lemma client_loop_frames:
  "client_loop dec s streams = client_receive_all (map (decode_msg dec) (fst (recv_frames s))) streams"
proof (induction s arbitrary: streams rule: recv_frames.induct)
  case (1 s)
  show ?case
  proof (cases "recv_frame s")
    case (Inl e)
    then show ?thesis by (simp add: client_loop.simps recv_frames.simps [of s])
  next
    case (Inr r)
    obtain bufMsg s' where r: "r = (bufMsg, s')" by (cases r)
    show ?thesis
      using 1 [OF Inr r [symmetric]] Inr r
      by (subst client_loop.simps) (auto simp: recv_frames.simps [of s] split_beta split: option.split intro!: arg_cong2 [where f = bind_outcome])
  qed
qed

section \<open>What a client sends\<close>

definition client_tm :: "nat \<Rightarrow> uuidInfo option \<times> gomsg \<Rightarrow> nat transportMsg" where
  "client_tm i = (\<lambda>(tid, m). \<lparr>tm_chan = i, tm_msg = m, tm_feats = mk_feats tid, tm_decErr = None\<rparr>)"

text \<open>The same messages sent through a network stream and through a channel stream.\<close>

fun net_sends :: "(gomsg \<Rightarrow> bool) \<Rightarrow> (uuidInfo option \<times> gomsg) list \<Rightarrow> streamClientStream \<Rightarrow> streamClientStream" where
  "net_sends too_large [] cs = cs"
| "net_sends too_large ((tid, m) # xs) cs = net_sends too_large xs (snd (streamClient_Send too_large tid m cs))"

fun chan_sends :: "(uuidInfo option \<times> gomsg) list \<Rightarrow> chanClientStream \<Rightarrow> chanClientStream option outcome" where
  "chan_sends [] cs = Ret (Some cs)"
| "chan_sends ((tid, m) # xs) cs =
     bind_outcome (chanClient_Send (\<lambda>m. m) tid m cs) (\<lambda>r.
       case r of None \<Rightarrow> Ret None | Some (e, cs') \<Rightarrow> chan_sends xs cs')"

lemma net_sends_out:
  assumes "scs_msgChan cs \<noteq> None" and "\<not> conn_closed cs" and "\<not> conn_broken cs"
    and "list_all (\<lambda>(tid, m). \<not> too_large m) xs"
  shows "scs_out (net_sends too_large xs cs) = scs_out cs @ map (client_tm (scs_id cs)) xs"
  using assms
proof (induction xs arbitrary: cs)
  case (Cons x xs)
  obtain tid m where x: "x = (tid, m)" by (cases x)
  let ?cs = "snd (streamClient_Send too_large tid m cs)"
  have out: "scs_out ?cs = scs_out cs @ [client_tm (scs_id cs) (tid, m)]"
    and rest: "scs_msgChan ?cs \<noteq> None" "\<not> conn_closed ?cs" "\<not> conn_broken ?cs" "scs_id ?cs = scs_id cs"
    using Cons.prems x by (simp_all add: streamClient_Send_def client_tm_def Let_def)
  show ?case using Cons.IH [OF rest(1-3)] Cons.prems(4) by (simp add: x out rest(4))
qed simp

lemma chan_sends_buffer:
  assumes "cs_msgChan cs \<noteq> None" and "\<not> cs_deepCopy cs" and "\<not> closed (cs_serverChan cs)"
    and "length (buffered (cs_serverChan cs)) + length xs \<le> capacity (cs_serverChan cs)"
  shows "\<exists>cs'. chan_sends xs cs = Ret (Some cs') \<and>
    buffered (cs_serverChan cs') = buffered (cs_serverChan cs) @ map (client_tm (cs_id cs)) xs"
  using assms
proof (induction xs arbitrary: cs)
  case (Cons x xs)
  obtain tid m where x: "x = (tid, m)" by (cases x)
  let ?cs = "cs\<lparr>cs_serverChan := (cs_serverChan cs)\<lparr>buffered := buffered (cs_serverChan cs) @ [client_tm (cs_id cs) (tid, m)]\<rparr>,
    cs_traced := note_trace tid ''client send'' m (cs_traced cs)\<rparr>"
  have send: "chanClient_Send (\<lambda>m. m) tid m cs = Ret (Some (None, ?cs))"
    using Cons.prems by (simp add: chanClient_Send_def chan_send_def client_tm_def)
  have "\<exists>cs'. chan_sends xs ?cs = Ret (Some cs') \<and>
      buffered (cs_serverChan cs') = buffered (cs_serverChan ?cs) @ map (client_tm (cs_id ?cs)) xs"
    using Cons.prems by (intro Cons.IH) simp_all
  then show ?case by (simp add: x send)
qed simp

section \<open>Over the wire\<close>

text \<open>The encoder's part: what was encoded is decoded again, and it fits into a frame.\<close>

definition carried :: "(nat transportMsg \<Rightarrow> bytes) \<Rightarrow> (bytes \<Rightarrow> nat transportMsg \<times> string option) \<Rightarrow> nat transportMsg list \<Rightarrow> bool" where
  "carried enc dec tms \<longleftrightarrow>
     list_all (\<lambda>tm. dec (enc tm) = (tm, None) \<and> tm_decErr tm = None \<and> length (enc tm) \<le> MaxInt32) tms"

lemma decode_carried: "carried enc dec tms \<Longrightarrow> map (decode_msg dec) (map enc tms) = tms"
  by (induction tms) (auto simp: carried_def decode_msg_def)

text \<open>
  The frames of some messages and a part of the next frame, cut anywhere into chunks.
\<close>

definition on_wire :: "(nat transportMsg \<Rightarrow> bytes) \<Rightarrow> nat transportMsg list \<Rightarrow> bytes \<Rightarrow> nat \<Rightarrow> bytes \<Rightarrow> bool" where
  "on_wire enc tms q k bs \<longleftrightarrow>
     bs = wire (map enc tms) @ take k (PutUint32 (of_nat (length q)) @ q) \<and> k < 4 + length q \<and> length q \<le> MaxInt32"

lemma recv_frames_wire:
  assumes "carried enc dec tms" and "on_wire enc tms q k (concat conn)"
  shows "map (decode_msg dec) (fst (recv_frames (512, conn))) = tms"
proof -
  have len: "length p \<le> MaxInt32" if "p \<in> set (map enc tms)" for p
    using assms(1) that by (auto simp: carried_def list_all_iff)
  have w: "concat conn = wire (map enc tms) @ take k (PutUint32 (of_nat (length q)) @ q)" "k < 4 + length q" "length q \<le> MaxInt32"
    using assms(2) by (simp_all add: on_wire_def)
  have "fst (recv_frames (512, conn)) = map enc tms"
    using recv_frames_sent [OF len w(1) recv_frame_cut [OF _ w(2,3)]] by simp
  then show ?thesis using decode_carried [OF assms(1)] by simp
qed

section \<open>Properties\<close>

text \<open>
  C8 (transports): for the service it makes no difference whether a client in the same process talks to it through channels or
  a remote one through a network connection. The same messages, sent through the client's stream of
  either kind, leave the connection's state the same when the connection is gone - streams, private channels,
  contexts, what went to the message queue and in which order, which functions of the service were called -
  however the network cuts the bytes and even if it breaks inside a further frame; and both connections
  end, the network one closed.
\<close>

theorem transports_agree:
  assumes "length xs \<le> n" and "list_all (\<lambda>(tid, m). \<not> too_large m) xs"
    and "carried enc dec (scs_out (net_sends too_large xs (stream_NewStream i q)))"
    and "on_wire enc (scs_out (net_sends too_large xs (stream_NewStream i q))) f k bs"
    and "concat conn = fst handshakeWithServer @ bs"
    and "dispatch_all handles svc mqv (scs_out (net_sends too_large xs (stream_NewStream i q))) new_connState = Some st"
  shows "(\<exists>evs. handleConn handles svc mqv dec False None conn = Some (st, evs) \<and> last evs = NetClose) \<and>
    (\<exists>cs c. chan_sends xs (chan_NewStream i (make_chan n) False) = Ret (Some cs) \<and>
       chan_turns handles svc mqv (svc_qsize svc) (CloseSeen # replicate (Suc (length xs)) Incoming)
         \<lparr>cc_closing = False, cc_recv = cs_serverChan cs, cc_state = new_connState, cc_ended = False\<rparr> = Some c \<and>
       cc_ended c \<and> cc_state c = st)"
proof
  let ?tms = "map (client_tm i) xs"
  have out: "scs_out (net_sends too_large xs (stream_NewStream i q)) = ?tms"
    using net_sends_out [of "stream_NewStream i q", OF _ _ _ assms(2)] by (simp add: stream_NewStream_def)
  obtain info conn' where hs: "handshakeWithClient conn = Inr (info, conn')" and conn': "concat conn' = bs"
    using handshake_accepted [OF assms(5)] by blast
  have "map (decode_msg dec) (fst (recv_frames (512, conn'))) = ?tms"
    using recv_frames_wire [of enc dec ?tms f k conn'] assms(3,4) conn' out by simp
  then have "conn_loop handles svc mqv dec None (512, conn') new_connState = Some st"
    using assms(6) by (simp add: conn_loop_frames out)
  then show "\<exists>evs. handleConn handles svc mqv dec False None conn = Some (st, evs) \<and> last evs = NetClose"
    by (simp add: handleConn_def hs Let_def)
  obtain cs where cs: "chan_sends xs (chan_NewStream i (make_chan n) False) = Ret (Some cs)" "buffered (cs_serverChan cs) = ?tms"
    using chan_sends_buffer [of "chan_NewStream i (make_chan n) False" xs] assms(1) by (auto simp: chan_NewStream_def make_chan_def)
  let ?c = "\<lparr>cc_closing = False, cc_recv = cs_serverChan cs, cc_state = new_connState, cc_ended = False\<rparr>"
  have "tm_decErr tm = None" if "tm \<in> set ?tms" for tm using that by (auto simp: client_tm_def)
  then obtain c where "chan_turns handles svc mqv (svc_qsize svc) (CloseSeen # replicate (Suc (length ?tms)) Incoming) ?c = Some c"
      "cc_ended c" "cc_state c = st"
    using chan_connection_drains [of ?c ?tms handles svc mqv st] cs(2) assms(6) out by auto
  with cs(1) show "\<exists>cs c. chan_sends xs (chan_NewStream i (make_chan n) False) = Ret (Some cs) \<and>
       chan_turns handles svc mqv (svc_qsize svc) (CloseSeen # replicate (Suc (length xs)) Incoming)
         \<lparr>cc_closing = False, cc_recv = cs_serverChan cs, cc_state = new_connState, cc_ended = False\<rparr> = Some c \<and>
       cc_ended c \<and> cc_state c = st"
    by (intro exI [of _ cs] exI [of _ c]) simp
qed

text \<open>An encoder for one message: one byte, the channel's address.\<close>

definition demo_enc :: "nat transportMsg \<Rightarrow> bytes" where
  "demo_enc tm = [of_nat (tm_chan tm)]"

definition demo_dec :: "bytes \<Rightarrow> nat transportMsg \<times> string option" where
  "demo_dec bs = (if bs = [5] then (demo_tm 5 ''M'', None) else (demo_tm 0 [], Some ''invalid''))"

lemma demo_carried: "carried demo_enc demo_dec [demo_tm 5 ''M'']"
  by (simp add: carried_def demo_enc_def demo_dec_def demo_tm_def MaxInt32_def)

lemma demo_on_wire: "on_wire demo_enc [demo_tm 5 ''M''] [] 2 ([0, 0, 0, 1, 5] @ [0, 0])"
  by (simp add: on_wire_def wire_def demo_enc_def demo_tm_def PutUint32_def MaxInt32_def)

theorem transports_agree_witness:
  "\<exists>st evs. handleConn (\<lambda>t. True) demo_svc (V (TPtr (TName ''msgQ'')) 1) demo_dec False None
      [fst handshakeWithServer @ [0], [0, 0, 1, 5], [0, 0]] = Some (st, evs) \<and>
     enqueued st = [(5, meta (demo_tm 5 ''M''))] \<and> last evs = NetClose"
proof -
  let ?xs = "[(None, MValue (V (TName ''M'') 1))] :: (uuidInfo option \<times> gomsg) list"
  let ?out = "scs_out (net_sends (\<lambda>m. False) ?xs (stream_NewStream 5 8))"
  have out: "?out = [demo_tm 5 ''M'']"
    by (simp add: streamClient_Send_def stream_NewStream_def demo_tm_def mk_feats_def)
  obtain st where st: "dispatch_all (\<lambda>t. True) demo_svc (V (TPtr (TName ''msgQ'')) 1) [demo_tm 5 ''M''] new_connState = Some st"
      and q: "enqueued st = [(5, meta (demo_tm 5 ''M''))]"
    by (simp add: dispatch_simps)
  have "\<exists>evs. handleConn (\<lambda>t. True) demo_svc (V (TPtr (TName ''msgQ'')) 1) demo_dec False None
      [fst handshakeWithServer @ [0], [0, 0, 1, 5], [0, 0]] = Some (st, evs) \<and> last evs = NetClose"
    by (rule transports_agree [where xs = ?xs and n = 8 and too_large = "\<lambda>m. False" and i = 5 and q = 8 and enc = demo_enc
          and f = "[]" and k = 2 and bs = "[0, 0, 0, 1, 5] @ [0, 0]", unfolded out, THEN conjunct1])
       (use demo_carried demo_on_wire st in simp_all)
  with q show ?thesis by blast
qed

text \<open>
  C9 (replies over the network): what the server's streams write to a connection reaches the client's streams: however the bytes are cut,
  each stream's channel gets exactly the messages with its address, in the order in which they were
  written, and the receiver is not blocked as long as no stream has ended and each has room.
\<close>

theorem network_replies_arrive:
  assumes "carried enc dec tms" and "on_wire enc tms q k (concat conn)"
    and "\<And>tm. tm \<in> set tms \<Longrightarrow> tm_chan tm \<noteq> 0"
    and "\<And>i e. map_of streams i = Some e \<Longrightarrow>
      \<exists>ch. e = Some ch \<and> \<not> closed ch \<and> length (buffered ch) + length (filter (\<lambda>tm. tm_chan tm = i) tms) \<le> capacity ch"
  shows "\<exists>streams'. client_loop dec (512, conn) streams = Ret (Some streams') \<and>
    (\<forall>i. map_of streams' i =
       map_option (map_option (\<lambda>ch. ch\<lparr>buffered := buffered ch @ map meta (filter (\<lambda>tm. tm_chan tm = i) tms)\<rparr>)) (map_of streams i))"
  using client_demultiplexes [OF assms(3,4)] by (simp add: client_loop_frames recv_frames_wire [OF assms(1,2)])

theorem network_replies_arrive_witness:
  "\<exists>streams'. client_loop demo_dec (512, [[0, 0], [0, 1, 5, 0], [0]]) [(5, Some (make_chan 1))] = Ret (Some streams') \<and>
     map_of streams' 5 = Some (Some \<lparr>buffered = [meta (demo_tm 5 ''M'')], capacity = 1, closed = False\<rparr>)"
proof -
  let ?s = "[(5, Some (make_chan 1))] :: clientStreams"
  have w: "on_wire demo_enc [demo_tm 5 ''M''] [] 2 (concat [[0, 0], [0, 1, 5, 0], [0]])" using demo_on_wire by simp
  have nz: "tm_chan tm \<noteq> 0" if "tm \<in> set [demo_tm 5 ''M'']" for tm using that by (simp add: demo_tm_def)
  have room: "\<exists>ch. e = Some ch \<and> \<not> closed ch \<and> length (buffered ch) + length (filter (\<lambda>tm. tm_chan tm = i) [demo_tm 5 ''M'']) \<le> capacity ch"
    if "map_of ?s i = Some e" for i e
    using that by (auto simp: make_chan_def demo_tm_def split: if_splits)
  obtain streams' where r: "client_loop demo_dec (512, [[0, 0], [0, 1, 5, 0], [0]]) ?s = Ret (Some streams')"
      and m: "\<forall>i. map_of streams' i = map_option (map_option (\<lambda>ch. ch\<lparr>buffered := buffered ch @
        map meta (filter (\<lambda>tm. tm_chan tm = i) [demo_tm 5 ''M''])\<rparr>)) (map_of ?s i)"
    using network_replies_arrive [OF demo_carried w nz room] by blast
  have "map_of streams' 5 = Some (Some \<lparr>buffered = [meta (demo_tm 5 ''M'')], capacity = 1, closed = False\<rparr>)"
    using m [rule_format, of 5] by (simp add: make_chan_def demo_tm_def)
  with r show ?thesis by blast
qed

end
