(* ===== verification/NetRequest.thy ===== *)
theory NetRequest
  imports RequestReply Connection
begin

text \<open>
  The way of a request over a network connection: the client's stream, the frame on the wire, the connection's
  goroutine in the server, the queue, a worker, and the reply's frame back through the client's
  receiver into the stream. The encoder is a parameter as in \<open>Connection\<close>; \<open>chunks\<close> is how the network
  cuts the bytes of a frame into chunks.
\<close>

section \<open>One request\<close>

record 'h netSystem =
  nw_cs :: streamClientStream
  nw_conn :: "nat connState"
  nw_caps :: "32 word \<times> 32 word"
  nw_mq :: "(nat \<times> metaMsg) msgQ_log"
  nw_ss :: serverSide
  nw_h :: 'h

text \<open>A message from one end to the other: encoded, framed, chunks, read by one turn of the receiver's loop, decoded.\<close>

definition deliver ::
  "(nat transportMsg \<Rightarrow> bytes) \<Rightarrow> (bytes \<Rightarrow> nat transportMsg \<times> string option) \<Rightarrow> (bytes \<Rightarrow> bytes list) \<Rightarrow>
   32 word \<Rightarrow> nat transportMsg \<Rightarrow> (nat transportMsg \<times> 32 word) option" where
  "deliver enc dec chunks bufCap tm =
     (case send_frame (enc tm) of
        None \<Rightarrow> None
      | Some b \<Rightarrow>
          (case recv_frame (bufCap, chunks b) of
             Inl e \<Rightarrow> None
           | Inr (bufMsg, bufCap', rest) \<Rightarrow> Some (decode_msg dec bufMsg, bufCap')))"

text \<open>The connection's goroutine takes the frame of the message that the client wrote last.\<close>

definition net_serve_turn ::
  "(nat transportMsg \<Rightarrow> bytes) \<Rightarrow> (bytes \<Rightarrow> nat transportMsg \<times> string option) \<Rightarrow> (bytes \<Rightarrow> bytes list) \<Rightarrow>
   (gotype \<Rightarrow> bool) \<Rightarrow> service \<Rightarrow> govalue \<Rightarrow> (gomsg \<Rightarrow> bool) \<Rightarrow> (gomsg \<Rightarrow> bool) \<Rightarrow> 'h netSystem \<Rightarrow> 'h netSystem option" where
  "net_serve_turn enc dec chunks handles svc mqv high low sys =
     (case deliver enc dec chunks (fst (nw_caps sys)) (last (scs_out (nw_cs sys))) of
        None \<Rightarrow> None
      | Some (tm, bufCap) \<Rightarrow>
          (case stream_dispatch handles svc mqv tm (nw_conn sys) of
             None \<Rightarrow> None
           | Some st \<Rightarrow>
               (let new = drop (length (enqueued (nw_conn sys))) (enqueued st);
                    sys = sys\<lparr>nw_conn := st, nw_caps := (bufCap, snd (nw_caps sys))\<rparr>
                in map_option (\<lambda>mq. sys\<lparr>nw_mq := mq\<rparr>)
                     (fold (\<lambda>x r. Option.bind r (putMetaMsg (mk_known high low x))) new (Some (nw_mq sys))))))"

text \<open>
  A worker takes the next message and handles it; its stream writes the reply's frame, which the client's
  receiver puts into the channel that the frame's address names. \<open>too_large\<close> says which messages exceed the
  limit.
\<close>

definition net_work_turn ::
  "(nat transportMsg \<Rightarrow> bytes) \<Rightarrow> (bytes \<Rightarrow> nat transportMsg \<times> string option) \<Rightarrow> (bytes \<Rightarrow> bytes list) \<Rightarrow> (gomsg \<Rightarrow> bool) \<Rightarrow>
   (gomsg \<Rightarrow> uuidInfo option) \<Rightarrow> ('h \<Rightarrow> gomsg \<Rightarrow> 'h \<times> gomsg option) \<Rightarrow> 'h netSystem \<Rightarrow> 'h netSystem option" where
  "net_work_turn enc dec chunks too_large new_tid handle sys =
     (case worker_take (nw_mq sys) of
        None \<Rightarrow> None
      | Some (km, mq) \<Rightarrow>
          (case worker_handle (\<lambda>tid m ss. Some (streamServer_Send too_large False tid m ss)) new_tid handle
              (snd (msg km)) (nw_ss sys) (nw_h sys) of
             None \<Rightarrow> None
           | Some (ss, h) \<Rightarrow>
               (let sys' = sys\<lparr>nw_mq := mq, nw_ss := ss, nw_h := h\<rparr> in
                case drop (length (sv_sent (nw_ss sys))) (sv_sent ss) of
                  [] \<Rightarrow> Some sys'
                | mm # _ \<Rightarrow>
                    (case deliver enc dec chunks (snd (nw_caps sys))
                        \<lparr>tm_chan = fst (msg km), tm_msg = mm_msg mm, tm_feats = mm_feats mm, tm_decErr = None\<rparr> of
                       None \<Rightarrow> None
                     | Some (tm, bufCap) \<Rightarrow>
                         (case client_receive tm [(scs_id (nw_cs sys), scs_msgChan (nw_cs sys))] of
                            Ret (Some [(i, ch)]) \<Rightarrow>
                              Some (sys'\<lparr>nw_cs := (nw_cs sys)\<lparr>scs_msgChan := ch\<rparr>, nw_caps := (fst (nw_caps sys), bufCap)\<rparr>)
                          | _ \<Rightarrow> None)))))"

definition net_request ::
  "(nat transportMsg \<Rightarrow> bytes) \<Rightarrow> (bytes \<Rightarrow> nat transportMsg \<times> string option) \<Rightarrow> (bytes \<Rightarrow> bytes list) \<Rightarrow> (gomsg \<Rightarrow> bool) \<Rightarrow>
   (gotype \<Rightarrow> bool) \<Rightarrow> service \<Rightarrow> govalue \<Rightarrow> (gomsg \<Rightarrow> bool) \<Rightarrow> (gomsg \<Rightarrow> bool) \<Rightarrow> (gomsg \<Rightarrow> uuidInfo option) \<Rightarrow>
   ('h \<Rightarrow> gomsg \<Rightarrow> 'h \<times> gomsg option) \<Rightarrow> uuidInfo option \<Rightarrow> target \<Rightarrow> gomsg \<Rightarrow> 'h netSystem \<Rightarrow> (recv_result \<times> 'h netSystem) option" where
  "net_request enc dec chunks too_large handles svc mqv high low new_tid handle tid p m sys =
     (case streamClient_Send too_large tid m (nw_cs sys) of
        (None, cs) \<Rightarrow>
          (case Option.bind (net_serve_turn enc dec chunks handles svc mqv high low (sys\<lparr>nw_cs := cs\<rparr>))
              (net_work_turn enc dec chunks too_large new_tid handle) of
             None \<Rightarrow> None
           | Some sys \<Rightarrow>
               (case streamClient_Recv TakeMsg p (nw_cs sys) of
                  Ret (Some (res, cs)) \<Rightarrow> Some (res, sys\<lparr>nw_cs := cs\<rparr>)
                | _ \<Rightarrow> None))
      | _ \<Rightarrow> None)"

section \<open>A system at rest\<close>

definition net_at_rest :: "'h netSystem \<Rightarrow> bool" where
  "net_at_rest sys \<longleftrightarrow>
     (\<exists>ch. scs_msgChan (nw_cs sys) = Some ch \<and> empty_chan ch) \<and> scs_id (nw_cs sys) \<noteq> 0 \<and>
     \<not> conn_closed (nw_cs sys) \<and> \<not> conn_broken (nw_cs sys) \<and>
     egressChan (nw_mq sys) = None \<and> empty_chan (ingressNormalChan (nw_mq sys)) \<and> sv_connClose (nw_ss sys) \<noteq> CCNil"

text \<open>The network keeps the bytes and the encoder the messages.\<close>

definition wire_ok ::
  "(nat transportMsg \<Rightarrow> bytes) \<Rightarrow> (bytes \<Rightarrow> nat transportMsg \<times> string option) \<Rightarrow> (gomsg \<Rightarrow> bool) \<Rightarrow> nat transportMsg list \<Rightarrow> bool" where
  "wire_ok enc dec too_large tms \<longleftrightarrow> carried enc dec tms \<and> list_all (\<lambda>tm. \<not> too_large (tm_msg tm)) tms"

definition keeps_bytes :: "(bytes \<Rightarrow> bytes list) \<Rightarrow> bool" where
  "keeps_bytes chunks \<longleftrightarrow> (\<forall>b. concat (chunks b) = b)"

lemma deliver_ok:
  assumes "carried enc dec [tm]" and "keeps_bytes chunks"
  shows "\<exists>bufCap'. deliver enc dec chunks bufCap tm = Some (tm, bufCap')"
proof -
  let ?b = "PutUint32 (of_nat (length (enc tm))) @ enc tm"
  have len: "length (enc tm) \<le> MaxInt32" and dec: "decode_msg dec (enc tm) = tm"
    using assms(1) by (auto simp: carried_def decode_msg_def)
  have "concat (chunks ?b) = PutUint32 (of_nat (length (enc tm))) @ enc tm @ []" using assms(2) by (simp add: keeps_bytes_def)
  from recv_frame_sent [OF this len, of bufCap] obtain bufCap' rest where
    "recv_frame (bufCap, chunks ?b) = Inr (enc tm, bufCap', rest)" by blast
  then show ?thesis using len dec by (simp add: deliver_def send_frame_def)
qed

lemma put_plain:
  assumes "plain_request handles svc high low (mm_msg (snd x))" and "empty_chan (ingressNormalChan mq)"
  shows "putMetaMsg (mk_known high low x) mq = Some (mq\<lparr>ingressNormalChan := (ingressNormalChan mq)\<lparr>buffered := [mk_known high low x]\<rparr>\<rparr>)"
  using assms by (simp add: putMetaMsg_def class_of_def mk_known_def plain_request_def try_send_def chan_send_def empty_chan_def)

lemma net_serve_rest:
  assumes out: "last (scs_out (nw_cs sys)) = tm" and "carried enc dec [tm]" and "keeps_bytes chunks"
    and req: "plain_request handles svc high low (tm_msg tm)" and "empty_chan (ingressNormalChan (nw_mq sys))"
  shows "\<exists>st caps. net_serve_turn enc dec chunks handles svc mqv high low sys = Some (sys\<lparr>nw_conn := st, nw_caps := caps,
      nw_mq := (nw_mq sys)\<lparr>ingressNormalChan := (ingressNormalChan (nw_mq sys))\<lparr>buffered := [mk_known high low (tm_chan tm, meta tm)]\<rparr>\<rparr>\<rparr>)"
proof -
  obtain bufCap' where d: "deliver enc dec chunks (fst (nw_caps sys)) tm = Some (tm, bufCap')"
    using deliver_ok [OF assms(2,3)] by blast
  obtain ss st1 where g: "get_stream svc mqv (svc_qsize svc) (tm_chan tm) (nw_conn sys) = (ss, st1)" by force
  have e: "enqueued st1 = enqueued (nw_conn sys)"
    using g by (auto simp: get_stream_def Let_def split: option.splits)
  let ?st = "st1\<lparr>enqueued := enqueued st1 @ [(tm_chan tm, meta tm)]\<rparr>"
  have "tm_decErr tm = None" using assms(2) by (simp add: carried_def)
  then have s: "stream_dispatch handles svc mqv tm (nw_conn sys) = Some ?st"
    using req g by (simp add: stream_dispatch_def plain_request_def meta_def)
  have put: "putMetaMsg (mk_known high low (tm_chan tm, meta tm)) (nw_mq sys) = Some ((nw_mq sys)\<lparr>ingressNormalChan :=
      (ingressNormalChan (nw_mq sys))\<lparr>buffered := [mk_known high low (tm_chan tm, meta tm)]\<rparr>\<rparr>)"
    using req assms(5) by (intro put_plain [where handles = handles and svc = svc]) (simp_all add: meta_def)
  show ?thesis
    by (intro exI [of _ ?st] exI [of _ "(bufCap', snd (nw_caps sys))"]) (simp add: net_serve_turn_def out d s e put Let_def)
qed

lemma net_worker_replies:
  assumes "sv_connClose ss \<noteq> CCNil" and "\<not> too_large r" and "handle h m = (h', Some r)"
  shows "\<exists>ss'. worker_handle (\<lambda>tid m ss. Some (streamServer_Send too_large False tid m ss)) new_tid handle
      \<lparr>mm_msg = m, mm_feats = mk_feats tid\<rparr> ss h = Some (ss', h') \<and> sv_connClose ss' = sv_connClose ss \<and>
    sv_sent ss' = sv_sent ss @ [\<lparr>mm_msg = r, mm_feats = mk_feats (reply_tid new_tid tid r)\<rparr>]"
  using assms by (simp add: worker_handle_def streamServer_Send_def streamServer_send_def reply_tid_def Let_def)

definition reply_tm :: "nat \<Rightarrow> uuidInfo option \<Rightarrow> gomsg \<Rightarrow> nat transportMsg" where
  "reply_tm i tid m = \<lparr>tm_chan = i, tm_msg = m, tm_feats = mk_feats tid, tm_decErr = None\<rparr>"

lemma net_work_rest:
  fixes new_tid :: "gomsg \<Rightarrow> uuidInfo option"
  assumes "egressChan (nw_mq sys) = None" and "buffered (ingressNormalChan (nw_mq sys)) = [km]"
    and ch: "scs_msgChan (nw_cs sys) = Some ch" and "empty_chan ch" and ss: "sv_connClose (nw_ss sys) \<noteq> CCNil"
    and km: "msg km = (scs_id (nw_cs sys), \<lparr>mm_msg = m, mm_feats = mk_feats tid\<rparr>)" and h: "handle (nw_h sys) m = (h', Some r)"
    and "scs_id (nw_cs sys) \<noteq> 0"
    and w: "wire_ok enc dec too_large [reply_tm (scs_id (nw_cs sys)) (reply_tid new_tid tid r) r]" and k: "keeps_bytes chunks"
  shows "\<exists>ss caps. net_work_turn enc dec chunks too_large new_tid handle sys = Some (sys\<lparr>
      nw_mq := (nw_mq sys)\<lparr>ingressNormalChan := (ingressNormalChan (nw_mq sys))\<lparr>buffered := []\<rparr>, handled := handled (nw_mq sys) @ [km]\<rparr>,
      nw_ss := ss, nw_h := h',
      nw_cs := (nw_cs sys)\<lparr>scs_msgChan := Some (ch\<lparr>buffered := [\<lparr>mm_msg = r, mm_feats = mk_feats (reply_tid new_tid tid r)\<rparr>]\<rparr>)\<rparr>,
      nw_caps := caps\<rparr>) \<and> sv_connClose ss = sv_connClose (nw_ss sys)"
proof -
  let ?rtid = "reply_tid new_tid tid r"
  have small: "\<not> too_large r" and c: "carried enc dec [reply_tm (scs_id (nw_cs sys)) ?rtid r]"
    using w by (simp_all add: wire_ok_def reply_tm_def)
  obtain ss where s: "worker_handle (\<lambda>tid m ss. Some (streamServer_Send too_large False tid m ss)) new_tid handle
      \<lparr>mm_msg = m, mm_feats = mk_feats tid\<rparr> (nw_ss sys) (nw_h sys) = Some (ss, h')" "sv_connClose ss = sv_connClose (nw_ss sys)"
    "sv_sent ss = sv_sent (nw_ss sys) @ [\<lparr>mm_msg = r, mm_feats = mk_feats ?rtid\<rparr>]"
    using net_worker_replies [where handle = handle and new_tid = new_tid and too_large = too_large, OF ss small h] by blast
  obtain bufCap' where d: "deliver enc dec chunks (snd (nw_caps sys)) (reply_tm (scs_id (nw_cs sys)) ?rtid r) =
      Some (reply_tm (scs_id (nw_cs sys)) ?rtid r, bufCap')"
    using deliver_ok [OF c k] by blast
  have take: "worker_take (nw_mq sys) = Some (km, (nw_mq sys)\<lparr>ingressNormalChan := (ingressNormalChan (nw_mq sys))\<lparr>buffered := []\<rparr>,
      handled := handled (nw_mq sys) @ [km]\<rparr>)"
    by (rule worker_take_rest) fact+
  show ?thesis
    using assms(4,8) d
    by (intro exI [of _ ss] exI [of _ "(fst (nw_caps sys), bufCap')"])
       (simp add: net_work_turn_def take km s ch Let_def client_receive_def try_send_def chan_send_def empty_chan_def reply_tm_def)
qed

lemma net_request_rest:
  fixes new_tid :: "gomsg \<Rightarrow> uuidInfo option" and sys :: "'h netSystem"
  assumes rest: "net_at_rest sys" and req: "plain_request handles svc high low m" and h: "handle (nw_h sys) m = (h', Some r)"
    and r: "r \<noteq> MError io_EOF" and p: "p \<noteq> TargetBad" and k: "keeps_bytes chunks"
    and w: "wire_ok enc dec too_large [reply_tm (scs_id (nw_cs sys)) tid m, reply_tm (scs_id (nw_cs sys)) (reply_tid new_tid tid r) r]"
  shows "\<exists>sys'. net_request enc dec chunks too_large handles svc mqv high low new_tid handle tid p m sys = Some (recv_msg True p r, sys') \<and>
    net_at_rest sys' \<and> nw_h sys' = h' \<and> scs_id (nw_cs sys') = scs_id (nw_cs sys)"
proof -
  let ?i = "scs_id (nw_cs sys)"
  let ?tm = "reply_tm ?i tid m"
  from rest obtain ch where ch: "scs_msgChan (nw_cs sys) = Some ch" "empty_chan ch" by (auto simp: net_at_rest_def)
  have small: "\<not> too_large m" and c: "carried enc dec [?tm]" using w by (simp_all add: wire_ok_def carried_def reply_tm_def)
  obtain cs where send: "streamClient_Send too_large tid m (nw_cs sys) = (None, cs)" and cs: "last (scs_out cs) = ?tm" "scs_id cs = ?i"
      "scs_msgChan cs = Some ch" "\<not> conn_closed cs" "\<not> conn_broken cs"
    using rest ch small by (simp add: net_at_rest_def streamClient_Send_def Let_def reply_tm_def)
  let ?s1 = "sys\<lparr>nw_cs := cs\<rparr>" and ?km = "mk_known high low (?i, meta ?tm)"
  have pre: "plain_request handles svc high low (tm_msg ?tm)" "last (scs_out (nw_cs ?s1)) = ?tm" "empty_chan (ingressNormalChan (nw_mq ?s1))"
    using req cs rest by (simp_all add: reply_tm_def net_at_rest_def)
  obtain st caps where serve: "net_serve_turn enc dec chunks handles svc mqv high low ?s1 = Some (?s1\<lparr>nw_conn := st, nw_caps := caps,
      nw_mq := (nw_mq sys)\<lparr>ingressNormalChan := (ingressNormalChan (nw_mq sys))\<lparr>buffered := [?km]\<rparr>\<rparr>\<rparr>)"
    using net_serve_rest [where handles = handles and high = high and low = low and mqv = mqv, OF pre(2) c k pre(1,3)] by (auto simp: reply_tm_def)
  let ?s2 = "?s1\<lparr>nw_conn := st, nw_caps := caps,
      nw_mq := (nw_mq sys)\<lparr>ingressNormalChan := (ingressNormalChan (nw_mq sys))\<lparr>buffered := [?km]\<rparr>\<rparr>\<rparr>"
  have conds: "egressChan (nw_mq ?s2) = None" "buffered (ingressNormalChan (nw_mq ?s2)) = [?km]" "scs_msgChan (nw_cs ?s2) = Some ch"
    "sv_connClose (nw_ss ?s2) \<noteq> CCNil" "msg ?km = (scs_id (nw_cs ?s2), \<lparr>mm_msg = m, mm_feats = mk_feats tid\<rparr>)"
    "handle (nw_h ?s2) m = (h', Some r)" "scs_id (nw_cs ?s2) \<noteq> 0"
    "wire_ok enc dec too_large [reply_tm (scs_id (nw_cs ?s2)) (reply_tid new_tid tid r) r]"
    using rest cs h w by (simp_all add: net_at_rest_def mk_known_def meta_def reply_tm_def wire_ok_def carried_def)
  obtain ss caps' where work: "net_work_turn enc dec chunks too_large new_tid handle ?s2 = Some (?s2\<lparr>
      nw_mq := (nw_mq ?s2)\<lparr>ingressNormalChan := (ingressNormalChan (nw_mq ?s2))\<lparr>buffered := []\<rparr>, handled := handled (nw_mq ?s2) @ [?km]\<rparr>,
      nw_ss := ss, nw_h := h',
      nw_cs := cs\<lparr>scs_msgChan := Some (ch\<lparr>buffered := [\<lparr>mm_msg = r, mm_feats = mk_feats (reply_tid new_tid tid r)\<rparr>]\<rparr>)\<rparr>,
      nw_caps := caps'\<rparr>)" and ss: "sv_connClose ss = sv_connClose (nw_ss sys)"
    using net_work_rest [where handle = handle and enc = enc and dec = dec and too_large = too_large, OF conds(1-3) ch(2) conds(4-8) k] by auto
  let ?s3 = "?s2\<lparr>nw_mq := (nw_mq ?s2)\<lparr>ingressNormalChan := (ingressNormalChan (nw_mq ?s2))\<lparr>buffered := []\<rparr>, handled := handled (nw_mq ?s2) @ [?km]\<rparr>,
      nw_ss := ss, nw_h := h',
      nw_cs := cs\<lparr>scs_msgChan := Some (ch\<lparr>buffered := [\<lparr>mm_msg = r, mm_feats = mk_feats (reply_tid new_tid tid r)\<rparr>]\<rparr>)\<rparr>,
      nw_caps := caps'\<rparr>"
  obtain cs4 where recv: "streamClient_Recv TakeMsg p (nw_cs ?s3) = Ret (Some (recv_msg True p r, cs4))"
    and cs4: "scs_msgChan cs4 = Some (ch\<lparr>buffered := []\<rparr>)" "scs_id cs4 = ?i" "\<not> conn_closed cs4" "\<not> conn_broken cs4"
    using r p cs by (simp add: streamClient_Recv_def try_recv_def chan_recv_def Let_def)
  have "net_request enc dec chunks too_large handles svc mqv high low new_tid handle tid p m sys = Some (recv_msg True p r, ?s3\<lparr>nw_cs := cs4\<rparr>)"
    by (simp only: net_request_def send serve work recv option.case prod.case outcome.case bind.bind_lunit)
  moreover have "net_at_rest (?s3\<lparr>nw_cs := cs4\<rparr>)"
    using rest ch cs4 ss by (simp add: net_at_rest_def empty_chan_def)
  ultimately show ?thesis
    using cs4 by (intro exI [of _ "?s3\<lparr>nw_cs := cs4\<rparr>"]) simp
qed

section \<open>Requests one after the other\<close>

fun net_requests ::
  "(nat transportMsg \<Rightarrow> bytes) \<Rightarrow> (bytes \<Rightarrow> nat transportMsg \<times> string option) \<Rightarrow> (bytes \<Rightarrow> bytes list) \<Rightarrow> (gomsg \<Rightarrow> bool) \<Rightarrow>
   (gotype \<Rightarrow> bool) \<Rightarrow> service \<Rightarrow> govalue \<Rightarrow> (gomsg \<Rightarrow> bool) \<Rightarrow> (gomsg \<Rightarrow> bool) \<Rightarrow> (gomsg \<Rightarrow> uuidInfo option) \<Rightarrow>
   ('h \<Rightarrow> gomsg \<Rightarrow> 'h \<times> gomsg option) \<Rightarrow> (uuidInfo option \<times> target \<times> gomsg) list \<Rightarrow> 'h netSystem \<Rightarrow>
   (recv_result list \<times> 'h netSystem) option" where
  "net_requests enc dec chunks too_large handles svc mqv high low new_tid handle [] sys = Some ([], sys)"
| "net_requests enc dec chunks too_large handles svc mqv high low new_tid handle ((tid, p, m) # xs) sys =
     Option.bind (net_request enc dec chunks too_large handles svc mqv high low new_tid handle tid p m sys) (\<lambda>(res, sys').
       map_option (\<lambda>(rs, sys''). (res # rs, sys''))
         (net_requests enc dec chunks too_large handles svc mqv high low new_tid handle xs sys'))"

text \<open>The messages on the wire while the requests run: each request and its reply.\<close>

fun exchanged ::
  "nat \<Rightarrow> (gomsg \<Rightarrow> uuidInfo option) \<Rightarrow> ('h \<Rightarrow> gomsg \<Rightarrow> 'h \<times> gomsg option) \<Rightarrow> (uuidInfo option \<times> target \<times> gomsg) list \<Rightarrow>
   'h \<Rightarrow> nat transportMsg list" where
  "exchanged i new_tid handle [] h = []"
| "exchanged i new_tid handle ((tid, p, m) # xs) h =
     (let (h', r) = handle h m in
      reply_tm i tid m # (case r of None \<Rightarrow> [] | Some r \<Rightarrow> [reply_tm i (reply_tid new_tid tid r) r]) @
      exchanged i new_tid handle xs h')"

lemma wire_ok_append [simp]: "wire_ok enc dec too_large (xs @ ys) \<longleftrightarrow> wire_ok enc dec too_large xs \<and> wire_ok enc dec too_large ys"
  by (auto simp: wire_ok_def carried_def)

lemma net_requests_rest:
  assumes "always_replies handle" and "keeps_bytes chunks" and "net_at_rest sys"
    and "list_all (\<lambda>(tid, p, m). plain_request handles svc high low m \<and> p \<noteq> TargetBad) xs"
    and "wire_ok enc dec too_large (exchanged (scs_id (nw_cs sys)) new_tid handle xs (nw_h sys))"
  shows "\<exists>sys'. net_requests enc dec chunks too_large handles svc mqv high low new_tid handle xs sys =
      Some (map2 (\<lambda>(tid, p, m). client_view p) xs (fst (handler_run handle (map (snd \<circ> snd) xs) (nw_h sys))), sys') \<and>
    nw_h sys' = snd (handler_run handle (map (snd \<circ> snd) xs) (nw_h sys)) \<and> net_at_rest sys'"
  using assms(3-)
proof (induction xs arbitrary: sys)
  case (Cons x xs)
  obtain tid p m where x: "x = (tid, p, m)" by (cases x)
  obtain h' r where h: "handle (nw_h sys) m = (h', Some r)" and r: "r \<noteq> MError io_EOF"
    using assms(1) unfolding always_replies_def by metis
  have pm: "plain_request handles svc high low m" "p \<noteq> TargetBad" using Cons.prems(2) x by simp_all
  have w: "wire_ok enc dec too_large [reply_tm (scs_id (nw_cs sys)) tid m, reply_tm (scs_id (nw_cs sys)) (reply_tid new_tid tid r) r]"
    "wire_ok enc dec too_large (exchanged (scs_id (nw_cs sys)) new_tid handle xs h')"
    using Cons.prems(3) by (auto simp: x h wire_ok_def carried_def)
  obtain sys1 where 1: "net_request enc dec chunks too_large handles svc mqv high low new_tid handle tid p m sys = Some (recv_msg True p r, sys1)"
    "net_at_rest sys1" "nw_h sys1 = h'" "scs_id (nw_cs sys1) = scs_id (nw_cs sys)"
    using net_request_rest [where handle = handle and handles = handles and high = high and low = low and enc = enc and dec = dec and too_large = too_large, OF Cons.prems(1) pm(1) h r pm(2) assms(2) w(1)] by blast
  have "list_all (\<lambda>(tid, p, m). plain_request handles svc high low m \<and> p \<noteq> TargetBad) xs" using Cons.prems(2) by simp
  from Cons.IH [OF 1(2) this] w(2) obtain sys2 where 2:
    "net_requests enc dec chunks too_large handles svc mqv high low new_tid handle xs sys1 =
      Some (map2 (\<lambda>(tid, p, m). client_view p) xs (fst (handler_run handle (map (snd \<circ> snd) xs) h')), sys2)"
    "nw_h sys2 = snd (handler_run handle (map (snd \<circ> snd) xs) h')" "net_at_rest sys2"
    unfolding 1(3,4) by blast
  have view: "client_view p (Some r) = recv_msg True p r" by (simp add: client_view_def)
  show ?case
    using 2(2,3) by (intro exI [of _ sys2]) (simp add: x 1(1) 2(1) h view Let_def comp_def split_beta)
qed simp

text \<open>
  A client that has just opened a stream on a connection whose handshake is done; both receivers' buffers
  have their first capacity.
\<close>

definition new_netSystem :: "nat \<Rightarrow> nat \<Rightarrow> int \<Rightarrow> nat \<Rightarrow> int \<Rightarrow> nat \<Rightarrow> string \<Rightarrow> 'h \<Rightarrow> 'h netSystem" where
  "new_netSystem i n resident qSizePerCore weight numCPU who h =
     \<lparr>nw_cs = stream_NewStream i n, nw_conn = new_connState, nw_caps = (512, 512),
      nw_mq = newMsgQ resident qSizePerCore weight numCPU,
      nw_ss = \<lparr>sv_connClose = CCOpen, sv_private = make_chan n, sv_sent = [], sv_encMainCopy = False, sv_d = 0,
        sv_routine = None, sv_who = who, sv_traced = []\<rparr>,
      nw_h = h\<rparr>"

lemma net_at_rest_new:
  "0 < i \<Longrightarrow> 0 < n \<Longrightarrow> 0 < qSizePerCore * numCPU \<Longrightarrow> net_at_rest (new_netSystem i n resident qSizePerCore weight numCPU who h)"
  by (simp add: net_at_rest_def new_netSystem_def stream_NewStream_def empty_chan_def make_chan_def newMsgQ_def Let_def)

lemma new_netSystem_simps [simp]:
  "nw_h (new_netSystem i n resident qSizePerCore weight numCPU who h) = h"
  "scs_id (nw_cs (new_netSystem i n resident qSizePerCore weight numCPU who h)) = i"
  by (simp_all add: new_netSystem_def stream_NewStream_def)

end
