(* ===== verification/NestedCalls.thy ===== *)
theory NestedCalls
  imports RequestReply "HOL-Library.Sublist"
begin

text \<open>
  The tracing id on its way through nested requests. A handler that makes requests itself runs in a worker's goroutine, and the id of the
  message it handles is kept in storage local to that goroutine (\<open>routinelocal.go\<close>, set by \<open>msgQ.worker\<close>, read by \<open>getTracingID\<close>), so that
  all requests it makes and its reply carry the id. The storage is that of the package \<open>routine\<close>: every goroutine has its own, empty at the
  start; the builds for ppc do without it. What the handlers do is given by trees of calls; a root is a client's request. Any number of
  requests run at the same time, and every step may be of any of them.
\<close>

section \<open>Goroutine local storage\<close>

text \<open>\<open>has\<close> is whether the build has the storage.\<close>

definition getRoutineLocal :: "bool \<Rightarrow> (nat \<Rightarrow> uuidInfo option) \<Rightarrow> nat \<Rightarrow> uuidInfo option option" where
  "getRoutineLocal has local g = (if has then Some (local g) else None)"

definition setRoutineLocal :: "bool \<Rightarrow> nat \<Rightarrow> uuidInfo option \<Rightarrow> (nat \<Rightarrow> uuidInfo option) \<Rightarrow> nat \<Rightarrow> uuidInfo option" where
  "setRoutineLocal has g tid local = (case getRoutineLocal has local g of None \<Rightarrow> local | Some info \<Rightarrow> local(g := tid))"

text \<open>\<open>getTracingID\<close> in goroutine \<open>g\<close>; \<open>listed\<close> is what the list of traced types gives when the goroutine has no id.\<close>

definition routineTracingID :: "bool \<Rightarrow> (nat \<Rightarrow> uuidInfo option) \<Rightarrow> nat \<Rightarrow> uuidInfo option \<Rightarrow> uuidInfo option" where
  "routineTracingID has local g listed =
     (case getRoutineLocal has local g of
        Some (Some tracingID) \<Rightarrow> Some tracingID
      | _ \<Rightarrow> listed)"

section \<open>Requests\<close>

text \<open>The service, the request, the requests of its handler one after the other, its reply.\<close>

datatype callTree = CallTree string gomsg "callTree list" gomsg

datatype action = ASend gomsg | ATake string | AReply string gomsg | ARecv

primrec actions :: "callTree \<Rightarrow> action list" where
  "actions (CallTree svc m subs r) = [ASend m, ATake svc] @ concat (map actions subs) @ [AReply svc r, ARecv]"

text \<open>The goroutines of a request, the innermost first and the client's last, the message between two of them, and what is to do.\<close>

record callThread =
  ct_stack :: "nat list"
  ct_flight :: "metaMsg option"
  ct_todo :: "action list"

record callSystem =
  ns_local :: "nat \<Rightarrow> uuidInfo option"
  ns_threads :: "callThread list"
  ns_log :: "traced_call list"

definition new_calls :: "(nat \<times> callTree) list \<Rightarrow> callSystem" where
  "new_calls roots =
     \<lparr>ns_local = (\<lambda>g. None), ns_threads = map (\<lambda>(c, t). \<lparr>ct_stack = [c], ct_flight = None, ct_todo = actions t\<rparr>) roots, ns_log = []\<rparr>"

definition busy :: "nat \<Rightarrow> callSystem \<Rightarrow> bool" where
  "busy w sys = list_ex (\<lambda>t. w \<in> set (ct_stack t)) (ns_threads sys)"

definition call_update :: "nat \<Rightarrow> callThread \<Rightarrow> uuidInfo option \<Rightarrow> string \<Rightarrow> gomsg \<Rightarrow> callSystem \<Rightarrow> callSystem" where
  "call_update i t tid tag m sys =
     sys\<lparr>ns_threads := (ns_threads sys)[i := t], ns_log := note_trace tid tag m (ns_log sys)\<rparr>"

text \<open>
  One step of request \<open>i\<close>: a client's \<open>Send\<close>, an idle worker \<open>w\<close> that takes the message and calls the handler, the worker's
  \<open>Send\<close> of the reply, the client's \<open>Recv\<close>.
\<close>

definition thread_step :: "bool \<Rightarrow> nat \<Rightarrow> nat \<Rightarrow> uuidInfo option \<Rightarrow> callThread \<Rightarrow> callSystem \<Rightarrow> callSystem" where
  "thread_step has i w listed t sys =
     (case (ct_todo t, ct_stack t, ct_flight t) of
        (ASend m # todo, g # gs, _) \<Rightarrow>
          (let tid = routineTracingID has (ns_local sys) g listed in
           call_update i (t\<lparr>ct_flight := Some \<lparr>mm_msg = m, mm_feats = mk_feats tid\<rparr>, ct_todo := todo\<rparr>) tid ''client send'' m sys)
      | (ATake svc # todo, gs, Some mm) \<Rightarrow>
          if busy w sys then sys
          else (let tid = getTracingID_feats (mm_feats mm) in
                call_update i (t\<lparr>ct_stack := w # gs, ct_flight := None, ct_todo := todo\<rparr>) tid (svc @ '' handler'') (mm_msg mm)
                  (sys\<lparr>ns_local := setRoutineLocal has w tid (ns_local sys)\<rparr>))
      | (AReply svc r # todo, g # gs, _) \<Rightarrow>
          (let tid = routineTracingID has (ns_local sys) g listed in
           call_update i (t\<lparr>ct_stack := gs, ct_flight := Some \<lparr>mm_msg = r, mm_feats = mk_feats tid\<rparr>, ct_todo := todo\<rparr>) tid
             (svc @ '' send'') r sys)
      | (ARecv # todo, _, Some mm) \<Rightarrow>
          call_update i (t\<lparr>ct_flight := None, ct_todo := todo\<rparr>) (getTracingID_feats (mm_feats mm)) ''client recv'' (mm_msg mm) sys
      | _ \<Rightarrow> sys)"

definition call_step :: "bool \<Rightarrow> callSystem \<Rightarrow> nat \<times> nat \<times> uuidInfo option \<Rightarrow> callSystem" where
  "call_step has sys e =
     (case e of (i, w, listed) \<Rightarrow> if i < length (ns_threads sys) then thread_step has i w listed (ns_threads sys ! i) sys else sys)"

section \<open>The trace of a request\<close>

primrec tree_log :: "uuidInfo \<Rightarrow> callTree \<Rightarrow> traced_call list" where
  "tree_log u (CallTree svc m subs r) =
     [(m, u, ''client send''), (m, u, svc @ '' handler'')] @ concat (map (tree_log u) subs) @
     [(r, u, svc @ '' send''), (r, u, ''client recv'')]"

fun todo_log :: "uuidInfo \<Rightarrow> gomsg option \<Rightarrow> action list \<Rightarrow> traced_call list" where
  "todo_log u b [] = []"
| "todo_log u b (ASend m # as) = (m, u, ''client send'') # todo_log u (Some m) as"
| "todo_log u b (ATake svc # as) = (case b of None \<Rightarrow> [] | Some m \<Rightarrow> (m, u, svc @ '' handler'') # todo_log u None as)"
| "todo_log u b (AReply svc r # as) = (r, u, svc @ '' send'') # todo_log u (Some r) as"
| "todo_log u b (ARecv # as) = (case b of None \<Rightarrow> [] | Some m \<Rightarrow> (m, u, ''client recv'') # todo_log u None as)"

lemma todo_log_actions: "todo_log u None (actions t @ as) = tree_log u t @ todo_log u None as"
proof (induction t arbitrary: as)
  case (CallTree svc m subs r)
  have "\<forall>t\<in>set ts. t \<in> set subs \<Longrightarrow>
      todo_log u None (concat (map actions ts) @ as') = concat (map (tree_log u) ts) @ todo_log u None as'" for ts as'
    by (induction ts) (simp_all add: CallTree.IH)
  then show ?case by simp
qed

text \<open>Inside a root request with \<open>n\<close> workers there is always a worker that sends; \<open>b\<close> is whether a message is between two goroutines.\<close>

fun wf_todo :: "nat \<Rightarrow> bool \<Rightarrow> action list \<Rightarrow> bool" where
  "wf_todo n b [] \<longleftrightarrow> \<not> b"
| "wf_todo n b (ASend m # as) \<longleftrightarrow> \<not> b \<and> 0 < n \<and> wf_todo n True as"
| "wf_todo n b (ATake svc # as) \<longleftrightarrow> b \<and> wf_todo (Suc n) False as"
| "wf_todo n b (AReply svc r # as) \<longleftrightarrow> \<not> b \<and> 0 < n \<and> wf_todo (n - 1) True as"
| "wf_todo n b (ARecv # as) \<longleftrightarrow> b \<and> wf_todo n False as"

lemma wf_todo_actions: "0 < n \<Longrightarrow> wf_todo n False as \<Longrightarrow> wf_todo n False (actions t @ as)"
proof (induction t arbitrary: n as)
  case (CallTree svc m subs r)
  have "\<forall>t\<in>set ts. t \<in> set subs \<Longrightarrow> wf_todo (Suc n) False as' \<Longrightarrow> wf_todo (Suc n) False (concat (map actions ts) @ as')" for ts as'
    by (induction ts) (simp_all add: CallTree.IH)
  with CallTree.prems show ?case by simp
qed

lemma wf_todo_root: "\<exists>m as. actions t = ASend m # as \<and> wf_todo 0 True as"
proof (cases t)
  case (CallTree svc m subs r)
  have "wf_todo 1 False as \<Longrightarrow> wf_todo 1 False (concat (map actions ts) @ as)" for ts as
    by (induction ts) (simp_all add: wf_todo_actions)
  with CallTree show ?thesis by simp
qed

definition of_id :: "uuidInfo \<Rightarrow> traced_call list \<Rightarrow> traced_call list" where
  "of_id u = filter (\<lambda>(m, v, tag). v = u)"

lemma of_id_note [simp]: "of_id u (note_trace tid tag m l) = of_id u l @ (if tid = Some u then [(m, u, tag)] else [])"
  by (auto simp: of_id_def note_trace_def split: option.splits)

text \<open>A request without the id: neither its message nor its goroutines have it.\<close>

definition without_id :: "uuidInfo \<Rightarrow> (nat \<Rightarrow> uuidInfo option) \<Rightarrow> callThread \<Rightarrow> bool" where
  "without_id u local t \<longleftrightarrow>
     (\<forall>mm. ct_flight t = Some mm \<longrightarrow> getTracingID_feats (mm_feats mm) \<noteq> Some u) \<and> (\<forall>g\<in>set (ct_stack t). local g \<noteq> Some u)"

text \<open>A request with the id.\<close>

definition with_id :: "uuidInfo \<Rightarrow> (nat \<Rightarrow> uuidInfo option) \<Rightarrow> callThread \<Rightarrow> bool" where
  "with_id u local t \<longleftrightarrow>
     (\<exists>ws c. ct_stack t = ws @ [c] \<and> (\<forall>w\<in>set ws. local w = Some u) \<and> wf_todo (length ws) (ct_flight t \<noteq> None) (ct_todo t)) \<and>
     (\<forall>mm. ct_flight t = Some mm \<longrightarrow> getTracingID_feats (mm_feats mm) = Some u)"

definition flight_msg :: "callThread \<Rightarrow> gomsg option" where
  "flight_msg t = map_option mm_msg (ct_flight t)"

lemmas step_defs = thread_step_def call_update_def routineTracingID_def getRoutineLocal_def setRoutineLocal_def

text \<open>A step of one request leaves the goroutines of the others alone.\<close>

lemma thread_step_frame:
  assumes "i < length (ns_threads sys)" and "j < length (ns_threads sys)" and "j \<noteq> i"
  shows "ns_threads (thread_step has i w listed (ns_threads sys ! i) sys) ! j = ns_threads sys ! j"
    and "g \<in> set (ct_stack (ns_threads sys ! j)) \<Longrightarrow> ns_local (thread_step has i w listed (ns_threads sys ! i) sys) g = ns_local sys g"
  using assms by (auto simp: step_defs busy_def list_ex_iff Let_def split: list.splits action.splits option.splits)

lemma thread_step_length [simp]: "length (ns_threads (thread_step has i w listed t sys)) = length (ns_threads sys)"
  by (auto simp: step_defs Let_def split: list.splits action.splits option.splits)

lemma thread_step_without:
  fixes w :: nat and listed :: "uuidInfo option"
  assumes "i < length (ns_threads sys)" and "without_id u (ns_local sys) (ns_threads sys ! i)" and "listed \<noteq> Some u"
  defines "sys' \<equiv> thread_step True i w listed (ns_threads sys ! i) sys"
  shows "without_id u (ns_local sys') (ns_threads sys' ! i)" and "of_id u (ns_log sys') = of_id u (ns_log sys)"
  using assms unfolding sys'_def
  by (auto simp: step_defs without_id_def busy_def list_ex_iff Let_def split: list.splits action.splits option.splits)

lemma thread_step_with:
  fixes w :: nat and listed :: "uuidInfo option"
  assumes "i < length (ns_threads sys)" and "with_id u (ns_local sys) (ns_threads sys ! i)"
  defines "sys' \<equiv> thread_step True i w listed (ns_threads sys ! i) sys"
  shows "with_id u (ns_local sys') (ns_threads sys' ! i) \<and>
    of_id u (ns_log sys') @ todo_log u (flight_msg (ns_threads sys' ! i)) (ct_todo (ns_threads sys' ! i)) =
    of_id u (ns_log sys) @ todo_log u (flight_msg (ns_threads sys ! i)) (ct_todo (ns_threads sys ! i))"
proof -
  let ?t = "ns_threads sys ! i"
  obtain ws c where ws: "ct_stack ?t = ws @ [c]" "\<forall>w\<in>set ws. ns_local sys w = Some u" "wf_todo (length ws) (ct_flight ?t \<noteq> None) (ct_todo ?t)"
    and f: "\<forall>mm. ct_flight ?t = Some mm \<longrightarrow> getTracingID_feats (mm_feats mm) = Some u"
    using assms(2) unfolding with_id_def by blast
  show ?thesis
  proof (cases "ct_todo ?t")
    case Nil
    then show ?thesis using assms(2) by (simp add: sys'_def thread_step_def)
  next
    case (Cons a as)
    show ?thesis
    proof (cases a)
      case (ASend m)
      then obtain g gs where "ws = g # gs" using ws(3) Cons by (cases ws) auto
      with ws f Cons ASend assms(1) show ?thesis
        by (auto simp: sys'_def step_defs with_id_def flight_msg_def Let_def intro!: exI [of _ "g # gs"])
    next
      case (ATake svc)
      then obtain mm where "ct_flight ?t = Some mm" using ws(3) Cons by auto
      with ws f Cons ATake assms(1,2) show ?thesis
        by (auto simp: sys'_def step_defs with_id_def flight_msg_def busy_def list_ex_iff Let_def intro!: exI [of _ "w # ws"])
    next
      case (AReply svc r)
      then obtain g gs where "ws = g # gs" using ws(3) Cons by (cases ws) auto
      with ws f Cons AReply assms(1) show ?thesis
        by (auto simp: sys'_def step_defs with_id_def flight_msg_def Let_def intro!: exI [of _ gs])
    next
      case ARecv
      then obtain mm where "ct_flight ?t = Some mm" using ws(3) Cons by auto
      with ws f Cons ARecv assms(1) show ?thesis
        by (auto simp: sys'_def step_defs with_id_def flight_msg_def Let_def intro!: exI [of _ ws])
    qed
  qed
qed


definition absent :: "uuidInfo \<Rightarrow> callSystem \<Rightarrow> bool" where
  "absent u sys \<longleftrightarrow> of_id u (ns_log sys) = [] \<and> (\<forall>j<length (ns_threads sys). without_id u (ns_local sys) (ns_threads sys ! j))"

definition traced_as :: "uuidInfo \<Rightarrow> nat \<Rightarrow> callTree \<Rightarrow> callSystem \<Rightarrow> bool" where
  "traced_as u i tree sys \<longleftrightarrow>
     i < length (ns_threads sys) \<and> with_id u (ns_local sys) (ns_threads sys ! i) \<and>
     of_id u (ns_log sys) @ todo_log u (flight_msg (ns_threads sys ! i)) (ct_todo (ns_threads sys ! i)) = tree_log u tree \<and>
     (\<forall>j<length (ns_threads sys). j \<noteq> i \<longrightarrow> without_id u (ns_local sys) (ns_threads sys ! j))"

definition not_listed :: "uuidInfo \<Rightarrow> nat \<times> nat \<times> uuidInfo option \<Rightarrow> bool" where
  "not_listed u e \<longleftrightarrow> snd (snd e) \<noteq> Some u"

lemma without_id_frame:
  assumes "i < length (ns_threads sys)" and "j < length (ns_threads sys)" and "j \<noteq> i"
  shows "without_id u (ns_local (thread_step has i w listed (ns_threads sys ! i) sys)) (ns_threads (thread_step has i w listed (ns_threads sys ! i) sys) ! j) \<longleftrightarrow>
    without_id u (ns_local sys) (ns_threads sys ! j)"
  unfolding without_id_def thread_step_frame(1) [OF assms] using thread_step_frame(2) [OF assms] by simp

lemma with_id_frame:
  assumes "i < length (ns_threads sys)" and "j < length (ns_threads sys)" and "j \<noteq> i"
  shows "with_id u (ns_local sys) (ns_threads sys ! j) \<Longrightarrow>
    with_id u (ns_local (thread_step has i w listed (ns_threads sys ! i) sys)) (ns_threads (thread_step has i w listed (ns_threads sys ! i) sys) ! j)"
  unfolding with_id_def thread_step_frame(1) [OF assms] using thread_step_frame(2) [OF assms] by (metis Un_iff set_append)

lemma absent_step: "absent u sys \<Longrightarrow> not_listed u e \<Longrightarrow> absent u (call_step True sys e)"
proof (cases e)
  case (fields i w listed)
  assume a: "absent u sys" and n: "not_listed u e"
  show ?thesis
  proof (cases "i < length (ns_threads sys)")
    case True
    let ?sys = "thread_step True i w listed (ns_threads sys ! i) sys"
    have l: "listed \<noteq> Some u" using n fields by (simp add: not_listed_def)
    have a: "of_id u (ns_log sys) = []" "\<And>k. k < length (ns_threads sys) \<Longrightarrow> without_id u (ns_local sys) (ns_threads sys ! k)"
      using a by (simp_all add: absent_def)
    have w: "without_id u (ns_local ?sys) (ns_threads ?sys ! i)" and log: "of_id u (ns_log ?sys) = []"
      using thread_step_without [OF True a(2) [OF True] l] a(1) by simp_all
    have "without_id u (ns_local ?sys) (ns_threads ?sys ! k)" if "k < length (ns_threads sys)" for k
      using w without_id_frame [OF True that] a(2) [OF that] by (cases "k = i") simp_all
    then show ?thesis using fields True log by (simp add: call_step_def absent_def)
  qed (use a fields in \<open>simp add: call_step_def\<close>)
qed

interpretation untraced: transition "call_step True" "not_listed u" "absent u"
  by unfold_locales (rule absent_step)

lemma traced_step: "traced_as u i tree sys \<Longrightarrow> not_listed u e \<Longrightarrow> traced_as u i tree (call_step True sys e)"
proof (cases e)
  case (fields j w listed)
  assume a: "traced_as u i tree sys" and n: "not_listed u e"
  show ?thesis
  proof (cases "j < length (ns_threads sys)")
    case j: True
    have l: "listed \<noteq> Some u" using n fields by (simp add: not_listed_def)
    have i: "i < length (ns_threads sys)" "with_id u (ns_local sys) (ns_threads sys ! i)"
      "\<And>k. k < length (ns_threads sys) \<Longrightarrow> k \<noteq> i \<Longrightarrow> without_id u (ns_local sys) (ns_threads sys ! k)"
      using a by (auto simp: traced_as_def)
    let ?sys = "thread_step True j w listed (ns_threads sys ! j) sys"
    have "traced_as u i tree ?sys"
    proof (cases "j = i")
      case True
      then show ?thesis
        using a thread_step_with [OF i(1,2), of w listed] without_id_frame [OF i(1)] i(3) by (auto simp: traced_as_def)
    next
      case False
      have w: "without_id u (ns_local ?sys) (ns_threads ?sys ! j)" and log: "of_id u (ns_log ?sys) = of_id u (ns_log sys)"
        using thread_step_without [OF j i(3) [OF j False] l] by simp_all
      have "without_id u (ns_local ?sys) (ns_threads ?sys ! k)" if "k < length (ns_threads sys)" "k \<noteq> i" for k
        using w without_id_frame [OF j that(1)] i(3) [OF that] by (cases "k = j") simp_all
      then show ?thesis
        using a False with_id_frame [OF j i(1) _ i(2)] thread_step_frame(1) [OF j i(1)] log by (auto simp: traced_as_def)
    qed
    then show ?thesis using fields j by (simp add: call_step_def)
  qed (use a fields in \<open>simp add: call_step_def\<close>)
qed

interpretation traced: transition "call_step True" "not_listed u" "traced_as u i tree"
  by unfold_locales (rule traced_step)

lemma absent_new: "absent u (new_calls roots)"
  by (auto simp: absent_def new_calls_def of_id_def without_id_def split: prod.splits)

text \<open>Nothing is recorded when no type is traced.\<close>

lemma nothing_traced: "list_all (\<lambda>e. snd (snd e) = None) es \<Longrightarrow> ns_log (foldl (call_step True) (new_calls roots) es) = []"
proof -
  assume es: "list_all (\<lambda>e. snd (snd e) = None) es"
  have "of_id u (ns_log (foldl (call_step True) (new_calls roots) es)) = []" for u
    using untraced.run_inv [OF absent_new, of u es] es by (auto simp: absent_def not_listed_def list_all_iff)
  then have "\<And>x. x \<notin> set (ns_log (foldl (call_step True) (new_calls roots) es))"
    by (auto simp: of_id_def filter_empty_conv)
  then show ?thesis by (metis last_in_set)
qed

text \<open>A request that has not started yet.\<close>

lemma not_started:
  assumes "list_all (\<lambda>e. fst e \<noteq> i) es" and "i < length (ns_threads sys)"
  shows "ns_threads (foldl (call_step has) sys es) ! i = ns_threads sys ! i \<and>
    length (ns_threads (foldl (call_step has) sys es)) = length (ns_threads sys) \<and>
    (\<forall>g\<in>set (ct_stack (ns_threads sys ! i)). ns_local (foldl (call_step has) sys es) g = ns_local sys g)"
  using assms
proof (induction es arbitrary: sys)
  case (Cons e es)
  then show ?case
    using thread_step_frame [of "fst e" sys i] by (auto simp: call_step_def split: prod.splits)
qed simp

lemma traced_start:
  assumes "absent u sys" and "i < length (ns_threads sys)" and "ns_threads sys ! i = \<lparr>ct_stack = [c], ct_flight = None, ct_todo = actions tree\<rparr>"
    and "ns_local sys c = None"
  shows "traced_as u i tree (call_step True sys (i, w, Some u))"
proof -
  obtain m as where r: "actions tree = ASend m # as" "wf_todo 0 True as" using wf_todo_root by blast
  let ?sys = "thread_step True i w (Some u) (ns_threads sys ! i) sys"
  have t: "ns_threads ?sys ! i = \<lparr>ct_stack = [c], ct_flight = Some \<lparr>mm_msg = m, mm_feats = mk_feats (Some u)\<rparr>, ct_todo = as\<rparr>"
    and l: "ns_log ?sys = ns_log sys @ [(m, u, ''client send'')]"
    using assms r by (simp_all add: step_defs Let_def note_trace_def)
  have "todo_log u None (actions tree) = tree_log u tree" using todo_log_actions [of u tree "[]"] by simp
  moreover have "with_id u (ns_local ?sys) (ns_threads ?sys ! i)" using r(2) by (simp add: t with_id_def)
  ultimately show ?thesis
    using assms(1,2) l without_id_frame [OF assms(2)]
    by (simp add: traced_as_def call_step_def t flight_msg_def r absent_def) (simp add: of_id_def)
qed

text \<open>A traced request is never stuck: whatever the others do, it can be brought to its end by its own steps, if there are workers.\<close>

lemma idle_worker: "\<exists>w. \<not> busy w sys"
proof -
  have "finite (\<Union>t\<in>set (ns_threads sys). set (ct_stack t))" by simp
  then obtain w where "w \<notin> (\<Union>t\<in>set (ns_threads sys). set (ct_stack t))" using ex_new_if_finite infinite_UNIV_nat by blast
  then show ?thesis by (auto simp: busy_def list_ex_iff)
qed

lemma traced_progress:
  assumes "i < length (ns_threads sys)" and "with_id u (ns_local sys) (ns_threads sys ! i)" and "\<not> busy w sys"
  shows "ct_todo (ns_threads (thread_step True i w None (ns_threads sys ! i) sys) ! i) = tl (ct_todo (ns_threads sys ! i))"
  using assms
  by (cases "(True, ns_threads sys ! i)" rule: prod.exhaust)
     (auto simp: with_id_def step_defs Let_def split: list.splits action.splits option.splits)

lemma traced_finishes:
  "traced_as u i tree sys \<Longrightarrow>
   \<exists>es. list_all (\<lambda>e. fst e = i \<and> snd (snd e) = None) es \<and> ct_todo (ns_threads (foldl (call_step True) sys es) ! i) = []"
proof (induction "length (ct_todo (ns_threads sys ! i))" arbitrary: sys)
  case 0
  then show ?case by (intro exI [of _ "[]"]) simp
next
  case (Suc n)
  obtain w where w: "\<not> busy w sys" using idle_worker by blast
  let ?sys = "call_step True sys (i, w, None)"
  have i: "i < length (ns_threads sys)" "with_id u (ns_local sys) (ns_threads sys ! i)" using Suc.prems by (simp_all add: traced_as_def)
  have "ct_todo (ns_threads ?sys ! i) = tl (ct_todo (ns_threads sys ! i))"
    using traced_progress [OF i w] i(1) by (simp add: call_step_def)
  then have "n = length (ct_todo (ns_threads ?sys ! i))" using Suc.hyps(2) by simp
  from Suc.hyps(1) [OF this traced_step [OF Suc.prems]] obtain es where
    "list_all (\<lambda>e. fst e = i \<and> snd (snd e) = None) es" "ct_todo (ns_threads (foldl (call_step True) ?sys es) ! i) = []"
    by (auto simp: not_listed_def)
  then show ?case by (intro exI [of _ "(i, w, None) # es"]) simp
qed

lemma traced_run:
  assumes "i < length roots" and "roots ! i = (c, tree)" and "list_all (\<lambda>e. fst e \<noteq> i) es1" and "list_all (not_listed u) (es1 @ es2)"
  shows "traced_as u i tree (foldl (call_step True) (new_calls roots) (es1 @ (i, w, Some u) # es2))"
proof -
  let ?sys = "foldl (call_step True) (new_calls roots) es1"
  have new: "ns_threads (new_calls roots) ! i = \<lparr>ct_stack = [c], ct_flight = None, ct_todo = actions tree\<rparr>"
    "i < length (ns_threads (new_calls roots))" "ns_local (new_calls roots) c = None"
    using assms(1,2) by (simp_all add: new_calls_def)
  have "absent u ?sys" using untraced.run_inv [OF absent_new] assms(4) by simp
  then have "traced_as u i tree (call_step True ?sys (i, w, Some u))"
    by (rule traced_start) (use not_started [OF assms(3) new(2)] new in auto)
  then have "traced_as u i tree (foldl (call_step True) (call_step True ?sys (i, w, Some u)) es2)"
    by (rule traced.run_inv) (use assms(4) in simp)
  then show ?thesis by simp
qed

section \<open>Its report\<close>

text \<open>Records with the tags of a request's trace are those of a call tree.\<close>

primrec tree_ok :: "callTree \<Rightarrow> bool" where
  "tree_ok (CallTree svc m subs r) \<longleftrightarrow>
     svc \<noteq> [] \<and> list_all (\<lambda>c. \<not> is_space c) svc \<and> svc \<noteq> ''client'' \<and> list_all id (map tree_ok subs)"

definition trace_tags :: "traced_call list \<Rightarrow> string list" where
  "trace_tags l = map (\<lambda>(m, u, tag). tag) l"

lemma trace_tags_simps [simp]:
  "trace_tags [] = []" "trace_tags ((m, u, tag) # l) = tag # trace_tags l" "trace_tags (l @ l') = trace_tags l @ trace_tags l'"
  by (simp_all add: trace_tags_def)

lemma tree_calls:
  assumes "\<And>t rs. t \<in> set ts \<Longrightarrow> map r_tag rs = trace_tags (tree_log u t) \<Longrightarrow> \<exists>c. call_ok c \<and> call_records c = rs"
    and "map r_tag rs = trace_tags (concat (map (tree_log u) ts))"
  shows "\<exists>cs. list_all call_ok cs \<and> concat (map call_records cs) = rs"
  using assms
proof (induction ts arbitrary: rs)
  case (Cons t ts)
  from Cons.prems(2) obtain r1 r2 where r: "rs = r1 @ r2" "map r_tag r1 = trace_tags (tree_log u t)"
    "map r_tag r2 = trace_tags (concat (map (tree_log u) ts))"
    by (auto simp: map_eq_append_conv)
  obtain c where "call_ok c" "call_records c = r1" using Cons.prems(1) [OF _ r(2)] by auto
  moreover obtain cs where "list_all call_ok cs" "concat (map call_records cs) = r2"
    using Cons.IH [OF _ r(3)] Cons.prems(1) by (metis list.set_intros(2))
  ultimately show ?case using r(1) by (intro exI [of _ "c # cs"]) simp
qed (auto intro: exI [of _ "[]"])

lemma set_own_tag: "r_tag r = tag \<Longrightarrow> r\<lparr>r_tag := tag\<rparr> = r"
  by auto

lemma tree_call: "tree_ok t \<Longrightarrow> map r_tag rs = trace_tags (tree_log u t) \<Longrightarrow> \<exists>c. call_ok c \<and> call_records c = rs"
proof (induction t arbitrary: rs)
  case (CallTree svc m subs r)
  from CallTree.prems(2) obtain s h rs' p q where rs: "rs = s # h # rs' @ [p, q]" "r_tag s = ''client send''" "r_tag h = svc @ '' handler''"
    "map r_tag rs' = trace_tags (concat (map (tree_log u) subs))" "r_tag p = svc @ '' send''" "r_tag q = ''client recv''"
    by (auto simp: map_eq_append_conv map_eq_Cons_conv)
  obtain cs where "list_all call_ok cs" "concat (map call_records cs) = rs'"
    using tree_calls [OF _ rs(4)] CallTree.IH CallTree.prems(1) by (auto simp: list_all_iff)
  with rs CallTree.prems(1) show ?case
    by (intro exI [of _ "Call svc s h cs p q"]) (simp add: set_own_tag list_all_iff)
qed

section \<open>Properties\<close>


text \<open>The request \<open>a\<close> whose handler makes a request \<open>b\<close>, while another client's request \<open>b\<close> runs on the same worker before.\<close>

definition demo_msg :: "nat \<Rightarrow> gomsg" where
  "demo_msg n = MValue (V (TName ''m'') n)"

definition demo_tree :: callTree where
  "demo_tree = CallTree ''p/a@1'' (demo_msg 1) [CallTree ''p/b@1'' (demo_msg 2) [] (demo_msg 3)] (demo_msg 4)"

definition demo_roots :: "(nat \<times> callTree) list" where
  "demo_roots = [(100, CallTree ''p/b@1'' (demo_msg 5) [] (demo_msg 6)), (101, demo_tree)]"

definition demo_uuid :: uuidInfo where
  "demo_uuid = \<lparr>u_id = 9, u_seqNum = 0\<rparr>"



text \<open>On a build without the storage the trace ends with the handler: neither its reply nor its requests have the id.\<close>

lemma no_storage_no_nesting:
  "of_id demo_uuid (ns_log (foldl (call_step False) (new_calls demo_roots)
      [(1, 1, Some demo_uuid), (1, 1, None), (1, 2, None), (1, 2, None), (1, 2, None), (1, 2, None), (1, 1, None), (1, 1, None)])) =
   [(demo_msg 1, demo_uuid, ''client send''), (demo_msg 1, demo_uuid, ''p/a@1 handler'')]"
  by code_simp

text \<open>
  C24 (tracing): the report of a finished traced request is the indented listing and the sequence diagram of the tree of calls below it, whatever
  else ran at the same time; \<open>rs\<close> are the records that the tracing service holds under its id.
\<close>

theorem traced_request_report:
  assumes "i < length roots" and "roots ! i = (c, tree)" and "list_all (\<lambda>e. fst e \<noteq> i) es1" and "list_all (not_listed u) (es1 @ es2)"
    and "tree_ok tree"
    and "ct_todo (ns_threads (foldl (call_step True) (new_calls roots) (es1 @ (i, w, Some u) # es2)) ! i) = []"
    and "map r_tag rs = trace_tags (of_id u (ns_log (foldl (call_step True) (new_calls roots) (es1 @ (i, w, Some u) # es2))))"
  shows "\<exists>call. call_ok call \<and> call_records call = rs \<and>
    trace_report fmt_time rs = listing fmt_time call 0 @ [newline] @
      ''Summary(paste below content to http://www.plantuml.com/plantuml):'' @ [newline] @ diagram fmt_time call ''client''"
proof -
  have "of_id u (ns_log (foldl (call_step True) (new_calls roots) (es1 @ (i, w, Some u) # es2))) = tree_log u tree"
    using traced_run [OF assms(1-4), of w] assms(6) by (simp add: traced_as_def)
  then obtain call where c: "call_ok call" "call_records call = rs" using tree_call [OF assms(5)] assms(7) by metis
  then show ?thesis using trace_report_calls [of "[call]" fmt_time] by (intro exI [of _ call]) simp
qed

definition demo_tagged :: "string \<Rightarrow> tracedMessageRecord" where
  "demo_tagged tag = (demo_rec 1)\<lparr>r_tag := tag\<rparr>"

theorem traced_request_report_witness:
  "\<exists>call. call_records call = map demo_tagged (trace_tags (tree_log demo_uuid demo_tree)) \<and>
    trace_report (\<lambda>t. ''t'') (call_records call) = listing (\<lambda>t. ''t'') call 0 @ [newline] @
      ''Summary(paste below content to http://www.plantuml.com/plantuml):'' @ [newline] @ diagram (\<lambda>t. ''t'') call ''client''"
proof -
  let ?es = "[(1, 1, None), (1, 2, None), (1, 2, None), (1, 2, None), (1, 2, None), (1, 1, None), (1, 1, None)] :: (nat \<times> nat \<times> uuidInfo option) list"
  let ?rs = "map demo_tagged (trace_tags (tree_log demo_uuid demo_tree))"
  have "ct_todo (ns_threads (foldl (call_step True) (new_calls demo_roots) ([] @ (1, 1, Some demo_uuid) # ?es)) ! 1) = []"
    "map r_tag ?rs = trace_tags (of_id demo_uuid (ns_log (foldl (call_step True) (new_calls demo_roots) ([] @ (1, 1, Some demo_uuid) # ?es))))"
    by code_simp+
  moreover have "1 < length demo_roots" "demo_roots ! 1 = (101, demo_tree)" "tree_ok demo_tree"
    by (simp_all add: demo_roots_def demo_tree_def is_space_def)
  ultimately show ?thesis
    using traced_request_report [of 1 demo_roots 101 demo_tree "[]" demo_uuid ?es 1 ?rs "\<lambda>t. ''t''"] by (auto simp: not_listed_def)
qed

end
