(* ===== verification/LANLoop.thy ===== *)
theory LANLoop
  imports LANRegistry Framing
begin

text \<open>
  The goroutines of a LAN registry (\<open>run\<close>, its reader \<open>readConn\<close> and \<open>close\<close> in \<open>registry.go\<close>) and the datagrams between hosts. \<open>LANRegistry\<close> has what the
  loop of \<open>run\<close> does with an event; here are the events themselves: which packets reach the loop, in which order, and when it ends. The
  encoder is a parameter: what it decodes is \<open>None\<close> for a message that the loop does not know. Events are the steps of the goroutines; one that is not
  possible changes nothing.
\<close>

section \<open>The goroutines\<close>

text \<open>\<open>ReadFrom\<close> into a buffer of 512 bytes drops the rest of a longer datagram.\<close>

definition read_datagram :: "(bytes \<Rightarrow> lan_msg option) \<Rightarrow> bytes \<Rightarrow> lan_msg option" where
  "read_datagram dec b = dec (take 512 b)"

text \<open>The result of a read: an error, with whether it is EOF or names a closed connection, or a datagram and its sender.\<close>

datatype read_result = ReadError bool | Datagram bytes string

text \<open>The field \<open>done\<close>: the open channel, the closed channel, nil.\<close>

datatype done_field = DoneOpen | DoneClosed | DoneNil

text \<open>
  \<open>run\<close> in its \<open>select\<close>, which listens to \<open>done\<close> if the field was not nil when it was entered; between two \<open>select\<close>s; returned.
  \<open>readConn\<close> before its check of \<open>done\<close>, in \<open>ReadFrom\<close>, blocked in \<open>packetChan <-\<close>, returned.
\<close>

datatype run_pc = RunSelect bool | RunBusy | RunGone

datatype read_pc = RdCheck | RdRead | RdSend "lan_msg option" string | RdGone

record lanLoop =
  ll_done :: done_field
  ll_run :: run_pc
  ll_read :: read_pc
  ll_datagrams :: "(bytes \<times> string) list"
  ll_events :: "(int \<times> lan_event) list"
  ll_record :: "string option"

definition new_lanLoop :: lanLoop where
  "new_lanLoop = \<lparr>ll_done = DoneOpen, ll_run = RunBusy, ll_read = RdCheck, ll_datagrams = [], ll_events = [], ll_record = None\<rparr>"

datatype loop_event =
  CloseDone
| SetNil
| EnterSelect
| SeeDone
| Turn int lan_event
| TakePacket int
| CheckDone
| ReadFrom read_result

text \<open>A message that the loop does not know is dropped with a warning.\<close>

definition packet_event :: "int \<Rightarrow> lan_msg option \<Rightarrow> string \<Rightarrow> (int \<times> lan_event) list" where
  "packet_event now msg raddr = (case msg of None \<Rightarrow> [] | Some m \<Rightarrow> [(now, Packet m raddr)])"

fun own_turn :: "lan_event \<Rightarrow> bool" where
  "own_turn (Packet m raddr) = False"
| "own_turn Done = False"
| "own_turn e = True"

definition registry_of ::
  "(string \<Rightarrow> bool) \<Rightarrow> (string \<Rightarrow> bool) \<Rightarrow> registryLAN \<Rightarrow> lanLoop \<Rightarrow> registryLAN" where
  "registry_of write_ok ping r l = foldl (lan_step write_ok ping) r (ll_events l)"

fun loop_step ::
  "(bytes \<Rightarrow> lan_msg option) \<Rightarrow> (string \<Rightarrow> bool) \<Rightarrow> (string \<Rightarrow> bool) \<Rightarrow> registryLAN \<Rightarrow> lanLoop \<Rightarrow> loop_event \<Rightarrow> lanLoop" where
  "loop_step dec write_ok ping r l CloseDone = (if ll_done l = DoneOpen then l\<lparr>ll_done := DoneClosed\<rparr> else l)"
| "loop_step dec write_ok ping r l SetNil = (if ll_done l = DoneClosed then l\<lparr>ll_done := DoneNil\<rparr> else l)"
| "loop_step dec write_ok ping r l EnterSelect =
     (if ll_run l = RunBusy then l\<lparr>ll_run := RunSelect (ll_done l \<noteq> DoneNil)\<rparr> else l)"
| "loop_step dec write_ok ping r l SeeDone =
     (if ll_run l = RunSelect True \<and> ll_done l \<noteq> DoneOpen
      then l\<lparr>ll_run := RunGone, ll_record := Some (local_record (registry_of write_ok ping r l))\<rparr> else l)"
| "loop_step dec write_ok ping r l (Turn now e) =
     (case ll_run l of
        RunSelect b \<Rightarrow> if own_turn e then l\<lparr>ll_run := RunBusy, ll_events := ll_events l @ [(now, e)]\<rparr> else l
      | _ \<Rightarrow> l)"
| "loop_step dec write_ok ping r l (TakePacket now) =
     (case (ll_run l, ll_read l) of
        (RunSelect b, RdSend msg raddr) \<Rightarrow>
          l\<lparr>ll_run := RunBusy, ll_read := RdCheck, ll_events := ll_events l @ packet_event now msg raddr\<rparr>
      | _ \<Rightarrow> l)"
| "loop_step dec write_ok ping r l CheckDone =
     (if ll_read l = RdCheck then l\<lparr>ll_read := (if ll_done l = DoneNil then RdGone else RdRead)\<rparr> else l)"
| "loop_step dec write_ok ping r l (ReadFrom res) =
     (if ll_read l \<noteq> RdRead then l
      else case res of
             ReadError gone \<Rightarrow> l\<lparr>ll_read := (if gone then RdGone else RdCheck)\<rparr>
           | Datagram b raddr \<Rightarrow>
               l\<lparr>ll_read := RdSend (read_datagram dec b) raddr, ll_datagrams := ll_datagrams l @ [(b, raddr)]\<rparr>)"

section \<open>Packets and datagrams\<close>

fun packet_of :: "int \<times> lan_event \<Rightarrow> (lan_msg \<times> string) option" where
  "packet_of (now, Packet m raddr) = Some (m, raddr)"
| "packet_of (now, e) = None"

definition known_datagram :: "(bytes \<Rightarrow> lan_msg option) \<Rightarrow> bytes \<times> string \<Rightarrow> (lan_msg \<times> string) option" where
  "known_datagram dec d = map_option (\<lambda>m. (m, snd d)) (read_datagram dec (fst d))"

definition held :: "lanLoop \<Rightarrow> (lan_msg \<times> string) list" where
  "held l = (case ll_read l of RdSend (Some m) raddr \<Rightarrow> [(m, raddr)] | _ \<Rightarrow> [])"

definition loop_inv :: "(bytes \<Rightarrow> lan_msg option) \<Rightarrow> (string \<Rightarrow> bool) \<Rightarrow> (string \<Rightarrow> bool) \<Rightarrow> registryLAN \<Rightarrow> lanLoop \<Rightarrow> bool" where
  "loop_inv dec write_ok ping r l \<longleftrightarrow>
     List.map_filter packet_of (ll_events l) @ held l = List.map_filter (known_datagram dec) (ll_datagrams l) \<and>
     (ll_run l = RunGone \<longleftrightarrow> ll_record l \<noteq> None) \<and>
     (\<forall>rec. ll_record l = Some rec \<longrightarrow> rec = local_record (registry_of write_ok ping r l) \<and> ll_done l \<noteq> DoneOpen)"

lemma map_filter_snoc1 [simp]:
  "List.map_filter f (xs @ [x]) = List.map_filter f xs @ (case f x of None \<Rightarrow> [] | Some y \<Rightarrow> [y])"
  by (induction xs) (auto simp: List.map_filter_simps split: option.splits)

lemma own_turn_no_packet: "own_turn e \<Longrightarrow> packet_of (now, e) = None"
  by (cases e) auto

lemma packets_of_event [simp]: "List.map_filter packet_of (packet_event now msg raddr) = (case msg of None \<Rightarrow> [] | Some m \<Rightarrow> [(m, raddr)])"
  by (simp add: packet_event_def List.map_filter_simps split: option.splits)

lemma map_filter_append_eq: "List.map_filter f (xs @ ys) = List.map_filter f xs @ List.map_filter f ys"
  by (simp add: List.map_filter_def)

lemma loop_step_packets:
  assumes "List.map_filter packet_of (ll_events l) @ held l = List.map_filter (known_datagram dec) (ll_datagrams l)"
  shows "List.map_filter packet_of (ll_events (loop_step dec write_ok ping r l e)) @ held (loop_step dec write_ok ping r l e) =
    List.map_filter (known_datagram dec) (ll_datagrams (loop_step dec write_ok ping r l e))"
proof (cases e)
  case (TakePacket now)
  then show ?thesis
    using assms by (simp add: held_def map_filter_append_eq split: run_pc.splits read_pc.splits option.splits)
next
  case (ReadFrom res)
  then show ?thesis
    using assms by (auto simp: held_def known_datagram_def split: read_result.splits option.splits)
qed (use assms in \<open>auto simp: held_def own_turn_no_packet split: run_pc.splits\<close>)

lemma loop_step_record:
  fixes dec :: "bytes \<Rightarrow> lan_msg option" and e :: loop_event
  assumes "ll_run l = RunGone \<longleftrightarrow> ll_record l \<noteq> None"
    and "\<And>rec. ll_record l = Some rec \<Longrightarrow> rec = local_record (registry_of write_ok ping r l) \<and> ll_done l \<noteq> DoneOpen"
  defines "l' \<equiv> loop_step dec write_ok ping r l e"
  shows "(ll_run l' = RunGone \<longleftrightarrow> ll_record l' \<noteq> None) \<and>
    (\<forall>rec. ll_record l' = Some rec \<longrightarrow> rec = local_record (registry_of write_ok ping r l') \<and> ll_done l' \<noteq> DoneOpen)"
  using assms(1,2) unfolding l'_def
  by (cases e) (auto simp: registry_of_def split: run_pc.splits read_pc.splits read_result.splits)

lemma loop_step_inv: "loop_inv dec write_ok ping r l \<Longrightarrow> loop_inv dec write_ok ping r (loop_step dec write_ok ping r l e)"
  unfolding loop_inv_def using loop_step_packets loop_step_record by blast

interpretation lan_loop: transition "loop_step dec write_ok ping r" "\<lambda>e. True" "loop_inv dec write_ok ping r"
  by unfold_locales (rule loop_step_inv)

lemma loop_inv_new: "loop_inv dec write_ok ping r new_lanLoop"
  by (simp add: loop_inv_def new_lanLoop_def held_def List.map_filter_simps)

section \<open>Properties\<close>

text \<open>The datagrams of messages that fit.\<close>

definition fits :: "(lan_msg \<Rightarrow> bytes) \<Rightarrow> (bytes \<Rightarrow> lan_msg option) \<Rightarrow> lan_msg \<Rightarrow> bool" where
  "fits enc dec m \<longleftrightarrow> length (enc m) \<le> 512 \<and> dec (enc m) = Some m"

lemma known_fits:
  "list_all (\<lambda>(m, a). fits enc dec m) ms \<Longrightarrow> List.map_filter (known_datagram dec) (map (\<lambda>(m, a). (enc m, a)) ms) = ms"
  by (induction ms) (auto simp: List.map_filter_simps known_datagram_def read_datagram_def fits_def)

text \<open>
  C31 (packets): in every interleaving of the registry's loop, its reader and \<open>close\<close>, the loop handles exactly the messages of the datagrams
  that were read, each once and in their order, but for one that the reader still holds; and when the loop has ended, it was closed and the
  record file lists the services that the registry had then.
\<close>

theorem lan_packets_in_order:
  assumes "l = foldl (loop_step dec write_ok ping r) new_lanLoop es"
    and "ll_datagrams l = map (\<lambda>(m, a). (enc m, a)) ms" and "list_all (\<lambda>(m, a). fits enc dec m) ms"
  shows "List.map_filter packet_of (ll_events l) @ held l = ms \<and>
    (ll_run l = RunGone \<longrightarrow> ll_done l \<noteq> DoneOpen \<and> ll_record l = Some (local_record (foldl (lan_step write_ok ping) r (ll_events l))))"
  using lan_loop.run_inv [OF loop_inv_new, of es dec write_ok ping r] known_fits [OF assms(3)]
  unfolding assms(1) [symmetric] loop_inv_def assms(2) registry_of_def by (auto simp: list.pred_True)

text \<open>An encoder of one byte for one service's query.\<close>

definition demo_enc :: "lan_msg \<Rightarrow> bytes" where
  "demo_enc m = [7]"

definition demo_dec :: "bytes \<Rightarrow> lan_msg option" where
  "demo_dec b = (if b = [7] then Some (QueryInLAN ''p_s'') else None)"

definition demo_loop_events :: "loop_event list" where
  "demo_loop_events = [EnterSelect, CheckDone, ReadFrom (ReadError False), CheckDone, ReadFrom (Datagram [7] ''10.0.0.2:9923''), TakePacket 5,
     EnterSelect, Turn 6 (Cmd (CmdLANRegister ''p_s'' ''80'')), EnterSelect, CloseDone, SeeDone]"

theorem lan_packets_in_order_witness:
  "List.map_filter packet_of (ll_events (foldl (loop_step demo_dec (\<lambda>a. True) (\<lambda>a. True) (newLANRegistry ''id'' [] 0 None)) new_lanLoop demo_loop_events)) =
     [(QueryInLAN ''p_s'', ''10.0.0.2:9923'')] \<and>
   ll_record (foldl (loop_step demo_dec (\<lambda>a. True) (\<lambda>a. True) (newLANRegistry ''id'' [] 0 None)) new_lanLoop demo_loop_events) = Some ''p_s 80\<newline>''"
proof -
  let ?r = "newLANRegistry ''id'' [] 0 None"
  let ?l = "foldl (loop_step demo_dec (\<lambda>a. True) (\<lambda>a. True) ?r) new_lanLoop demo_loop_events"
  have l: "ll_datagrams ?l = map (\<lambda>(m, a). (demo_enc m, a)) [(QueryInLAN ''p_s'', ''10.0.0.2:9923'')]" "held ?l = []" "ll_run ?l = RunGone"
    "ll_events ?l = [(5, Packet (QueryInLAN ''p_s'') ''10.0.0.2:9923''), (6, Cmd (CmdLANRegister ''p_s'' ''80''))]"
    by (simp_all add: demo_loop_events_def new_lanLoop_def read_datagram_def demo_dec_def demo_enc_def held_def packet_event_def)
  have "local_record (foldl (lan_step (\<lambda>a. True) (\<lambda>a. True)) ?r (ll_events ?l)) = ''p_s 80\<newline>''"
    unfolding l(4) by code_simp
  then show ?thesis
    using lan_packets_in_order [OF refl l(1)] l(2,3) by (simp add: fits_def demo_enc_def demo_dec_def)
qed

text \<open>
  \<open>close\<close> sets the field to nil. A loop that was not in its \<open>select\<close> then finds a nil channel there, does not end and never writes the record file.
\<close>

definition missed_close :: "lanLoop \<Rightarrow> bool" where
  "missed_close l \<longleftrightarrow> ll_done l = DoneNil \<and> ll_record l = None \<and> (ll_run l = RunBusy \<or> ll_run l = RunSelect False)"

interpretation missed: transition "loop_step dec write_ok ping r" "\<lambda>e. True" missed_close
proof
  fix l e assume "missed_close l"
  then show "missed_close (loop_step dec write_ok ping r l e)"
    by (cases e) (auto simp: missed_close_def split: run_pc.splits read_pc.splits read_result.splits)
qed

lemma lan_close_missed:
  assumes "ll_run l = RunBusy" and "ll_done l = DoneOpen" and "ll_record l = None"
  shows "ll_record (foldl (loop_step dec write_ok ping r) l ([CloseDone, SetNil] @ es)) = None"
proof -
  let ?l = "loop_step dec write_ok ping r (loop_step dec write_ok ping r l CloseDone) SetNil"
  have "missed_close ?l" using assms by (simp add: missed_close_def)
  from missed.run_inv [OF this, of es dec write_ok ping r] show ?thesis by (simp add: missed_close_def list.pred_True)
qed

text \<open>A reader that has a packet when the loop has ended is blocked for good.\<close>

interpretation blocked: transition "loop_step dec write_ok ping r" "\<lambda>e. True"
  "\<lambda>l :: lanLoop. ll_run l = RunGone \<and> ll_read l = RdSend msg raddr"
proof
  fix l :: lanLoop and e assume "ll_run l = RunGone \<and> ll_read l = RdSend msg raddr"
  then show "ll_run (loop_step dec write_ok ping r l e) = RunGone \<and> ll_read (loop_step dec write_ok ping r l e) = RdSend msg raddr"
    by (cases e) auto
qed

lemma lan_reader_blocked:
  "ll_run l = RunGone \<Longrightarrow> ll_read l = RdSend msg raddr \<Longrightarrow> ll_read (foldl (loop_step dec write_ok ping r) l es) = RdSend msg raddr"
  using blocked.run_inv [of l msg raddr es dec write_ok ping r] by (simp add: list.pred_True)

end
