(* ===== verification/ReverseProxy.thy ===== *)
theory ReverseProxy
  imports Server Connection
begin

text \<open>
  The reverse proxy for services behind NAT (\<open>reverseproxy_svc.go\<close>, \<open>connectReverseProxy\<close> and \<open>reverseReceiver\<close> in
  \<open>streamtransportserver.go\<close>): the handler of \<open>proxyRegServiceInWAN\<close>, and the machine of a proxied
  connection. A client that dials the proxy makes the proxy send the port of a second listener to
  the service over the command stream; the service dials that port, and the proxy joins the two
  connections through the unbuffered channel \<open>chanServerConn\<close>. The steps are those of the goroutines:
  the client, the proxy's one for each client and for each connection from the service, the service.
\<close>

section \<open>Registering a service\<close>

definition reversesvc :: service where
  "reversesvc = \<lparr>publisherName = [], serviceName = [], svc_providerID = [], knownMsgTypes = [], msgTypeCheck = True,
     svc_scope = 0, useNamedUDS = False, fnOnConnect = True, fnOnDisconnect = False, fnOnNewStream = False,
     fnOnStreamClose = False, svc_qsize = 0\<rparr>"

definition proxysvc :: "string \<Rightarrow> string \<Rightarrow> string \<Rightarrow> service" where
  "proxysvc publisher name pid = reversesvc\<lparr>publisherName := publisher, serviceName := name, svc_providerID := pid, svc_scope := ScopeWAN\<rparr>"

text \<open>The handler up to its reply, \<open>OK\<close> or the error.\<close>

definition proxyRegServiceInWAN_Handle :: "env \<Rightarrow> string \<Rightarrow> string \<Rightarrow> string \<Rightarrow> Server \<Rightarrow> netState \<Rightarrow> result outcome" where
  "proxyRegServiceInWAN_Handle e publisher name pid s st =
     and_then (newTCPTransport e [] reversesvc s st) (newTCPTransport e [] (proxysvc publisher name pid))"

text \<open>
  \<open>connectReverseProxy\<close> over the connections that discovery found: the first one whose proxy accepts is
  kept and all others are closed. \<open>accepts\<close> is whether \<open>SendRecv\<close> succeeds.
\<close>

fun connectReverseProxy :: "('c \<Rightarrow> bool) \<Rightarrow> 'c list \<Rightarrow> 'c option \<times> 'c list" where
  "connectReverseProxy accepts [] = (None, [])"
| "connectReverseProxy accepts (conn # conns) =
     (if accepts conn then (Some conn, conns)
      else let (r, closed) = connectReverseProxy accepts conns in (r, conn # closed))"

section \<open>The machine of proxied connections\<close>

text \<open>The goroutine of the proxy for a client: in \<open>handshakeWithClient\<close>, before \<open>stream.Send\<close>, waiting for the service, joined, ended.\<close>

datatype client_pc = CHandshake | CSend | CWait | CJoined nat | CEnded

record proxied_client =
  pc_pc :: client_pc
  pc_written :: "bytes list"
  pc_acked :: bool
  pc_gone :: bool

text \<open>The goroutine of the proxy for a connection from the service: in the handshake, offering the connection, handed over, given up.\<close>

datatype server_pc = SHandshake | SOffer | STaken nat | SEnded

record reverse_conn =
  rc_pc :: server_pc
  rc_written :: "bytes list"
  rc_read :: "bytes list"

record proxyState =
  px_clients :: "proxied_client list"
  px_reverse :: "reverse_conn list"
  px_ports :: nat
  px_lost :: bool

definition new_proxy :: proxyState where
  "new_proxy = \<lparr>px_clients = [], px_reverse = [], px_ports = 0, px_lost = False\<rparr>"

definition set_client :: "nat \<Rightarrow> proxied_client \<Rightarrow> proxyState \<Rightarrow> proxyState" where
  "set_client j c s = s\<lparr>px_clients := (px_clients s)[j := c]\<rparr>"

definition set_reverse :: "nat \<Rightarrow> reverse_conn \<Rightarrow> proxyState \<Rightarrow> proxyState" where
  "set_reverse k c s = s\<lparr>px_reverse := (px_reverse s)[k := c]\<rparr>"

text \<open>
  A client of a proxied address waits for one byte before it writes its handshake. The service's
  goroutine for a connection it dialled itself is \<open>handleConn\<close>: it writes only after it has read a
  handshake. \<open>lost\<close> is the loss of the command stream: both listeners are closed, the channel is
  closed and set to nil.
\<close>

inductive px_step :: "proxyState \<Rightarrow> proxyState \<Rightarrow> bool" where
  dial: "\<not> px_lost s \<Longrightarrow>
    px_step s (s\<lparr>px_clients := px_clients s @ [\<lparr>pc_pc = CHandshake, pc_written = [], pc_acked = False, pc_gone = False\<rparr>]\<rparr>)"
| client_writes: "j < length (px_clients s) \<Longrightarrow> c = px_clients s ! j \<Longrightarrow> pc_acked c \<Longrightarrow> \<not> pc_gone c \<Longrightarrow>
    px_step s (set_client j (c\<lparr>pc_written := pc_written c @ [bs]\<rparr>) s)"
| client_leaves: "j < length (px_clients s) \<Longrightarrow> c = px_clients s ! j \<Longrightarrow> px_step s (set_client j (c\<lparr>pc_gone := True\<rparr>) s)"
| client_handshake: "j < length (px_clients s) \<Longrightarrow> c = px_clients s ! j \<Longrightarrow> pc_pc c = CHandshake \<Longrightarrow>
    handshakeWithClient (pc_written c) = Inr (info, rest) \<Longrightarrow>
    px_step s (set_client j (c\<lparr>pc_pc := CSend, pc_written := rest\<rparr>) s)"
| client_no_handshake: "j < length (px_clients s) \<Longrightarrow> c = px_clients s ! j \<Longrightarrow> pc_pc c = CHandshake \<Longrightarrow> pc_gone c \<Longrightarrow>
    handshakeWithClient (pc_written c) = Inl err \<Longrightarrow> px_step s (set_client j (c\<lparr>pc_pc := CEnded\<rparr>) s)"
| send_port: "j < length (px_clients s) \<Longrightarrow> c = px_clients s ! j \<Longrightarrow> pc_pc c = CSend \<Longrightarrow> \<not> px_lost s \<Longrightarrow>
    px_step s ((set_client j (c\<lparr>pc_pc := CWait\<rparr>) s)\<lparr>px_ports := px_ports s + 1\<rparr>)"
| send_fails: "j < length (px_clients s) \<Longrightarrow> c = px_clients s ! j \<Longrightarrow> pc_pc c = CSend \<Longrightarrow> px_lost s \<Longrightarrow>
    px_step s (set_client j (c\<lparr>pc_pc := CEnded\<rparr>) s)"
| no_server: "j < length (px_clients s) \<Longrightarrow> c = px_clients s ! j \<Longrightarrow> pc_pc c = CWait \<Longrightarrow> px_lost s \<Longrightarrow>
    px_step s (set_client j (c\<lparr>pc_pc := CEnded\<rparr>) s)"
| service_dials: "px_ports s = Suc n \<Longrightarrow> \<not> px_lost s \<Longrightarrow>
    px_step s (s\<lparr>px_ports := n, px_reverse := px_reverse s @ [\<lparr>rc_pc = SHandshake, rc_written = [], rc_read = []\<rparr>]\<rparr>)"
| service_writes: "k < length (px_reverse s) \<Longrightarrow> c = px_reverse s ! k \<Longrightarrow> handshakeWithClient (rc_read c) = Inr (info, rest) \<Longrightarrow>
    px_step s (set_reverse k (c\<lparr>rc_written := rc_written c @ [bs]\<rparr>) s)"
| reverse_handshake: "k < length (px_reverse s) \<Longrightarrow> c = px_reverse s ! k \<Longrightarrow> rc_pc c = SHandshake \<Longrightarrow>
    handshakeWithClient (rc_written c) = Inr (info, rest) \<Longrightarrow>
    px_step s (set_reverse k (c\<lparr>rc_pc := if px_lost s then SEnded else SOffer, rc_written := rest\<rparr>) s)"
| join: "j < length (px_clients s) \<Longrightarrow> c = px_clients s ! j \<Longrightarrow> pc_pc c = CWait \<Longrightarrow>
    k < length (px_reverse s) \<Longrightarrow> r = px_reverse s ! k \<Longrightarrow> rc_pc r = SOffer \<Longrightarrow>
    px_step s (set_client j (c\<lparr>pc_pc := CJoined k, pc_acked := True\<rparr>) (set_reverse k (r\<lparr>rc_pc := STaken j\<rparr>) s))"
| copy: "j < length (px_clients s) \<Longrightarrow> c = px_clients s ! j \<Longrightarrow> pc_pc c = CJoined k \<Longrightarrow> k < length (px_reverse s) \<Longrightarrow>
    r = px_reverse s ! k \<Longrightarrow> pc_written c = bs # rest \<Longrightarrow>
    px_step s (set_client j (c\<lparr>pc_written := rest\<rparr>) (set_reverse k (r\<lparr>rc_read := rc_read r @ [bs]\<rparr>) s))"
| lost: "px_step s (s\<lparr>px_lost := True\<rparr>)"

inductive px_reachable :: "proxyState \<Rightarrow> bool" where
  start: "px_reachable new_proxy"
| step: "px_reachable s \<Longrightarrow> px_step s s' \<Longrightarrow> px_reachable s'"

section \<open>Nothing gets through\<close>

definition stuck_client :: "proxied_client \<Rightarrow> bool" where
  "stuck_client c \<longleftrightarrow> pc_pc c \<in> {CHandshake, CEnded} \<and> pc_written c = [] \<and> \<not> pc_acked c"

definition px_stuck :: "proxyState \<Rightarrow> bool" where
  "px_stuck s \<longleftrightarrow> list_all stuck_client (px_clients s) \<and> px_reverse s = [] \<and> px_ports s = 0"

lemma handshake_needs_bytes: "handshakeWithClient [] = Inl (MarkerSize EOF)"
  by (simp add: handshakeWithClient_def ReadFull_def)

lemma stuck_set:
  "px_stuck s \<Longrightarrow> stuck_client c \<Longrightarrow> px_stuck (set_client j c s)"
  by (auto simp: px_stuck_def set_client_def list_all_iff dest!: set_update_subset_insert [THEN subsetD])

lemma stuck_nth: "px_stuck s \<Longrightarrow> j < length (px_clients s) \<Longrightarrow> stuck_client (px_clients s ! j)"
  by (simp add: px_stuck_def list_all_length)

lemma stuck_step: "px_step s s' \<Longrightarrow> px_stuck s \<Longrightarrow> px_stuck s'"
proof (induction rule: px_step.induct)
  case (client_handshake j s c info rest)
  then show ?case using stuck_nth [of s j] by (simp add: stuck_client_def handshake_needs_bytes)
next
  case (client_no_handshake j s c err)
  then show ?case using stuck_nth [of s j] by (auto intro: stuck_set simp: stuck_client_def)
next
  case (client_leaves j s c)
  then show ?case using stuck_nth [of s j] by (auto intro!: stuck_set simp: stuck_client_def)
qed (use stuck_nth in \<open>fastforce simp: px_stuck_def stuck_client_def\<close>)+

lemma reachable_stuck: "px_reachable s \<Longrightarrow> px_stuck s"
proof (induction rule: px_reachable.induct)
  case start
  show ?case by (simp add: px_stuck_def new_proxy_def)
next
  case (step s s')
  then show ?case by (blast intro: stuck_step)
qed

section \<open>Properties\<close>

lemma scope_WAN_only [simp]: "in_scope ScopeWAN ScopeWAN" "\<not> in_scope ScopeWAN ScopeLAN" "\<not> in_scope 0 ScopeWAN" "\<not> in_scope 0 ScopeLAN"
  by (simp_all add: in_scope_def ScopeWAN_def ScopeLAN_def)

lemma keeps_proxy: "fresh_ports e \<Longrightarrow> owned st0 s st \<Longrightarrow> keeps st0 (proxyRegServiceInWAN_Handle e publisher name pid s st)"
  unfolding proxyRegServiceInWAN_Handle_def by (intro keeps_rules) assumption+

lemma newTCP_reverse:
  "newTCPTransport e [] reversesvc s st = Ret (None, s', st') \<Longrightarrow>
   \<exists>port. s' = addCloser (CloseTCP reversesvc port) s \<and> st' = st\<lparr>n_tcp := n_tcp st @ [port]\<rparr>"
  by (auto simp: newTCPTransport_def reversesvc_def Let_def split: sum.splits)

lemma newTCP_proxy:
  assumes "newTCPTransport e [] (proxysvc publisher name pid) s st = Ret (None, s', st')" and "e_regWAN e = None"
  shows "\<exists>port. s' = addCloser (CloseTCP (proxysvc publisher name pid) port) s \<and> n_tcp st' = n_tcp st @ [port] \<and>
    map_of (n_wan st') (toPublisherServiceName publisher name, pid) = Some (port, pid \<noteq> providerID s)"
  using assms by (auto simp: newTCPTransport_def proxysvc_def reversesvc_def regServiceWAN_def svc_name_def Let_def split: sum.splits)

text \<open>
  When the handler answers OK, the proxy listens on two new ports, one for the service's connections and
  one for clients; the second is registered in the WAN under the names and the provider ID of the
  service, marked as proxied unless the service has the proxy's own provider ID; and what the server
  opened is still exactly what its closers close.
\<close>

theorem proxy_registers:
  assumes "proxyRegServiceInWAN_Handle e publisher name pid s st = Ret (None, s', st')" and "e_regWAN e = None"
    and "fresh_ports e" and "owned st0 s st"
  shows "(\<exists>rport pport. n_tcp st' = n_tcp st @ [rport, pport] \<and>
      closers s' = closers s @ [CloseTCP reversesvc rport, CloseTCP (proxysvc publisher name pid) pport] \<and>
      map_of (n_wan st') (toPublisherServiceName publisher name, pid) = Some (pport, pid \<noteq> providerID s)) \<and> owned st0 s' st'"
proof
  obtain s1 st1 where 1: "newTCPTransport e [] reversesvc s st = Ret (None, s1, st1)"
      and 2: "newTCPTransport e [] (proxysvc publisher name pid) s1 st1 = Ret (None, s', st')"
    using assms(1) by (cases "newTCPTransport e [] reversesvc s st")
      (auto simp: proxyRegServiceInWAN_Handle_def and_then_def split: option.splits)
  from newTCP_reverse [OF 1] newTCP_proxy [OF 2 assms(2)]
  show "\<exists>rport pport. n_tcp st' = n_tcp st @ [rport, pport] \<and>
      closers s' = closers s @ [CloseTCP reversesvc rport, CloseTCP (proxysvc publisher name pid) pport] \<and>
      map_of (n_wan st') (toPublisherServiceName publisher name, pid) = Some (pport, pid \<noteq> providerID s)"
    by (auto simp: addCloser_def)
  show "owned st0 s' st'"
    using keeps_proxy [OF assms(3,4), of publisher name pid] assms(1) by (simp add: keeps_def)
qed

definition demo_proxy_env :: env where
  "demo_proxy_env = demo_env\<lparr>e_listenTCP := \<lambda>used p. Inr (replicate (Suc (sum_list (map length used))) CHR ''1'')\<rparr>"

lemma demo_proxy_fresh: "fresh_ports demo_proxy_env"
proof -
  have "length p \<le> sum_list (map length used)" if "p \<in> set used" for p :: string and used
    using that by (intro member_le_sum_list) simp_all
  then show ?thesis by (fastforce simp: fresh_ports_def demo_proxy_env_def)
qed

theorem proxy_registers_witness:
  "\<exists>s' st'. proxyRegServiceInWAN_Handle demo_proxy_env ''pub'' ''echo'' ''far'' demo_server demo_net = Ret (None, s', st') \<and>
     n_tcp st' = [''1'', ''11''] \<and> map_of (n_wan st') (''pub_echo'', ''far'') = Some (''11'', True)"
proof -
  have n: "n_tcp demo_net = []" "n_wan demo_net = []" by (simp_all add: demo_net_def)
  obtain s' st' where r: "proxyRegServiceInWAN_Handle demo_proxy_env ''pub'' ''echo'' ''far'' demo_server demo_net = Ret (None, s', st')"
      and t: "n_tcp st' = [''1'', ''11'']"
    by (simp add: proxyRegServiceInWAN_Handle_def and_then_def newTCPTransport_def reversesvc_def proxysvc_def regServiceWAN_def
        demo_proxy_env_def demo_env_def n)
  have "e_regWAN demo_proxy_env = None" by (simp add: demo_proxy_env_def demo_env_def)
  moreover have "owned demo_net demo_server demo_net" by (simp add: owned_def listens_on_def map_filter_simps)
  ultimately have "\<exists>rport pport. n_tcp st' = n_tcp demo_net @ [rport, pport] \<and>
      map_of (n_wan st') (toPublisherServiceName ''pub'' ''echo'', ''far'') = Some (pport, ''far'' \<noteq> providerID demo_server)"
    using proxy_registers [OF r _ demo_proxy_fresh] by blast
  with t n have "map_of (n_wan st') (''pub_echo'', ''far'') = Some (''11'', True)" by (auto simp: toPublisherServiceName_def)
  with r t show ?thesis by blast
qed



end
