(* ===== verification/Accept.thy ===== *)
theory Accept
  imports ReverseProxy
begin

text \<open>
  The accept loop of a stream transport (the first goroutine of \<open>receiver\<close> in \<open>streamtransportserver.go\<close>). The root
  registry checks that it can reach a service that registers by dialling it once; the loop expects
  this dial and closes the connection instead of handing it to a goroutine. Accepting is an event:
  a connection with its remote address, or an error with whether the transport was closed by then.
\<close>

definition split_host :: "string \<Rightarrow> string" where
  "split_host hostport = (case SplitHostPort hostport of Inl e \<Rightarrow> [] | Inr (host, port) \<Rightarrow> host)"

definition expects_ping :: "string \<Rightarrow> service \<Rightarrow> string \<Rightarrow> bool" where
  "expects_ping network svc registry \<longleftrightarrow>
     \<not> (network = ''unix'') \<and>
     \<not> (publisherName svc = BuiltinPublisher \<and> serviceName svc = ''rootRegistry'') \<and>
     \<not> (length (split_host registry) = 0)"

datatype 'c accept_event = Accepted 'c string | AcceptError bool

text \<open>The connections that go to \<open>chanNetConn\<close>, in order.\<close>

fun accept_loop :: "bool \<Rightarrow> string \<Rightarrow> 'c accept_event list \<Rightarrow> 'c list" where
  "accept_loop ping ip [] = []"
| "accept_loop ping ip (AcceptError gone # es) = (if gone then [] else accept_loop ping ip es)"
| "accept_loop ping ip (Accepted c remote # es) =
     (if ping \<and> split_host remote = ip then accept_loop False ip es
      else c # accept_loop ping ip es)"

text \<open>The connections accepted before the transport was closed.\<close>

fun accepted_conns :: "'c accept_event list \<Rightarrow> ('c \<times> string) list" where
  "accepted_conns [] = []"
| "accepted_conns (AcceptError gone # es) = (if gone then [] else accepted_conns es)"
| "accepted_conns (Accepted c remote # es) = (c, remote) # accepted_conns es"

lemma accept_loop_all: "accept_loop False ip es = map fst (accepted_conns es)"
  by (induction es rule: accepted_conns.induct) auto

text \<open>
  The loop hands every connection on, in order, except one: the first that comes from the root
  registry's host, if the loop expects the registry's dial. That connection is lost to a client that runs on
  that host.
\<close>

lemma accept_loop_drops_first_ping:
  assumes "\<And>c remote. (c, remote) \<in> set xs \<Longrightarrow> split_host remote \<noteq> ip"
    and "accepted_conns es = xs @ (c, remote) # ys" and "split_host remote = ip"
  shows "accept_loop True ip es = map fst (xs @ ys)"
  using assms
proof (induction es arbitrary: xs rule: accepted_conns.induct)
  case (2 gone es)
  then show ?case by (cases gone) auto
next
  case (3 c' remote' es)
  show ?case
  proof (cases xs)
    case Nil
    with 3 show ?thesis by (simp add: accept_loop_all)
  next
    case (Cons x xs')
    with 3 have "x = (c', remote')" "split_host remote' \<noteq> ip" "accepted_conns es = xs' @ (c, remote) # ys" by auto
    moreover have "accept_loop True ip es = map fst (xs' @ ys)"
      using 3 Cons by (intro "3.IH") auto
    ultimately show ?thesis using Cons by simp
  qed
qed simp

lemma accept_loop_no_ping:
  "(\<And>c remote. (c, remote) \<in> set (accepted_conns es) \<Longrightarrow> split_host remote \<noteq> ip) \<Longrightarrow>
   accept_loop ping ip es = map fst (accepted_conns es)"
  by (induction es rule: accepted_conns.induct) auto

end
