(* ===== verification/StreamTransport.thy ===== *)
theory StreamTransport
  imports Accept
begin

text \<open>
  The life of a stream transport (\<open>makeStreamTransport\<close>, \<open>close\<close>, \<open>receiver\<close> and \<open>reverseReceiver\<close> in \<open>streamtransportserver.go\<close>) and its three
  goroutines: the accept loop, the receiver that starts a goroutine for each connection, and the one that makes connections on
  behalf of a reverse proxy. They share the channel \<open>chanNetConn\<close>. Events are their steps; one that is not possible changes
  nothing. A connection is tagged with whether it was accepted or made for the proxy. The channel \<open>closed\<close> and the field that holds it are closed and
  set to nil by the same step. \<open>st_cmdConn\<close> is whether the connection to the proxy is usable, \<open>st_inWAN\<close> whether the service is registered through the
  proxy; \<open>st_arrived\<close> records the connections that a goroutine holds or has put into the channel.
\<close>

type_synonym 'c netconn = "bool \<times> 'c"

text \<open>In \<open>Accept\<close>, blocked in \<open>chanNetConn <- netconn\<close>, returned; the flag is the variable \<open>ping\<close>.\<close>

datatype 'c accept_pc = AcAccept bool | AcPut 'c bool | AcDone

text \<open>
  No reverse proxy, in \<open>cmdConn.Recv\<close>, blocked in \<open>chanNetConn <- netconn\<close>, in \<open>connectReverseProxy\<close>, returned.
\<close>

datatype 'c reverse_pc = RvNone | RvRecv | RvPut 'c | RvReconnect | RvGone

record 'c streamTransport =
  st_closed :: bool
  st_chanNetConn :: "'c netconn chan"
  st_accept :: "'c accept_pc"
  st_draining :: bool
  st_reverse :: "'c reverse_pc"
  st_cmdConn :: bool
  st_inWAN :: bool
  st_arrived :: "'c netconn list"
  st_handled :: "'c netconn list"
  st_dropped :: "'c netconn list"
  st_pings :: "'c list"

definition makeStreamTransport :: "bool \<Rightarrow> 'c streamTransport" where
  "makeStreamTransport ping =
     \<lparr>st_closed = False, st_chanNetConn = make_chan 8, st_accept = AcAccept ping, st_draining = False, st_reverse = RvNone,
      st_cmdConn = False, st_inWAN = False, st_arrived = [], st_handled = [], st_dropped = [], st_pings = []\<rparr>"

text \<open>The transport after its service registered in the WAN through a reverse proxy.\<close>

definition with_reverse_proxy :: "'c streamTransport \<Rightarrow> 'c streamTransport" where
  "with_reverse_proxy st = st\<lparr>st_reverse := RvRecv, st_cmdConn := True, st_inWAN := True\<rparr>"

datatype 'c st_event =
    StAccept "'c accept_event"
  | StAcceptPut
  | StTake
  | StSeeClosed
  | StDrop
  | StClose
  | StPort "'c option"
  | StReversePut
  | StCmdLost
  | StReconnect bool

definition put_conn :: "'c netconn \<Rightarrow> 'c streamTransport \<Rightarrow> 'c streamTransport option" where
  "put_conn c st = map_option (\<lambda>ch. st\<lparr>st_chanNetConn := ch\<rparr>) (try_send c (st_chanNetConn st))"

text \<open>The accept loop.\<close>

fun accept_step :: "string \<Rightarrow> 'c accept_event \<Rightarrow> 'c streamTransport \<Rightarrow> 'c streamTransport" where
  "accept_step ip (Accepted c remote) st =
     (case st_accept st of
        AcAccept ping \<Rightarrow>
          if st_closed st then st
          else if ping \<and> split_host remote = ip then st\<lparr>st_pings := st_pings st @ [c], st_accept := AcAccept False\<rparr>
          else st\<lparr>st_accept := AcPut c ping, st_arrived := st_arrived st @ [(True, c)]\<rparr>
      | _ \<Rightarrow> st)"
| "accept_step ip (AcceptError gone) st =
     (case st_accept st of
        AcAccept ping \<Rightarrow> if st_closed st then st\<lparr>st_accept := AcDone\<rparr> else st
      | _ \<Rightarrow> st)"

definition accept_put :: "'c streamTransport \<Rightarrow> 'c streamTransport" where
  "accept_put st =
     (case st_accept st of
        AcPut c ping \<Rightarrow> (case put_conn (True, c) st of None \<Rightarrow> st | Some st' \<Rightarrow> st'\<lparr>st_accept := AcAccept ping\<rparr>)
      | _ \<Rightarrow> st)"

text \<open>The receiver, which after its return closes what comes.\<close>

definition receiver_take :: "'c streamTransport \<Rightarrow> 'c streamTransport" where
  "receiver_take st =
     (if st_draining st then st
      else case try_recv (st_chanNetConn st) of
             None \<Rightarrow> st
           | Some (c, ch) \<Rightarrow> st\<lparr>st_chanNetConn := ch, st_handled := st_handled st @ [c]\<rparr>)"

definition receiver_drop :: "'c streamTransport \<Rightarrow> 'c streamTransport" where
  "receiver_drop st =
     (if \<not> st_draining st then st
      else case try_recv (st_chanNetConn st) of
             None \<Rightarrow> st
           | Some (c, ch) \<Rightarrow> st\<lparr>st_chanNetConn := ch, st_dropped := st_dropped st @ [c]\<rparr>)"

text \<open>\<open>close\<close>: the listener and the command connection are closed and the registration is deleted.\<close>

definition st_close :: "'c streamTransport \<Rightarrow> 'c streamTransport" where
  "st_close st = (if st_closed st then st else st\<lparr>st_closed := True, st_cmdConn := False, st_inWAN := False\<rparr>)"

text \<open>The receiver of the proxy's requests: a port comes and the dial succeeds or fails, the command connection breaks.\<close>

fun reverse_step :: "'c st_event \<Rightarrow> 'c streamTransport \<Rightarrow> 'c streamTransport" where
  "reverse_step (StPort r) st =
     (if st_reverse st = RvRecv \<and> st_cmdConn st
      then (case r of
              Some c \<Rightarrow> st\<lparr>st_reverse := RvPut c, st_arrived := st_arrived st @ [(False, c)]\<rparr>
            | None \<Rightarrow> st\<lparr>st_reverse := RvReconnect, st_cmdConn := False\<rparr>)
      else st)"
| "reverse_step StReversePut st =
     (case st_reverse st of
        RvPut c \<Rightarrow> (case put_conn (False, c) st of None \<Rightarrow> st | Some st' \<Rightarrow> st'\<lparr>st_reverse := RvRecv\<rparr>)
      | _ \<Rightarrow> st)"
| "reverse_step StCmdLost st = (if st_reverse st = RvRecv then st\<lparr>st_reverse := RvReconnect, st_cmdConn := False\<rparr> else st)"
| "reverse_step (StReconnect ok) st =
     (if st_reverse st = RvReconnect
      then (if ok then st\<lparr>st_reverse := RvRecv, st_cmdConn := True, st_inWAN := True\<rparr> else st\<lparr>st_reverse := RvGone\<rparr>) else st)"
| "reverse_step _ st = st"

fun st_step :: "string \<Rightarrow> 'c streamTransport \<Rightarrow> 'c st_event \<Rightarrow> 'c streamTransport" where
  "st_step ip st (StAccept e) = accept_step ip e st"
| "st_step ip st StAcceptPut = accept_put st"
| "st_step ip st StTake = receiver_take st"
| "st_step ip st StSeeClosed = (if st_closed st then st\<lparr>st_draining := True\<rparr> else st)"
| "st_step ip st StDrop = receiver_drop st"
| "st_step ip st StClose = st_close st"
| "st_step ip st e = reverse_step e st"

section \<open>No connection is lost\<close>

text \<open>The connections a goroutine holds before it puts them into the channel.\<close>

definition held :: "bool \<Rightarrow> 'c streamTransport \<Rightarrow> 'c netconn list" where
  "held t st =
     (if t then (case st_accept st of AcPut c ping \<Rightarrow> [(True, c)] | _ \<Rightarrow> [])
      else (case st_reverse st of RvPut c \<Rightarrow> [(False, c)] | _ \<Rightarrow> []))"

definition through :: "'c streamTransport \<Rightarrow> 'c netconn list" where
  "through st = st_handled st @ st_dropped st @ buffered (st_chanNetConn st)"

definition pinged :: "'c streamTransport \<Rightarrow> bool" where
  "pinged st \<longleftrightarrow> (case st_accept st of AcAccept ping \<Rightarrow> ping | AcPut c ping \<Rightarrow> ping | AcDone \<Rightarrow> False)"

definition flow :: "bool \<Rightarrow> 'c streamTransport \<Rightarrow> bool" where
  "flow t st \<longleftrightarrow> filter (\<lambda>c. fst c = t) (st_arrived st) = filter (\<lambda>c. fst c = t) (through st) @ held t st"

definition st_inv :: "'c streamTransport \<Rightarrow> bool" where
  "st_inv st \<longleftrightarrow>
     flow True st \<and> flow False st \<and>
     (\<not> st_draining st \<longrightarrow> st_dropped st = []) \<and> (st_draining st \<longrightarrow> st_closed st) \<and>
     length (st_pings st) \<le> (if pinged st then 0 else 1)"

lemmas st_defs = st_inv_def flow_def through_def held_def pinged_def

lemma put_conn_through:
  "put_conn c st = Some st' \<Longrightarrow> \<exists>ch. st' = st\<lparr>st_chanNetConn := ch\<rparr> \<and> buffered ch = buffered (st_chanNetConn st) @ [c]"
  by (auto simp: put_conn_def try_send_def chan_send_def split: if_splits)

lemma try_recv_buffered: "try_recv ch = Some (c, ch') \<Longrightarrow> buffered ch = c # buffered ch'"
  by (cases "buffered ch") (auto simp: try_recv_def chan_recv_def split: if_splits)

lemma st_step_inv:
  assumes "st_inv st"
  shows "st_inv (st_step ip st e)"
proof (cases e)
  case (StAccept ev)
  with assms show ?thesis
    by (cases ev) (auto simp: st_defs split: accept_pc.splits if_splits)
next
  case StAcceptPut
  show ?thesis
  proof (cases "\<exists>c ping st'. st_accept st = AcPut c ping \<and> put_conn (True, c) st = Some st'")
    case True
    then obtain c ping st' where c: "st_accept st = AcPut c ping" "put_conn (True, c) st = Some st'" by blast
    from put_conn_through [OF c(2)] assms show ?thesis
      by (auto simp: StAcceptPut accept_put_def c st_defs)
  qed (use assms in \<open>auto simp: StAcceptPut accept_put_def split: accept_pc.splits option.splits\<close>)
next
  case StTake
  show ?thesis
  proof (cases "try_recv (st_chanNetConn st)")
    case (Some p)
    obtain c ch where "p = (c, ch)" by (cases p)
    with Some assms try_recv_buffered [of "st_chanNetConn st" c ch] show ?thesis
      by (auto simp: StTake receiver_take_def st_defs)
  qed (use assms in \<open>simp add: StTake receiver_take_def\<close>)
next
  case StDrop
  show ?thesis
  proof (cases "try_recv (st_chanNetConn st)")
    case (Some p)
    obtain c ch where "p = (c, ch)" by (cases p)
    with Some assms try_recv_buffered [of "st_chanNetConn st" c ch] show ?thesis
      by (auto simp: StDrop receiver_drop_def st_defs)
  qed (use assms in \<open>simp add: StDrop receiver_drop_def\<close>)
next
  case StReversePut
  show ?thesis
  proof (cases "\<exists>c st'. st_reverse st = RvPut c \<and> put_conn (False, c) st = Some st'")
    case True
    then obtain c st' where c: "st_reverse st = RvPut c" "put_conn (False, c) st = Some st'" by blast
    from put_conn_through [OF c(2)] assms show ?thesis
      by (auto simp: StReversePut c st_defs)
  qed (use assms in \<open>auto simp: StReversePut split: reverse_pc.splits option.splits\<close>)
next
  case (StPort r)
  with assms show ?thesis by (auto simp: st_defs split: option.splits)
qed (use assms in \<open>auto simp: st_close_def st_defs\<close>)

interpretation stream_transport: transition "st_step ip" "\<lambda>e. True" st_inv
  by unfold_locales (rule st_step_inv)

section \<open>Properties\<close>

text \<open>
  C11 (stream transport): in whatever order the accept loop, the receiver, the reverse proxy's goroutine and \<open>close\<close> run, no connection is lost or
  doubled: those that were accepted and those that were made for the proxy each reach the receiver in their order, and are
  handled, closed by it after the transport was closed, still in the channel or held by their goroutine; connections are only closed
  after the transport was; and at most one connection is taken for the root registry's ping.
\<close>

theorem transport_conserves:
  fixes es :: "'c st_event list" and ip :: string and ping proxied_service :: bool
  defines "st \<equiv> foldl (st_step ip) (if proxied_service then with_reverse_proxy (makeStreamTransport ping) else makeStreamTransport ping) es"
  shows "filter (\<lambda>c. fst c = t) (st_arrived st) =
      filter (\<lambda>c. fst c = t) (st_handled st @ st_dropped st @ buffered (st_chanNetConn st)) @ held t st \<and>
    (st_dropped st = [] \<or> st_closed st) \<and> length (st_pings st) \<le> 1"
proof -
  have "st_inv (if proxied_service then with_reverse_proxy (makeStreamTransport ping) else makeStreamTransport ping :: 'c streamTransport)"
    by (simp add: st_defs makeStreamTransport_def with_reverse_proxy_def make_chan_def)
  then have inv: "st_inv st" unfolding st_def by (rule stream_transport.run_inv) (simp add: list_all_iff)
  then have "flow t st" by (cases t) (simp_all add: st_inv_def)
  then show ?thesis using inv by (auto simp: st_inv_def flow_def through_def split: if_splits)
qed

text \<open>
  A service that is reached through a reverse proxy comes back after it was closed: \<open>close\<close> closes the command connection, which
  \<open>reverseReceiver\<close> takes for the loss of the proxy, and it registers the service again.
\<close>

lemma closed_service_registers_again:
  "\<exists>es. let st = foldl (st_step ip) (with_reverse_proxy (makeStreamTransport ping)) es in
     st_closed st \<and> st_inWAN st \<and> st_reverse st = RvRecv"
  by (rule exI [of _ "[StClose, StCmdLost, StReconnect True]"])
     (simp add: makeStreamTransport_def with_reverse_proxy_def st_close_def)

end
