(* ===== verification/Builtin.thy ===== *)
theory Builtin
  imports Server "HOL-Library.List_Lexorder" "HOL-Library.Char_ord"
begin

text \<open>
  The command line tool of \<open>examples/builtin/builtin.go\<close>: its commands \<open>server\<close>, \<open>list\<close> and \<open>id\<close>. What the flag package
  parses is an argument; printing is the text that is printed, for ASCII names, where \<open>fmt\<close> counts characters as bytes.
\<close>

unbundle bit_operations_syntax

section \<open>Formatting\<close>

definition trimName :: "string \<Rightarrow> nat \<Rightarrow> string" where
  "trimName name n = (if length name > n then take (n - 3) name @ ''...'' else name)"

definition pad_right :: "nat \<Rightarrow> string \<Rightarrow> string" where
  "pad_right n s = s @ replicate (n - length s) CHR '' ''"

definition pad_left :: "nat \<Rightarrow> string \<Rightarrow> string" where
  "pad_left n s = replicate (n - length s) CHR '' '' @ s"

fun show_bin_acc :: "nat \<Rightarrow> string \<Rightarrow> string" where
  "show_bin_acc n acc =
     (if n < 2 then (if n = 1 then CHR ''1'' else CHR ''0'') # acc
      else show_bin_acc (n div 2) ((if n mod 2 = 1 then CHR ''1'' else CHR ''0'') # acc))"

declare show_bin_acc.simps [simp del]

definition show_bin :: "Scope \<Rightarrow> string" where
  "show_bin sc = show_bin_acc (unat sc) []"

section \<open>The command list\<close>

definition rename_self :: "string \<Rightarrow> ServiceInfo \<Rightarrow> ServiceInfo" where
  "rename_self selfID si = (if ProviderID si = selfID then si\<lparr>ProviderID := ''self''\<rparr> else si)"

definition list_key :: "ServiceInfo \<Rightarrow> string" where
  "list_key si = Publisher si @ ''_'' @ Service si @ ''_'' @ ProviderID si"

definition list_add :: "string \<Rightarrow> nat \<Rightarrow> (string, Scope) gomap \<Rightarrow> ServiceInfo \<Rightarrow> (string, Scope) gomap" where
  "list_add selfID i m si =
     (let k = list_key (rename_self selfID si);
          p = (case map_of m k of Some v \<Rightarrow> v | None \<Rightarrow> 0)
      in AList.update k (p OR push_bit i 1) m)"

fun list_from :: "string \<Rightarrow> nat \<Rightarrow> ServiceInfo list list \<Rightarrow> (string, Scope) gomap \<Rightarrow> (string, Scope) gomap" where
  "list_from selfID i [] m = m"
| "list_from selfID i (services # scopes) m = list_from selfID (i + 1) scopes (foldl (list_add selfID i) m services)"

text \<open>The columns of one line: publisher, service, provider and scopes.\<close>

definition list_row :: "string \<Rightarrow> Scope \<Rightarrow> (string \<times> string \<times> string \<times> Scope) outcome" where
  "list_row svc p =
     (let ss = split_on CHR ''_'' svc in
      if length ss < 3 then Panic ''index out of range'' else Ret (ss ! 0, ss ! 1, ss ! 2, p))"

definition list_rows :: "string \<Rightarrow> ServiceInfo list list \<Rightarrow> (string \<times> string \<times> string \<times> Scope) list outcome" where
  "list_rows selfID scopes =
     (let list = list_from selfID 0 scopes [];
          names = sort (map fst list)
      in map_outcome (\<lambda>svc. case map_of list svc of None \<Rightarrow> Panic ''nil p'' | Some p \<Rightarrow> list_row svc p) names)"

definition print_row :: "string \<times> string \<times> string \<times> Scope \<Rightarrow> string" where
  "print_row = (\<lambda>(publisher, service, provider, p).
     pad_right 18 (trimName publisher 18) @ ''  '' @ pad_right 18 (trimName service 18) @ ''  '' @ pad_right 12 provider @ ''  '' @
     pad_left 4 (show_bin p) @ [CHR 0x0A])"

definition print_list :: "string \<Rightarrow> ServiceInfo list list \<Rightarrow> string outcome" where
  "print_list selfID scopes =
     bind_outcome (list_rows selfID scopes) (\<lambda>rows.
       Ret (''PUBLISHER           SERVICE             PROVIDER      WLOP(SCOPE)'' @ [CHR 0x0A] @ concat (map print_row rows)))"

definition print_verbose :: "string \<Rightarrow> ServiceInfo list list \<Rightarrow> string outcome" where
  "print_verbose selfID scopes =
     bind_outcome (map_outcome (\<lambda>svc.
         let svc = rename_self selfID svc; a = Addr svc in
         if length a = 0 then Panic ''index out of range''
         else
           let a = (if last a = CHR ''P'' then butlast a @ ''(proxied)'' else a)
           in Ret (''PUBLISHER: '' @ Publisher svc @ [CHR 0x0A] @ ''SERVICE  : '' @ Service svc @ [CHR 0x0A] @
                   ''PROVIDER : '' @ ProviderID svc @ [CHR 0x0A] @ ''ADDRESS  : '' @ a @ [CHR 0x0A, CHR 0x0A]))
       (concat scopes)) (\<lambda>ls. Ret (concat ls))"

section \<open>The commands\<close>

text \<open>\<open>ask\<close> is the outcome of \<open>SendRecv\<close> with \<open>ReqProviderInfo\<close> on a connection, \<open>w\<close> what the one round of the discovery sees.\<close>

definition getSelfID ::
  "(int \<Rightarrow> int \<Rightarrow> 'f::linorder) \<Rightarrow> ('f \<Rightarrow> 'f) \<Rightarrow> 'f world \<Rightarrow> (connection \<Rightarrow> string + string) \<Rightarrow> Option list \<Rightarrow> (string + string) outcome" where
  "getSelfID fdiv fneg w ask opts =
     (let c = SetDiscoverTimeout 0 (NewClient (opts @ [WithScope (ScopeProcess OR ScopeOS)])) in
      bind_outcome (Discover fdiv fneg None BuiltinPublisher SrvProviderInfo [] [w] c) (\<lambda>d.
        case d of
          Some d \<Rightarrow>
            (case connections d of
               conn # _ \<Rightarrow> Ret (ask conn)
             | [] \<Rightarrow> Ret (Inl (errServiceNotFound_Error (ErrServiceNotFound BuiltinPublisher SrvProviderInfo))))
        | None \<Rightarrow> Panic ''not ended''))"

definition builtin_server :: "string \<Rightarrow> bool \<Rightarrow> bool \<Rightarrow> bool \<Rightarrow> string \<Rightarrow> Server" where
  "builtin_server registry root proxy lister bcast =
     (let opts = (if length registry \<noteq> 0 then [WithRegistryAddr registry] else []);
          s = SetBroadcastPort bcast (NewServer opts);
          s = (if root then EnableRootRegistry s else s);
          s = (if proxy then EnableAutoReverseProxy s else s)
      in if lister then EnableServiceLister s else s)"

text \<open>The command \<open>list\<close> after the lister was asked: what it prints and its exit code.\<close>

definition list_action :: "bool \<Rightarrow> string + string \<Rightarrow> bool \<Rightarrow> string + ServiceInfo list list \<Rightarrow> (string \<times> int) outcome" where
  "list_action verbose selfID lister reply =
     (case selfID of
        Inl err \<Rightarrow> Ret (err, 1)
      | Inr self \<Rightarrow>
          if \<not> lister then Ret (errServiceNotFound_Error (ErrServiceNotFound BuiltinPublisher SrvServiceLister), 1)
          else case reply of
                 Inl err \<Rightarrow> Ret (err, 1)
               | Inr scopes \<Rightarrow> bind_outcome (if verbose then print_verbose self scopes else print_list self scopes) (\<lambda>out. Ret (out, 0)))"

definition id_action :: "string + string \<Rightarrow> string \<times> int" where
  "id_action selfID = (case selfID of Inl err \<Rightarrow> (err, 1) | Inr self \<Rightarrow> (self, 0))"

text \<open>\<open>main\<close>: the exit code, where \<open>None\<close> for the command stands for the usage text.\<close>

definition builtin_main :: "(string \<times> int) list \<Rightarrow> string list \<Rightarrow> string option \<times> int" where
  "builtin_main cmds args =
     (if length args < 2 then (None, 1)
      else if args ! 1 \<in> {''-h'', ''--help''} then (None, 0)
      else case List.find (\<lambda>cmd. args ! 1 = fst cmd) cmds of
             Some (name, code) \<Rightarrow> (Some name, code)
           | None \<Rightarrow> (None, 1))"

section \<open>What the list shows\<close>

definition scope_at :: "(string, Scope) gomap \<Rightarrow> string \<Rightarrow> Scope" where
  "scope_at m k = (case map_of m k of Some v \<Rightarrow> v | None \<Rightarrow> 0)"

abbreviation shown_key :: "string \<Rightarrow> ServiceInfo \<Rightarrow> string" where
  "shown_key selfID si \<equiv> list_key (rename_self selfID si)"

lemma scope_at_add:
  "scope_at (list_add selfID i m si) k = (if k = shown_key selfID si then scope_at m k OR push_bit i 1 else scope_at m k)"
  by (auto simp: scope_at_def list_add_def Let_def)

lemma scope_bit: "i < 16 \<Longrightarrow> bit (2 ^ i :: Scope) j \<longleftrightarrow> j = i"
  by (auto simp: bit_simps)

lemma list_adds:
  assumes "i < 16"
  shows "bit (scope_at (foldl (list_add selfID i) m sis) k) j \<longleftrightarrow> bit (scope_at m k) j \<or> j = i \<and> k \<in> shown_key selfID ` set sis"
proof (induction sis arbitrary: m)
  case (Cons si sis)
  have "bit (scope_at (list_add selfID i m si) k) j \<longleftrightarrow> bit (scope_at m k) j \<or> j = i \<and> k = shown_key selfID si"
    by (simp add: scope_at_add bit_or_iff scope_bit [OF assms])
  then show ?case using Cons.IH [of "list_add selfID i m si"] by auto
qed simp

lemma list_adds_keys: "fst ` set (foldl (list_add selfID i) m sis) = fst ` set m \<union> shown_key selfID ` set sis"
  by (induction sis arbitrary: m) (auto simp: list_add_def Let_def dom_update [unfolded dom_map_of_conv_image_fst] image_Un)

lemma list_adds_wf: "wf_map m \<Longrightarrow> wf_map (foldl (list_add selfID i) m sis)"
  by (induction sis arbitrary: m) (simp_all add: list_add_def Let_def)

lemma list_from_wf: "wf_map m \<Longrightarrow> wf_map (list_from selfID i scopes m)"
  by (induction scopes arbitrary: i m) (simp_all add: list_adds_wf)

lemma list_from_keys: "fst ` set (list_from selfID i scopes m) = fst ` set m \<union> shown_key selfID ` set (concat scopes)"
  by (induction scopes arbitrary: i m) (auto simp: list_adds_keys)

lemma list_from_bits:
  "i + length scopes \<le> 16 \<Longrightarrow> bit (scope_at (list_from selfID i scopes m) k) j \<longleftrightarrow>
     bit (scope_at m k) j \<or> i \<le> j \<and> j < i + length scopes \<and> k \<in> shown_key selfID ` set (scopes ! (j - i))"
proof (induction scopes arbitrary: i m)
  case (Cons sis scopes)
  then have "bit (scope_at (list_from selfID i (sis # scopes) m) k) j \<longleftrightarrow>
      (bit (scope_at m k) j \<or> j = i \<and> k \<in> shown_key selfID ` set sis) \<or>
      Suc i \<le> j \<and> j < Suc i + length scopes \<and> k \<in> shown_key selfID ` set (scopes ! (j - Suc i))"
    using Cons.IH [of "Suc i" "foldl (list_add selfID i) m sis"] by (simp add: list_adds)
  also have "\<dots> \<longleftrightarrow> bit (scope_at m k) j \<or> i \<le> j \<and> j < i + length (sis # scopes) \<and> k \<in> shown_key selfID ` set ((sis # scopes) ! (j - i))"
  proof (cases "i < j")
    case True
    then obtain d where "j = Suc (i + d)" using less_imp_Suc_add by blast
    then show ?thesis by auto
  qed auto
  finally show ?case .
qed auto

text \<open>A service as it is shown.\<close>

definition shown :: "string \<Rightarrow> ServiceInfo \<Rightarrow> string \<times> string \<times> string" where
  "shown selfID si = (Publisher si, Service si, ProviderID (rename_self selfID si))"

definition plain_info :: "ServiceInfo \<Rightarrow> bool" where
  "plain_info si \<longleftrightarrow> CHR ''_'' \<notin> set (Publisher si) \<and> CHR ''_'' \<notin> set (Service si) \<and> CHR ''_'' \<notin> set (ProviderID si)"

fun triple_key :: "string \<times> string \<times> string \<Rightarrow> string" where
  "triple_key (p, s, i) = p @ ''_'' @ s @ ''_'' @ i"

lemma shown_key_triple: "shown_key selfID si = triple_key (shown selfID si)"
  by (simp add: list_key_def shown_def rename_self_def)

lemma split_triple:
  "CHR ''_'' \<notin> set p \<Longrightarrow> CHR ''_'' \<notin> set s \<Longrightarrow> CHR ''_'' \<notin> set i \<Longrightarrow> split_on CHR ''_'' (triple_key (p, s, i)) = [p, s, i]"
  by (simp add: split_on_append_sep split_on_absent)

lemma shown_plain: "plain_info si \<Longrightarrow> shown selfID si = (p, s, i) \<Longrightarrow> CHR ''_'' \<notin> set p \<and> CHR ''_'' \<notin> set s \<and> CHR ''_'' \<notin> set i"
  by (auto simp: plain_info_def shown_def rename_self_def split: if_splits)

text \<open>The three names and the line of a key of the map.\<close>

definition key_triple :: "string \<Rightarrow> string \<times> string \<times> string" where
  "key_triple k = (let ss = split_on CHR ''_'' k in (ss ! 0, ss ! 1, ss ! 2))"

definition key_row :: "string \<Rightarrow> ServiceInfo list list \<Rightarrow> string \<Rightarrow> string \<times> string \<times> string \<times> Scope" where
  "key_row selfID scopes k = (case key_triple k of (p, s, i) \<Rightarrow> (p, s, i, scope_at (list_from selfID 0 scopes []) k))"

lemma key_of_shown:
  assumes "plain_info si"
  shows "key_triple (triple_key (shown selfID si)) = shown selfID si" and "length (split_on CHR ''_'' (triple_key (shown selfID si))) = 3"
proof -
  obtain p s i where t: "shown selfID si = (p, s, i)" by (cases "shown selfID si")
  show "key_triple (triple_key (shown selfID si)) = shown selfID si" "length (split_on CHR ''_'' (triple_key (shown selfID si))) = 3"
    using shown_plain [OF assms t] by (simp_all add: t key_triple_def split_triple del: triple_key.simps)
qed

lemma list_rows_keys:
  assumes "\<forall>si\<in>set (concat scopes). plain_info si"
  shows "list_rows selfID scopes = Ret (map (key_row selfID scopes) (sort (map fst (list_from selfID 0 scopes []))))"
  unfolding list_rows_def Let_def
proof (rule map_outcome_all_Ret)
  let ?m = "list_from selfID 0 scopes []"
  fix k assume "k \<in> set (sort (map fst ?m))"
  then have k: "k \<in> fst ` set ?m" by simp
  then obtain v where "map_of ?m k = Some v" by (metis map_of_eq_None_iff not_None_eq)
  moreover from k obtain si where "si \<in> set (concat scopes)" "k = triple_key (shown selfID si)"
    by (auto simp: list_from_keys shown_key_triple)
  ultimately show "(case map_of ?m k of None \<Rightarrow> Panic ''nil p'' | Some p \<Rightarrow> list_row k p) = Ret (key_row selfID scopes k)"
    using key_of_shown(2) [of si selfID] assms by (simp add: list_row_def key_row_def key_triple_def scope_at_def Let_def)
qed

lemma key_row_shown:
  assumes "length scopes \<le> 16" and plain: "\<forall>si\<in>set (concat scopes). plain_info si" and si: "si \<in> set (concat scopes)"
    and row: "key_row selfID scopes (triple_key (shown selfID si)) = (p, s, i, sc)"
  shows "(p, s, i) = shown selfID si" and "bit sc j \<longleftrightarrow> j < length scopes \<and> (p, s, i) \<in> shown selfID ` set (scopes ! j)"
proof -
  let ?k = "triple_key (shown selfID si)"
  show t: "(p, s, i) = shown selfID si"
    using row key_of_shown(1) [of si selfID] plain si by (auto simp: key_row_def split: prod.splits)
  have inj: "?k = triple_key (shown selfID x) \<longleftrightarrow> shown selfID si = shown selfID x" if "x \<in> set (concat scopes)" for x
    using key_of_shown(1) plain si that by metis
  have "bit sc j \<longleftrightarrow> j < length scopes \<and> ?k \<in> shown_key selfID ` set (scopes ! j)"
    using list_from_bits [of 0 scopes selfID "[]" ?k j] assms(1) row by (auto simp: key_row_def scope_at_def split: prod.splits)
  also have "\<dots> \<longleftrightarrow> j < length scopes \<and> (p, s, i) \<in> shown selfID ` set (scopes ! j)"
    unfolding t shown_key_triple using inj by (auto simp: image_iff) (metis nth_mem)+
  finally show "bit sc j \<longleftrightarrow> j < length scopes \<and> (p, s, i) \<in> shown selfID ` set (scopes ! j)" .
qed

section \<open>Properties\<close>

text \<open>
  C33 (command \<open>list\<close>): the table does not panic and has one line for each publisher, service and provider that the lister
  reported in any scope, in the order of the names, the own provider shown as self; its digits are exactly the scopes in which
  the service was reported; names longer than their column are cut to its width.
\<close>

theorem builtin_list_rows:
  assumes "length scopes \<le> 16" and "\<forall>si\<in>set (concat scopes). plain_info si"
  shows "\<exists>rows. list_rows selfID scopes = Ret rows \<and>
    sorted_wrt (<) (map (\<lambda>(p, s, i, sc). triple_key (p, s, i)) rows) \<and>
    set (map (\<lambda>(p, s, i, sc). (p, s, i)) rows) = shown selfID ` set (concat scopes) \<and>
    (\<forall>(p, s, i, sc)\<in>set rows. \<forall>j. bit sc j \<longleftrightarrow> j < length scopes \<and> (p, s, i) \<in> shown selfID ` set (scopes ! j)) \<and>
    (\<forall>n. length (trimName n 18) \<le> 18)"
proof -
  let ?ks = "sort (map fst (list_from selfID 0 scopes []))" and ?row = "key_row selfID scopes"
  have ks: "set ?ks = triple_key ` shown selfID ` set (concat scopes)" by (simp add: list_from_keys shown_key_triple image_image)
  have row: "(case ?row k of (p, s, i, sc) \<Rightarrow> (p, s, i)) = shown selfID si"
    if "si \<in> set (concat scopes)" "k = triple_key (shown selfID si)" for k si
    using key_row_shown(1) [OF assms that(1)] that(2) by (cases "?row k") simp
  have "(case ?row k of (p, s, i, sc) \<Rightarrow> triple_key (p, s, i)) = k" if k: "k \<in> set ?ks" for k
  proof -
    from k ks obtain si where "si \<in> set (concat scopes)" "k = triple_key (shown selfID si)" unfolding ks image_image by blast
    then show ?thesis using row [of si k] by (cases "?row k") (simp del: triple_key.simps)
  qed
  then have keys: "map (\<lambda>(p, s, i, sc). triple_key (p, s, i)) (map ?row ?ks) = ?ks" unfolding map_map comp_def by (rule map_idI)
  have sorted_ks: "sorted_wrt (<) ?ks" using list_from_wf [of "[]" selfID 0 scopes] by (simp add: strict_sorted_iff wf_map_def)
  have "set (map (\<lambda>(p, s, i, sc). (p, s, i)) (map ?row ?ks)) = shown selfID ` set (concat scopes)"
    using row ks by (auto simp: image_image)
  moreover have "bit sc j \<longleftrightarrow> j < length scopes \<and> (p, s, i) \<in> shown selfID ` set (scopes ! j)"
    if r: "(p, s, i, sc) \<in> set (map ?row ?ks)" for p s i sc j
  proof -
    from r obtain k where "k \<in> set ?ks" "?row k = (p, s, i, sc)" unfolding set_map by (metis imageE)
    moreover from this(1) obtain si where "si \<in> set (concat scopes)" "k = triple_key (shown selfID si)" unfolding ks image_image by blast
    ultimately show ?thesis using key_row_shown(2) [OF assms] by blast
  qed
  moreover have "\<forall>n. length (trimName n 18) \<le> 18" by (simp add: trimName_def)
  ultimately show ?thesis
    unfolding list_rows_keys [OF assms(2)] using keys sorted_ks
    by (intro exI [of _ "map ?row ?ks"] conjI) (rule refl, simp only:, assumption, blast, assumption)
qed

theorem builtin_list_rows_witness:
  "\<exists>rows. list_rows ''id'' [[mkServiceInfo ''p'' ''s'' ''self'' ''internal''], [], [mkServiceInfo ''p'' ''s'' ''id'' ''h:1'', mkServiceInfo ''p'' ''a'' ''other'' ''h:2'']] =
      Ret rows \<and> set (map (\<lambda>(p, s, i, sc). (p, s, i)) rows) = {(''p'', ''s'', ''self''), (''p'', ''a'', ''other'')}"
  using builtin_list_rows [of "[[mkServiceInfo ''p'' ''s'' ''self'' ''internal''], [],
      [mkServiceInfo ''p'' ''s'' ''id'' ''h:1'', mkServiceInfo ''p'' ''a'' ''other'' ''h:2'']]" "''id''"]
  by (auto simp: plain_info_def shown_def rename_self_def)

text \<open>With the timeout 0 that \<open>getSelfID\<close> sets, the discovery ends in its first round.\<close>

lemma discover_once: "Discover fdiv fneg selfID p s pids [w] (SetDiscoverTimeout 0 c) \<noteq> Ret None"
proof -
  obtain self c' where s: "search_self selfID pids (SetDiscoverTimeout 0 c) = (self, c')" by force
  then have "discoverTimeout c' = 0" by (auto simp: search_self_def SetDiscoverTimeout_def Let_def split: if_splits)
  then have t: "discover_timeout c' = 0" by (simp add: discover_timeout_def signed_divide_int_def)
  show ?thesis by (auto simp: Discover_def s t bind_outcome_Ret_iff Let_def split: prod.splits)
qed

end
