(* ===== verification/Echo.thy ===== *)
theory Echo
  imports Transport
begin

text \<open>
  The echo example (\<open>examples/echo\<close>): the service's handlers and hooks, and its client. A request is a pointer, and over a
  channel connection client and server share the memory it points to, so the heap is explicit: an address is an index into
  a list, and allocation appends. The second part is the subscription to new clients: goroutines that share a
  lock and channels of capacity one.
\<close>

section \<open>Requests\<close>

record MessageRequest =
  Msg :: string
  Num :: "32 word"

type_synonym heap = "MessageRequest list"

text \<open>The two counters of the manager; its maps are below, in \<open>hub\<close>.\<close>

record statMgr =
  sessionNum :: "32 word"
  counter :: "64 word"

definition new_statMgr :: statMgr where
  "new_statMgr = \<lparr>sessionNum = 0, counter = 0\<rparr>"

text \<open>The name of the stream's session, and the state after it.\<close>

definition onNewStream :: "statMgr \<Rightarrow> string \<times> statMgr" where
  "onNewStream mgr =
     (let n = sessionNum mgr + 1
      in (''yours echo.v1.0 from '' @ show_int (sint n), mgr\<lparr>sessionNum := n\<rparr>))"

text \<open>The reply holds the pointer of the request and the session's name.\<close>

definition MessageRequest_Handle :: "string \<Rightarrow> nat \<Rightarrow> heap \<Rightarrow> statMgr \<Rightarrow> (nat \<times> string) \<times> heap \<times> statMgr" where
  "MessageRequest_Handle sessionName p h mgr =
     (let h = h[p := (h ! p)\<lparr>Msg := Msg (h ! p) @ ''!''\<rparr>];
          h = h[p := (h ! p)\<lparr>Num := Num (h ! p) + 1\<rparr>]
      in ((p, sessionName), h, mgr\<lparr>counter := counter mgr + 1\<rparr>))"

section \<open>Clients\<close>

text \<open>
  One of the client's goroutines, with its own stream: it is about to send, waits for the reply to the message at an address, has the reply,
  or has panicked.
\<close>

datatype echo_phase = Ready | Requested nat | Replied nat string | WrongNumber

record echoClient =
  ec_req :: nat
  ec_i :: nat
  ec_phase :: echo_phase
  ec_session :: "string option"

record echoSystem =
  es_heap :: heap
  es_clients :: "echoClient list"
  es_mgr :: statMgr

definition new_echoSystem :: "nat \<Rightarrow> echoSystem" where
  "new_echoSystem n =
     \<lparr>es_heap = map (\<lambda>i. \<lparr>Msg = ''ni hao'', Num = 100 * of_nat i\<rparr>) [0..<n],
      es_clients = map (\<lambda>i. \<lparr>ec_req = i, ec_i = 0, ec_phase = Ready, ec_session = None\<rparr>) [0..<n],
      es_mgr = new_statMgr\<rparr>"

datatype echo_event = EvSend nat | EvArrive nat | EvHandle nat | EvCheck nat

text \<open>
  The steps: the client adds 10 and sends, where \<open>deep\<close> says whether a copy is sent (\<open>SetDeepCopy\<close>, or a network connection); the
  server's connection makes the stream on its first message; a worker runs the handler; the client checks the reply. A
  step that is not possible changes nothing.
\<close>

definition client_send :: "bool \<Rightarrow> echoClient \<Rightarrow> heap \<Rightarrow> echoClient \<times> heap" where
  "client_send deep c h =
     (let h = h[ec_req c := (h ! ec_req c)\<lparr>Num := Num (h ! ec_req c) + 10\<rparr>]
      in if deep then (c\<lparr>ec_phase := Requested (length h)\<rparr>, h @ [h ! ec_req c])
         else (c\<lparr>ec_phase := Requested (ec_req c)\<rparr>, h))"

definition client_check :: "nat \<Rightarrow> echoClient \<Rightarrow> heap \<Rightarrow> echoClient" where
  "client_check p c h =
     (if Num (h ! ec_req c) + 1 \<noteq> Num (h ! p) then c\<lparr>ec_phase := WrongNumber\<rparr>
      else c\<lparr>ec_i := ec_i c + 1, ec_phase := Ready\<rparr>)"

fun echo_step :: "bool \<Rightarrow> echoSystem \<Rightarrow> echo_event \<Rightarrow> echoSystem" where
  "echo_step deep s (EvSend k) =
     (if k < length (es_clients s) \<and> ec_phase (es_clients s ! k) = Ready \<and> ec_i (es_clients s ! k) < 9 then
        (let (c, h) = client_send deep (es_clients s ! k) (es_heap s)
         in s\<lparr>es_clients := (es_clients s)[k := c], es_heap := h\<rparr>)
      else s)"
| "echo_step deep s (EvArrive k) =
     (if k < length (es_clients s) then
        (case (ec_phase (es_clients s ! k), ec_session (es_clients s ! k)) of
           (Requested p, None) \<Rightarrow>
             (let (name, mgr) = onNewStream (es_mgr s)
              in s\<lparr>es_clients := (es_clients s)[k := (es_clients s ! k)\<lparr>ec_session := Some name\<rparr>], es_mgr := mgr\<rparr>)
         | _ \<Rightarrow> s)
      else s)"
| "echo_step deep s (EvHandle k) =
     (if k < length (es_clients s) then
        (case (ec_phase (es_clients s ! k), ec_session (es_clients s ! k)) of
           (Requested p, Some name) \<Rightarrow>
             (let ((q, sig), h, mgr) = MessageRequest_Handle name p (es_heap s) (es_mgr s)
              in s\<lparr>es_clients := (es_clients s)[k := (es_clients s ! k)\<lparr>ec_phase := Replied q sig\<rparr>], es_heap := h, es_mgr := mgr\<rparr>)
         | _ \<Rightarrow> s)
      else s)"
| "echo_step deep s (EvCheck k) =
     (if k < length (es_clients s) then
        (case ec_phase (es_clients s ! k) of
           Replied p sig \<Rightarrow> s\<lparr>es_clients := (es_clients s)[k := client_check p (es_clients s ! k) (es_heap s)]\<rparr>
         | _ \<Rightarrow> s)
      else s)"

section \<open>Replies are right\<close>

text \<open>The address of the message under way, and how often the client's variable was increased.\<close>

definition in_flight :: "echoClient \<Rightarrow> nat option" where
  "in_flight c = (case ec_phase c of Requested p \<Rightarrow> Some p | Replied p sig \<Rightarrow> Some p | _ \<Rightarrow> None)"

definition sent_count :: "echoClient \<Rightarrow> nat" where
  "sent_count c = ec_i c + (if in_flight c = None then 0 else 1)"

definition handled_count :: "echoClient \<Rightarrow> nat" where
  "handled_count c = ec_i c + (case ec_phase c of Replied p sig \<Rightarrow> 1 | _ \<Rightarrow> 0)"

definition the_request :: "nat \<Rightarrow> echoClient \<Rightarrow> MessageRequest" where
  "the_request k c = \<lparr>Msg = ''ni hao'', Num = 100 * of_nat k + 10 * of_nat (sent_count c)\<rparr>"

definition client_ok :: "nat \<Rightarrow> nat \<Rightarrow> echoClient \<Rightarrow> heap \<Rightarrow> bool" where
  "client_ok n k c h \<longleftrightarrow>
     ec_req c = k \<and> h ! k = the_request k c \<and> sent_count c \<le> 9 \<and>
     (case ec_phase c of
        Ready \<Rightarrow> True
      | Requested p \<Rightarrow> n \<le> p \<and> p < length h \<and> h ! p = h ! k
      | Replied p sig \<Rightarrow> n \<le> p \<and> p < length h \<and> Msg (h ! p) = ''ni hao!'' \<and> Num (h ! p) = Num (h ! k) + 1 \<and> ec_session c = Some sig
      | WrongNumber \<Rightarrow> False)"

definition echo_inv :: "nat \<Rightarrow> echoSystem \<Rightarrow> bool" where
  "echo_inv n s \<longleftrightarrow>
     length (es_clients s) = n \<and> n \<le> length (es_heap s) \<and>
     (\<forall>k<n. client_ok n k (es_clients s ! k) (es_heap s)) \<and>
     (\<forall>j<n. \<forall>k<n. j \<noteq> k \<longrightarrow> in_flight (es_clients s ! j) \<noteq> None \<longrightarrow> in_flight (es_clients s ! j) \<noteq> in_flight (es_clients s ! k)) \<and>
     counter (es_mgr s) = of_nat (sum_list (map handled_count (es_clients s)))"

lemma in_flight_bound:
  assumes "client_ok n k c h" and "in_flight c = Some p"
  shows "n \<le> p \<and> p < length h"
  using assms by (auto simp: client_ok_def in_flight_def split: echo_phase.splits)

text \<open>A client does not notice what happens to other addresses.\<close>

lemma client_ok_cong:
  assumes "client_ok n k c h" and "length h \<le> length h'" and "h' ! k = h ! k"
    and "\<And>p. in_flight c = Some p \<Longrightarrow> h' ! p = h ! p"
  shows "client_ok n k c h'"
  using assms by (auto simp: client_ok_def in_flight_def split: echo_phase.splits)

lemma sum_list_map_update:
  "k < length xs \<Longrightarrow> sum_list (map f (xs[k := x])) + f (xs ! k) = sum_list (map f xs) + (f x :: nat)"
  by (induction xs arbitrary: k) (auto split: nat.splits)

lemma echo_inv_update:
  assumes inv: "echo_inv n s" and k: "k < n" and ok: "client_ok n k c' h'" and len: "length (es_heap s) \<le> length h'"
    and frame: "\<And>p. p < length (es_heap s) \<Longrightarrow> p \<noteq> k \<Longrightarrow> in_flight (es_clients s ! k) \<noteq> Some p \<Longrightarrow> h' ! p = es_heap s ! p"
    and flight: "in_flight c' \<in> {None, in_flight (es_clients s ! k), Some (length (es_heap s))}"
    and count: "counter mgr + of_nat (handled_count (es_clients s ! k)) = counter (es_mgr s) + of_nat (handled_count c')"
  shows "echo_inv n (s\<lparr>es_clients := (es_clients s)[k := c'], es_heap := h', es_mgr := mgr\<rparr>)"
proof -
  have n: "length (es_clients s) = n" "n \<le> length (es_heap s)" using inv by (simp_all add: echo_inv_def)
  have ok_j: "client_ok n j (es_clients s ! j) (es_heap s)" if "j < n" for j using inv that by (simp add: echo_inv_def)
  have apart: "in_flight (es_clients s ! i) \<noteq> in_flight (es_clients s ! j)"
    if "i < n" "j < n" "i \<noteq> j" "in_flight (es_clients s ! i) \<noteq> None" for i j
    using inv that by (simp add: echo_inv_def)
  have bound: "n \<le> p \<and> p < length (es_heap s)" if "j < n" "in_flight (es_clients s ! j) = Some p" for j p
    using in_flight_bound [OF ok_j [OF that(1)] that(2)] .
  have others: "client_ok n j (es_clients s ! j) h'" if j: "j < n" "j \<noteq> k" for j
  proof (rule client_ok_cong [OF ok_j [OF j(1)] len])
    show "h' ! j = es_heap s ! j" using frame [of j] bound [OF k, of j] j n by auto
    show "h' ! p = es_heap s ! p" if "in_flight (es_clients s ! j) = Some p" for p
      using frame [of p] bound [OF j(1) that] apart [OF j(1) k] that j k by auto
  qed
  have flights: "in_flight ((es_clients s)[k := c'] ! i) \<noteq> in_flight ((es_clients s)[k := c'] ! j)"
    if ij: "i < n" "j < n" "i \<noteq> j" and some: "in_flight ((es_clients s)[k := c'] ! i) \<noteq> None" for i j
  proof -
    have new: "in_flight c' \<noteq> in_flight (es_clients s ! j)" if "j < n" "j \<noteq> k" "in_flight c' \<noteq> None" for j
      using flight that apart [of k j] bound [of j "length (es_heap s)"] k by auto
    show ?thesis
      using ij some new [of j] new [of i] apart [of i j] k n by (auto simp: nth_update_if)
  qed
  have "of_nat (sum_list (map handled_count ((es_clients s)[k := c']))) + of_nat (handled_count (es_clients s ! k)) =
      (of_nat (sum_list (map handled_count (es_clients s))) + of_nat (handled_count c') :: 64 word)"
    using sum_list_map_update [of k "es_clients s" handled_count c'] k n by (metis of_nat_add)
  moreover have "counter (es_mgr s) = of_nat (sum_list (map handled_count (es_clients s)))" using inv by (simp add: echo_inv_def)
  ultimately have "counter mgr = of_nat (sum_list (map handled_count ((es_clients s)[k := c'])))" using count by (metis add_right_cancel)
  with n len others ok flights k show ?thesis by (auto simp: echo_inv_def nth_update_if)
qed

lemma echo_step_inv:
  assumes "echo_inv n s"
  shows "echo_inv n (echo_step True s e)"
proof -
  have n: "length (es_clients s) = n" "n \<le> length (es_heap s)" using assms by (simp_all add: echo_inv_def)
  have ok: "client_ok n k (es_clients s ! k) (es_heap s)" if "k < n" for k using assms that by (simp add: echo_inv_def)
  show ?thesis
  proof (cases e)
    case (EvSend k)
    show ?thesis
    proof (cases "k < n \<and> ec_phase (es_clients s ! k) = Ready \<and> ec_i (es_clients s ! k) < 9")
      case True
      let ?c = "es_clients s ! k" and ?h = "es_heap s"
      let ?h1 = "?h[k := (?h ! k)\<lparr>Num := Num (?h ! k) + 10\<rparr>]"
      have r: "ec_req ?c = k" "?h ! k = the_request k ?c" using ok [of k] True by (simp_all add: client_ok_def)
      have "echo_inv n (s\<lparr>es_clients := (es_clients s)[k := ?c\<lparr>ec_phase := Requested (length ?h)\<rparr>], es_heap := ?h1 @ [?h1 ! k], es_mgr := es_mgr s\<rparr>)"
        by (rule echo_inv_update [OF assms])
           (use True n r in \<open>auto simp: client_ok_def in_flight_def sent_count_def handled_count_def the_request_def nth_append algebra_simps\<close>)
      then show ?thesis using True n by (simp add: EvSend client_send_def r Let_def)
    qed (use assms n in \<open>auto simp: EvSend\<close>)
  next
    case (EvArrive k)
    show ?thesis
    proof (cases "k < n \<and> (\<exists>p. ec_phase (es_clients s ! k) = Requested p) \<and> ec_session (es_clients s ! k) = None")
      case True
      then obtain p where p: "ec_phase (es_clients s ! k) = Requested p" by blast
      let ?c = "es_clients s ! k"
      obtain nm mgr where m: "onNewStream (es_mgr s) = (nm, mgr)" by force
      then have "counter mgr = counter (es_mgr s)" by (auto simp: onNewStream_def Let_def)
      then have "echo_inv n (s\<lparr>es_clients := (es_clients s)[k := ?c\<lparr>ec_session := Some nm\<rparr>], es_heap := es_heap s, es_mgr := mgr\<rparr>)"
        using ok [of k] True p
        by (intro echo_inv_update [OF assms]) (auto simp: client_ok_def in_flight_def sent_count_def handled_count_def the_request_def)
      then show ?thesis using True n p m by (simp add: EvArrive)
    qed (use assms n in \<open>auto simp: EvArrive split: echo_phase.splits option.splits\<close>)
  next
    case (EvHandle k)
    show ?thesis
    proof (cases "k < n \<and> (\<exists>p nm. ec_phase (es_clients s ! k) = Requested p \<and> ec_session (es_clients s ! k) = Some nm)")
      case True
      then obtain p nm where p: "k < n" "ec_phase (es_clients s ! k) = Requested p" "ec_session (es_clients s ! k) = Some nm" by blast
      let ?c = "es_clients s ! k" and ?h = "es_heap s"
      let ?h' = "?h[p := (?h ! p)\<lparr>Msg := Msg (?h ! p) @ ''!'', Num := Num (?h ! p) + 1\<rparr>]"
      have b: "n \<le> p" "p < length ?h" "?h ! p = ?h ! k" "?h ! k = the_request k ?c" using ok [of k] p by (simp_all add: client_ok_def)
      have "echo_inv n (s\<lparr>es_clients := (es_clients s)[k := ?c\<lparr>ec_phase := Replied p nm\<rparr>], es_heap := ?h',
          es_mgr := (es_mgr s)\<lparr>counter := counter (es_mgr s) + 1\<rparr>\<rparr>)"
        by (rule echo_inv_update [OF assms])
           (use ok [of k] p b n in \<open>auto simp: client_ok_def in_flight_def sent_count_def handled_count_def the_request_def\<close>)
      then show ?thesis using p n b by (simp add: EvHandle MessageRequest_Handle_def Let_def)
    qed (use assms n in \<open>auto simp: EvHandle split: echo_phase.splits option.splits\<close>)
  next
    case (EvCheck k)
    show ?thesis
    proof (cases "k < n \<and> (\<exists>p nm. ec_phase (es_clients s ! k) = Replied p nm)")
      case True
      then obtain p nm where p: "k < n" "ec_phase (es_clients s ! k) = Replied p nm" by blast
      let ?c = "es_clients s ! k"
      have b: "Num (es_heap s ! p) = Num (es_heap s ! k) + 1" "ec_req ?c = k" using ok [of k] p by (simp_all add: client_ok_def)
      have "echo_inv n (s\<lparr>es_clients := (es_clients s)[k := ?c\<lparr>ec_i := ec_i ?c + 1, ec_phase := Ready\<rparr>], es_heap := es_heap s, es_mgr := es_mgr s\<rparr>)"
        by (rule echo_inv_update [OF assms])
           (use ok [of k] p b n in \<open>auto simp: client_ok_def in_flight_def sent_count_def handled_count_def the_request_def\<close>)
      then show ?thesis using p n b by (simp add: EvCheck client_check_def)
    qed (use assms n in \<open>auto simp: EvCheck split: echo_phase.splits\<close>)
  qed
qed

interpretation echo: transition "echo_step True" "\<lambda>e. True" "echo_inv n"
  by unfold_locales (simp add: echo_step_inv)

lemma echo_inv_new: "echo_inv n (new_echoSystem n)"
  by (auto simp: echo_inv_def new_echoSystem_def client_ok_def in_flight_def sent_count_def handled_count_def the_request_def
      new_statMgr_def sum_list_0 comp_def)

text \<open>The names of the sessions are numbered.\<close>

definition session_name :: "nat \<Rightarrow> string" where
  "session_name j = ''yours echo.v1.0 from '' @ show_int (sint (of_nat j :: 32 word))"

lemma session_name_inj: "i < 2 ^ 31 \<Longrightarrow> j < 2 ^ 31 \<Longrightarrow> session_name i = session_name j \<longleftrightarrow> i = j"
proof -
  assume "i < 2 ^ 31" "j < 2 ^ 31"
  moreover have "sint (of_nat k :: 32 word) = int k" if "k < 2 ^ 31" for k :: nat
    using that by (simp add: signed_of_nat signed_take_bit_int_eq_self)
  ultimately show ?thesis by (simp add: session_name_def show_int_def show_nat_inj)
qed

abbreviation session_count :: "echoSystem \<Rightarrow> nat" where
  "session_count s \<equiv> count_if (\<lambda>c. ec_session c \<noteq> None) (es_clients s)"

definition session_inv :: "nat \<Rightarrow> echoSystem \<Rightarrow> bool" where
  "session_inv n s \<longleftrightarrow>
     length (es_clients s) = n \<and> sessionNum (es_mgr s) = of_nat (session_count s) \<and>
     (\<forall>k<n. \<forall>nm. ec_session (es_clients s ! k) = Some nm \<longrightarrow> (\<exists>j. 0 < j \<and> j \<le> session_count s \<and> nm = session_name j)) \<and>
     (\<forall>j<n. \<forall>k<n. j \<noteq> k \<longrightarrow> ec_session (es_clients s ! j) \<noteq> None \<longrightarrow> ec_session (es_clients s ! j) \<noteq> ec_session (es_clients s ! k))"

lemma session_inv_same:
  assumes "session_inv n s" and "k < n" and "ec_session c = ec_session (es_clients s ! k)" and "sessionNum mgr = sessionNum (es_mgr s)"
  shows "session_inv n (s\<lparr>es_clients := (es_clients s)[k := c], es_heap := h, es_mgr := mgr\<rparr>)"
proof -
  have n: "length (es_clients s) = n" using assms(1) by (simp add: session_inv_def)
  have same: "ec_session ((es_clients s)[k := c] ! j) = ec_session (es_clients s ! j)" if "j < n" for j
    using assms(2,3) n that by (simp add: nth_update_if)
  moreover have "session_count (s\<lparr>es_clients := (es_clients s)[k := c]\<rparr>) = session_count s"
    using count_if_list_update [where 'r = int, of k "es_clients s" "\<lambda>c. ec_session c \<noteq> None" c] assms(2,3) n by (auto split: if_splits)
  ultimately show ?thesis using assms(1,4) by (simp add: session_inv_def)
qed

lemma session_inv_new_stream:
  assumes inv: "session_inv n s" and k: "k < n" "ec_session (es_clients s ! k) = None" and m: "onNewStream (es_mgr s) = (nm, mgr)" and n: "n < 2 ^ 31"
  shows "session_inv n (s\<lparr>es_clients := (es_clients s)[k := (es_clients s ! k)\<lparr>ec_session := Some nm\<rparr>], es_mgr := mgr\<rparr>)"
proof -
  let ?s = "s\<lparr>es_clients := (es_clients s)[k := (es_clients s ! k)\<lparr>ec_session := Some nm\<rparr>], es_mgr := mgr\<rparr>" and ?m = "session_count s"
  have len: "length (es_clients s) = n" "sessionNum (es_mgr s) = of_nat ?m" using inv by (simp_all add: session_inv_def)
  have c: "session_count ?s = Suc ?m"
    using count_if_list_update [where 'r = int, of k "es_clients s" "\<lambda>c. ec_session c \<noteq> None"
        "(es_clients s ! k)\<lparr>ec_session := Some nm\<rparr>"] k len by simp
  have nm: "nm = session_name (Suc ?m)" and num: "sessionNum mgr = of_nat (Suc ?m)"
    using m len by (auto simp: onNewStream_def session_name_def Let_def add.commute)
  have "session_count ?s \<le> n" using len length_filter_le [of "\<lambda>c. ec_session c \<noteq> None" "es_clients ?s"] by simp
  then have m': "Suc ?m < 2 ^ 31" using c n by simp
  have old: "\<exists>j. 0 < j \<and> j \<le> ?m \<and> x = session_name j" if "i < n" "ec_session (es_clients s ! i) = Some x" for i x
    using inv that unfolding session_inv_def by metis
  have new: "ec_session (es_clients s ! j) \<noteq> Some nm" if j: "j < n" for j
  proof
    assume "ec_session (es_clients s ! j) = Some nm"
    then obtain i where i: "i \<le> ?m" "nm = session_name i" using old [OF j] by blast
    have "i < 2 ^ 31" by (rule le_less_trans [OF le_SucI [OF i(1)] m'])
    from session_name_inj [OF this m'] have "i = Suc ?m" using nm i(2) by metis
    with i(1) show False by simp
  qed
  have apart: "ec_session (es_clients s ! i) \<noteq> ec_session (es_clients s ! j)"
    if "i < n" "j < n" "i \<noteq> j" "ec_session (es_clients s ! i) \<noteq> None" for i j
    using inv that unfolding session_inv_def by blast
  have names: "\<exists>j. 0 < j \<and> j \<le> session_count ?s \<and> x = session_name j" if i: "i < n" "ec_session (es_clients ?s ! i) = Some x" for i x
  proof (cases "i = k")
    case True
    then have "x = nm" using i len by simp
    then show ?thesis unfolding c using nm by (intro exI [of _ "Suc ?m"] conjI) (rule zero_less_Suc, rule le_refl, simp only:)
  next
    case False
    then show ?thesis using old [of i x] i len unfolding c by (auto simp: nth_update_if intro: le_SucI)
  qed
  have "ec_session (es_clients ?s ! i) \<noteq> ec_session (es_clients ?s ! j)"
    if "i < n" "j < n" "i \<noteq> j" "ec_session (es_clients ?s ! i) \<noteq> None" for i j
    using that new [of i] new [of j] apart [of i j] len by (auto simp: nth_update_if split: if_splits)
  with len c num names show ?thesis unfolding session_inv_def by simp
qed

lemma session_step:
  assumes "session_inv n s" and "n < 2 ^ 31"
  shows "session_inv n (echo_step deep s e)"
proof -
  have n: "length (es_clients s) = n" using assms by (simp add: session_inv_def)
  note same = session_inv_same [OF assms(1)]
  show ?thesis
  proof (cases e)
    case (EvSend k)
    then show ?thesis using n assms(1) same [of k _ "es_mgr s"] by (simp add: client_send_def Let_def)
  next
    case (EvArrive k)
    then show ?thesis
      using n assms session_inv_new_stream [OF assms(1), of k]
      by (auto split: echo_phase.splits option.splits prod.splits)
  next
    case (EvHandle k)
    then show ?thesis
      using n assms(1) same [of k _ "(es_mgr s)\<lparr>counter := counter (es_mgr s) + 1\<rparr>"]
      by (auto simp: MessageRequest_Handle_def Let_def split: echo_phase.splits option.splits)
  next
    case (EvCheck k)
    then show ?thesis
      using n assms(1) same [of k _ "es_mgr s" "es_heap s"] by (auto simp: client_check_def split: echo_phase.splits)
  qed
qed

interpretation echo_sessions: transition "echo_step deep" "\<lambda>e. n < 2 ^ 31" "session_inv n"
  by unfold_locales (rule session_step)

lemma session_inv_Nil: "session_inv n (new_echoSystem n)"
  by (auto simp: session_inv_def new_echoSystem_def new_statMgr_def comp_def filter_False)

section \<open>Properties\<close>

text \<open>
  C32 (echo example): however the goroutines of the clients, the connections and the workers interleave, a client that sends copies
  never finds a wrong number: every reply has the number of the client's request plus one and the changed text, under the name of the
  stream's own session, no two streams have the same session name, no client makes more than nine requests, and the
  server's counter is the number of requests it has handled.
\<close>

theorem echo_replies:
  fixes es :: "echo_event list"
  assumes "n < 2 ^ 31" and "k < n"
  defines "s \<equiv> foldl (echo_step True) (new_echoSystem n) es"
  defines "c \<equiv> es_clients s ! k"
  shows "ec_phase c \<noteq> WrongNumber \<and> ec_i c \<le> 9 \<and>
    (\<forall>p sig. ec_phase c = Replied p sig \<longrightarrow>
       es_heap s ! p = \<lparr>Msg = ''ni hao!'', Num = 100 * of_nat k + 10 * (of_nat (ec_i c) + 1) + 1\<rparr> \<and> ec_session c = Some sig) \<and>
    (\<forall>j<n. j \<noteq> k \<longrightarrow> ec_session c \<noteq> None \<longrightarrow> ec_session (es_clients s ! j) \<noteq> ec_session c) \<and>
    counter (es_mgr s) = of_nat (sum_list (map handled_count (es_clients s)))"
proof -
  have inv: "echo_inv n s" unfolding s_def by (rule echo.run_inv [OF echo_inv_new]) (simp add: list_all_iff)
  then have ok: "client_ok n k c (es_heap s)" and cnt: "counter (es_mgr s) = of_nat (sum_list (map handled_count (es_clients s)))"
    using assms(2) by (simp_all add: echo_inv_def c_def)
  have "es_heap s ! p = \<lparr>Msg = ''ni hao!'', Num = 100 * of_nat k + 10 * (of_nat (ec_i c) + 1) + 1\<rparr> \<and> ec_session c = Some sig"
    if "ec_phase c = Replied p sig" for p sig
    using ok that by (simp add: client_ok_def the_request_def sent_count_def in_flight_def add.commute)
  moreover have "ec_phase c \<noteq> WrongNumber \<and> ec_i c \<le> 9"
    using ok by (auto simp: client_ok_def sent_count_def split: if_splits)
  moreover have "session_inv n s"
    unfolding s_def by (rule echo_sessions.run_inv [OF session_inv_Nil]) (use assms(1) in \<open>simp add: list_all_iff\<close>)
  then have "\<forall>j<n. j \<noteq> k \<longrightarrow> ec_session c \<noteq> None \<longrightarrow> ec_session (es_clients s ! j) \<noteq> ec_session c"
    using assms(2) unfolding session_inv_def c_def by metis
  ultimately show ?thesis using cnt by blast
qed

definition demo_echo_run :: echoSystem where
  "demo_echo_run = foldl (echo_step True) (new_echoSystem 2)
     [EvSend 0, EvSend 1, EvArrive 1, EvArrive 0, EvHandle 0, EvHandle 1, EvCheck 0]"

lemma demo_echo_reply: "\<exists>sig. ec_phase (es_clients demo_echo_run ! 1) = Replied 3 sig" "ec_i (es_clients demo_echo_run ! 1) = 0"
  by (simp_all add: demo_echo_run_def new_echoSystem_def client_send_def client_check_def onNewStream_def MessageRequest_Handle_def
      numeral_2_eq_2 upt_rec Let_def nth_append)

theorem echo_replies_witness:
  "(\<exists>sig. ec_phase (es_clients demo_echo_run ! 1) = Replied 3 sig) \<and> es_heap demo_echo_run ! 3 = \<lparr>Msg = ''ni hao!'', Num = 111\<rparr>"
proof -
  obtain sig where sig: "ec_phase (es_clients demo_echo_run ! 1) = Replied 3 sig" using demo_echo_reply(1) by blast
  have n: "(2 :: nat) < 2 ^ 31" "(1 :: nat) < 2" by simp_all
  have "es_heap demo_echo_run ! 3 = \<lparr>Msg = ''ni hao!'', Num = 100 * of_nat 1 + 10 * (of_nat (ec_i (es_clients demo_echo_run ! 1)) + 1) + 1\<rparr>"
    using echo_replies [OF n, of "[EvSend 0, EvSend 1, EvArrive 1, EvArrive 0, EvHandle 0, EvHandle 1, EvCheck 0]",
        folded demo_echo_run_def] sig by blast
  with sig demo_echo_reply(2) show ?thesis by simp
qed

text \<open>Without the copy the handler changes the client's own variable, and the first check panics.\<close>

lemma echo_needs_copy:
  "ec_phase (es_clients (foldl (echo_step False) (new_echoSystem 1) [EvSend 0, EvArrive 0, EvHandle 0, EvCheck 0]) ! 0) = WrongNumber"
  by (simp add: new_echoSystem_def client_send_def client_check_def onNewStream_def MessageRequest_Handle_def Let_def)

section \<open>Subscriptions to new clients\<close>

text \<open>
  The hooks and handlers that share the manager's lock, and the goroutines they start. Sections under the write lock do not block, so each is one
  step, possible while no goroutine holds the read lock; the goroutine that \<open>onConnect\<close> starts holds the read lock while it
  sends the address to the subscribers, one after the other. A pump is the goroutine of one subscription: it waits for an address,
  is in \<open>stream.Send\<close>, waits for the write lock after a failed \<open>Send\<close>, or has returned.
\<close>

datatype pump = PumpIdle | PumpSending string | PumpWantsLock | PumpGone

record subscriber =
  sb_chan :: "string chan"
  sb_pump :: pump
  sb_listed :: bool
  sb_sent :: "string list"

datatype notifier = WaitsRLock string | Notifying string "nat list" | NotifierDone

record hub =
  hb_clients :: "(string, unit) gomap"
  hb_subs :: "subscriber list"
  hb_notifiers :: "notifier list"

definition new_hub :: hub where
  "new_hub = \<lparr>hb_clients = [], hb_subs = [], hb_notifiers = []\<rparr>"

fun holds_RLock :: "notifier \<Rightarrow> bool" where
  "holds_RLock (Notifying a chs) = True"
| "holds_RLock _ = False"

abbreviation can_Lock :: "hub \<Rightarrow> bool" where
  "can_Lock h \<equiv> \<not> list_ex holds_RLock (hb_notifiers h)"

definition WhoElse_Handle :: "hub \<Rightarrow> string" where
  "WhoElse_Handle h = concat (map (\<lambda>(client, u). '' '' @ client) (hb_clients h))"

definition onConnect :: "string \<Rightarrow> hub \<Rightarrow> hub" where
  "onConnect raddr h =
     h\<lparr>hb_clients := AList.update raddr () (hb_clients h), hb_notifiers := hb_notifiers h @ [WaitsRLock raddr]\<rparr>"

definition onDisconnect :: "string \<Rightarrow> hub \<Rightarrow> hub" where
  "onDisconnect raddr h = h\<lparr>hb_clients := AList.delete raddr (hb_clients h)\<rparr>"

definition SubWhoElseEvent_Handle :: "hub \<Rightarrow> hub" where
  "SubWhoElseEvent_Handle h =
     h\<lparr>hb_subs := hb_subs h @ [\<lparr>sb_chan = make_chan 1, sb_pump = PumpIdle, sb_listed = True, sb_sent = []\<rparr>]\<rparr>"

text \<open>The steps of the notifiers and of the pumps; \<open>ok\<close> is whether \<open>Send\<close> succeeds, \<open>order\<close> the order of the map.\<close>

definition notifier_step :: "(nat list \<Rightarrow> nat list) \<Rightarrow> nat \<Rightarrow> hub \<Rightarrow> hub" where
  "notifier_step order j h =
     (case hb_notifiers h ! j of
        WaitsRLock a \<Rightarrow>
          h\<lparr>hb_notifiers := (hb_notifiers h)[j := Notifying a (order (filter (\<lambda>i. sb_listed (hb_subs h ! i)) [0..<length (hb_subs h)]))]\<rparr>
      | Notifying a (i # chs) \<Rightarrow>
          (case try_send a (sb_chan (hb_subs h ! i)) of
             None \<Rightarrow> h
           | Some ch \<Rightarrow>
               h\<lparr>hb_subs := (hb_subs h)[i := (hb_subs h ! i)\<lparr>sb_chan := ch\<rparr>], hb_notifiers := (hb_notifiers h)[j := Notifying a chs]\<rparr>)
      | Notifying a [] \<Rightarrow> h\<lparr>hb_notifiers := (hb_notifiers h)[j := NotifierDone]\<rparr>
      | NotifierDone \<Rightarrow> h)"

definition pump_step :: "bool \<Rightarrow> bool \<Rightarrow> subscriber \<Rightarrow> subscriber" where
  "pump_step ok lockable sb =
     (case sb_pump sb of
        PumpIdle \<Rightarrow> (case try_recv (sb_chan sb) of None \<Rightarrow> sb | Some (a, ch) \<Rightarrow> sb\<lparr>sb_chan := ch, sb_pump := PumpSending a\<rparr>)
      | PumpSending a \<Rightarrow> if ok then sb\<lparr>sb_pump := PumpIdle, sb_sent := sb_sent sb @ [a]\<rparr> else sb\<lparr>sb_pump := PumpWantsLock\<rparr>
      | PumpWantsLock \<Rightarrow> if lockable then sb\<lparr>sb_listed := False, sb_pump := PumpGone\<rparr> else sb
      | PumpGone \<Rightarrow> sb)"

datatype hub_event = HubConnect string | HubDisconnect string | HubSubscribe | HubNotify nat | HubPump nat bool

fun hub_step :: "(nat list \<Rightarrow> nat list) \<Rightarrow> hub \<Rightarrow> hub_event \<Rightarrow> hub" where
  "hub_step order h (HubConnect a) = (if can_Lock h then onConnect a h else h)"
| "hub_step order h (HubDisconnect a) = (if can_Lock h then onDisconnect a h else h)"
| "hub_step order h HubSubscribe = (if can_Lock h then SubWhoElseEvent_Handle h else h)"
| "hub_step order h (HubNotify j) = (if j < length (hb_notifiers h) then notifier_step order j h else h)"
| "hub_step order h (HubPump i ok) =
     (if i < length (hb_subs h) then h\<lparr>hb_subs := (hb_subs h)[i := pump_step ok (can_Lock h) (hb_subs h ! i)]\<rparr> else h)"

text \<open>A notifier that holds the read lock waits for a pump that waits for the write lock.\<close>

definition stuck :: "hub \<Rightarrow> bool" where
  "stuck h \<longleftrightarrow> (\<exists>j a i chs. j < length (hb_notifiers h) \<and> hb_notifiers h ! j = Notifying a (i # chs) \<and> i < length (hb_subs h) \<and>
     sb_pump (hb_subs h ! i) = PumpWantsLock \<and> length (buffered (sb_chan (hb_subs h ! i))) = capacity (sb_chan (hb_subs h ! i)) \<and>
     \<not> closed (sb_chan (hb_subs h ! i)))"

lemma locked_no_lock: "stuck h \<Longrightarrow> \<not> can_Lock h"
  unfolding stuck_def list_ex_iff by (metis holds_RLock.simps(1) nth_mem)

lemma full_try_send: "length (buffered ch) = capacity ch \<Longrightarrow> \<not> closed ch \<Longrightarrow> try_send x ch = None"
  by (simp add: try_send_def chan_send_def)

lemma locked_step:
  assumes "stuck h"
  shows "stuck (hub_step order h e)"
proof -
  from assms obtain j a i chs where s: "j < length (hb_notifiers h)" "hb_notifiers h ! j = Notifying a (i # chs)" "i < length (hb_subs h)"
    "sb_pump (hb_subs h ! i) = PumpWantsLock" "length (buffered (sb_chan (hb_subs h ! i))) = capacity (sb_chan (hb_subs h ! i))"
    "\<not> closed (sb_chan (hb_subs h ! i))" unfolding stuck_def by blast
  note full = full_try_send [OF s(5,6)]
  show ?thesis
  proof (cases e)
    case (HubNotify k)
    show ?thesis
    proof (cases "k < length (hb_notifiers h) \<and> k \<noteq> j")
      case True
      then show ?thesis
        using s full unfolding stuck_def HubNotify
        by (intro exI [of _ j] exI [of _ a] exI [of _ i] exI [of _ chs])
           (auto simp: notifier_step_def nth_update_if split: notifier.split list.split option.split)
    qed (use assms s full in \<open>auto simp: HubNotify notifier_step_def\<close>)
  next
    case (HubPump k ok)
    have "pump_step ok False (hb_subs h ! i) = hb_subs h ! i" using s by (simp add: pump_step_def)
    then show ?thesis
      using s locked_no_lock [OF assms] unfolding stuck_def HubPump
      by (intro exI [of _ j] exI [of _ a] exI [of _ i] exI [of _ chs]) (auto simp: nth_update_if)
  qed (use assms locked_no_lock [OF assms] in auto)
qed

interpretation hub: transition "hub_step order" "\<lambda>e. True" stuck
  by unfold_locales (rule locked_step)

text \<open>
  Three clients that connect around the time when a subscriber's connection fails bring the service to a halt: from then on no
  goroutine gets the lock again, so that every later client hangs in \<open>onConnect\<close>.
\<close>

lemma echo_subscriber_deadlock:
  "\<exists>es. \<forall>es'. \<not> can_Lock (foldl (hub_step (\<lambda>chs. chs)) new_hub (es @ es'))"
proof -
  let ?es = "[HubSubscribe, HubConnect ''a'', HubNotify 0, HubNotify 0, HubNotify 0, HubPump 0 True, HubConnect ''b'', HubNotify 1, HubNotify 1,
    HubNotify 1, HubConnect ''c'', HubNotify 2, HubPump 0 False]"
  have "stuck (foldl (hub_step (\<lambda>chs. chs)) new_hub ?es)"
    unfolding stuck_def
    by (intro exI [of _ 2] exI [of _ "''c''"] exI [of _ 0] exI [of _ "[]"])
       (simp add: new_hub_def onConnect_def SubWhoElseEvent_Handle_def notifier_step_def pump_step_def make_chan_def try_send_def chan_send_def
         try_recv_def chan_recv_def)
  then have "stuck (foldl (hub_step (\<lambda>chs. chs)) (foldl (hub_step (\<lambda>chs. chs)) new_hub ?es) es')" for es'
    by (rule hub.run_inv) (simp add: list_all_iff)
  then have "\<forall>es'. \<not> can_Lock (foldl (hub_step (\<lambda>chs. chs)) new_hub (?es @ es'))"
    unfolding foldl_append using locked_no_lock by blast
  then show ?thesis by (rule exI)
qed

text \<open>Clients with the same remote address, as those of unix sockets have, are one entry, and are forgotten together.\<close>

lemma same_address_forgotten:
  "WhoElse_Handle (foldl (hub_step (\<lambda>chs. chs)) new_hub [HubConnect ''@'', HubConnect ''@'', HubDisconnect ''@'']) = []"
  by (simp add: WhoElse_Handle_def new_hub_def onConnect_def onDisconnect_def)

end
