(* ===== verification/RootRegistry.thy ===== *)
theory RootRegistry
  imports Providers
begin

text \<open>
  The root registry of the WAN (\<open>registry.go\<close> from \<open>rootRegistry\<close> on): the walk over providers, the
  four message handlers, the periodic check that drops unreachable providers and saves the rest,
  and the loading of the saved file at start. What the network answers is a parameter: \<open>ping\<close> says
  whether \<open>pingService\<close> reaches an address, \<open>rhost\<close> is the host of the connection's peer and \<open>now\<close>
  the clock. A handler holds a lock for each access to the maps, and the handlers here run one
  after the other.
\<close>

type_synonym rootRegistry = service_table

section \<open>Walking the providers\<close>

text \<open>
  The callback \<open>fn\<close> keeps results in an accumulator and may change the entry it is given; \<open>None\<close> asks
  for its removal.
\<close>

fun walkProviderMap ::
  "(string \<Rightarrow> string \<Rightarrow> providerInfo \<Rightarrow> 'r \<Rightarrow> (providerInfo option \<times> 'r) outcome) \<Rightarrow> string \<Rightarrow>
   providers \<Rightarrow> 'r \<Rightarrow> (providers \<times> 'r) outcome" where
  "walkProviderMap fn service [] r = Ret ([], r)"
| "walkProviderMap fn service ((pID, pInfo) # ps) r =
     bind_outcome (fn service pID pInfo r) (\<lambda>(keep, r).
     bind_outcome (walkProviderMap fn service ps r) (\<lambda>(ps', r).
       Ret (case keep of None \<Rightarrow> ps' | Some pInfo' \<Rightarrow> (pID, pInfo') # ps', r)))"

fun walkMatching ::
  "(string \<Rightarrow> string \<Rightarrow> providerInfo \<Rightarrow> 'r \<Rightarrow> (providerInfo option \<times> 'r) outcome) \<Rightarrow> string \<Rightarrow>
   rootRegistry \<Rightarrow> 'r \<Rightarrow> (rootRegistry \<times> 'r) outcome" where
  "walkMatching fn name [] r = Ret ([], r)"
| "walkMatching fn name ((psName, pmap) # rest) r =
     bind_outcome (if WildcardMatch name psName then walkProviderMap fn psName pmap r else Ret (pmap, r))
       (\<lambda>(pmap', r).
     bind_outcome (walkMatching fn name rest r) (\<lambda>(rest', r). Ret ((psName, pmap') # rest', r)))"

definition walkProviders ::
  "(string \<Rightarrow> string \<Rightarrow> providerInfo \<Rightarrow> 'r \<Rightarrow> (providerInfo option \<times> 'r) outcome) \<Rightarrow> string \<Rightarrow>
   rootRegistry \<Rightarrow> 'r \<Rightarrow> (rootRegistry \<times> 'r) outcome" where
  "walkProviders fn name rr r =
     (if str_contains name ''*'' then walkMatching fn name rr r
      else case map_of rr name of
             None \<Rightarrow> Ret (rr, r)
           | Some pmap \<Rightarrow>
               bind_outcome (walkProviderMap fn name pmap r) (\<lambda>(pmap', r).
                 Ret (AList.update name pmap' rr, r)))"

section \<open>Message handlers\<close>

definition testReverseProxy_Handle :: "(string \<Rightarrow> bool) \<Rightarrow> string \<Rightarrow> string \<Rightarrow> reply" where
  "testReverseProxy_Handle ping rhost port =
     (let raddr = rhost @ '':'' @ port in if ping raddr then ReplyOK else ReplyErr)"

record regServiceInWAN =
  rw_publisher :: string
  rw_service :: string
  rw_providerID :: string
  rw_port :: string
  rw_proxied :: bool

definition regServiceInWAN_Handle ::
  "(string \<Rightarrow> bool) \<Rightarrow> int \<Rightarrow> string \<Rightarrow> regServiceInWAN \<Rightarrow> rootRegistry \<Rightarrow> rootRegistry \<times> reply" where
  "regServiceInWAN_Handle ping now rhost msg rr =
     (let raddr = rhost @ '':'' @ rw_port msg in
      if \<not> ping raddr then (rr, ReplyErr)
      else
        let name = toPublisherServiceName (rw_publisher msg) (rw_service msg);
            pinfo = \<lparr>timeStamp = now, addr = raddr, proxied = rw_proxied msg\<rparr>
        in (set_provider name (rw_providerID msg) pinfo rr, ReplyOK))"

definition delServiceInWAN_Handle ::
  "string \<Rightarrow> string \<Rightarrow> string \<Rightarrow> rootRegistry \<Rightarrow> rootRegistry \<times> reply" where
  "delServiceInWAN_Handle publisher service pid rr =
     (del_provider (toPublisherServiceName publisher service) pid rr, NoReply)"

definition makeServiceInfo :: "string \<Rightarrow> string \<Rightarrow> providerInfo \<Rightarrow> ServiceInfo outcome" where
  "makeServiceInfo publisherServiceName pID pInfo =
     (let a = (if proxied pInfo then addr pInfo @ ''P'' else addr pInfo) in
      if length publisherServiceName \<noteq> 0
      then bind_outcome (fromPublisherServiceName publisherServiceName) (\<lambda>(pName, sName).
             Ret (mkServiceInfo pName sName pID a))
      else Ret (mkServiceInfo [] [] pID a))"

definition collect_info ::
  "string \<Rightarrow> string \<Rightarrow> providerInfo \<Rightarrow> ServiceInfo list \<Rightarrow> (providerInfo option \<times> ServiceInfo list) outcome"
where
  "collect_info psName pID pInfo infos =
     bind_outcome (makeServiceInfo psName pID pInfo) (\<lambda>si. Ret (Some pInfo, infos @ [si]))"

definition queryServiceInWAN_Handle ::
  "string \<Rightarrow> string \<Rightarrow> rootRegistry \<Rightarrow> (rootRegistry \<times> reply) outcome" where
  "queryServiceInWAN_Handle publisher service rr =
     bind_outcome (walkProviders collect_info (toPublisherServiceName publisher service) rr [])
       (\<lambda>(rr, infos). Ret (rr, ReplyInfos infos))"

text \<open>The messages of the service and their dispatch.\<close>

datatype wan_msg =
  RegServiceInWAN regServiceInWAN
| DelServiceInWAN string string string
| QueryServiceInWAN string string
| TestReverseProxy string

fun wan_handle ::
  "(string \<Rightarrow> bool) \<Rightarrow> int \<Rightarrow> string \<Rightarrow> wan_msg \<Rightarrow> rootRegistry \<Rightarrow> (rootRegistry \<times> reply) outcome" where
  "wan_handle ping now rhost (RegServiceInWAN msg) rr = Ret (regServiceInWAN_Handle ping now rhost msg rr)"
| "wan_handle ping now rhost (DelServiceInWAN p s i) rr = Ret (delServiceInWAN_Handle p s i rr)"
| "wan_handle ping now rhost (QueryServiceInWAN p s) rr = queryServiceInWAN_Handle p s rr"
| "wan_handle ping now rhost (TestReverseProxy port) rr = Ret (rr, testReverseProxy_Handle ping rhost port)"

section \<open>Checking and saving\<close>

definition check_provider ::
  "(string \<Rightarrow> bool) \<Rightarrow> int \<Rightarrow> string \<Rightarrow> string \<Rightarrow> providerInfo \<Rightarrow> ServiceInfo list \<Rightarrow>
   (providerInfo option \<times> ServiceInfo list) outcome" where
  "check_provider ping t psName pID pInfo infos =
     (if \<not> ping (addr pInfo) \<and> t > timeStamp pInfo + 5 * minute then Ret (None, infos)
      else
        let pInfo' = (if ping (addr pInfo) then pInfo\<lparr>timeStamp := t\<rparr> else pInfo) in
        bind_outcome (makeServiceInfo psName pID pInfo') (\<lambda>si. Ret (Some pInfo', infos @ [si])))"

definition record_line :: "ServiceInfo \<Rightarrow> string" where
  "record_line si = print_line [Publisher si, Service si, ProviderID si, Addr si]"

text \<open>
  One round of \<open>registryCheckSaver\<close>: the registry and the record file it writes, \<open>None\<close> when the file
  could not be created and the old one stays.
\<close>

definition registryCheckSaver ::
  "(string \<Rightarrow> bool) \<Rightarrow> bool \<Rightarrow> int \<Rightarrow> rootRegistry \<Rightarrow> (rootRegistry \<times> string option) outcome" where
  "registryCheckSaver ping created t rr =
     bind_outcome (walkProviders (check_provider ping t) ''*'' rr []) (\<lambda>(rr, infos).
       if \<not> created then Ret (rr, None)
       else Ret (rr, Some (concat (map record_line infos))))"

definition load_line :: "int \<Rightarrow> rootRegistry \<Rightarrow> string list \<Rightarrow> rootRegistry" where
  "load_line now rr ws =
     (case ws of
        [publisher, service, pid, a] \<Rightarrow>
          set_provider (toPublisherServiceName publisher service) pid
            (if last a = CHR ''P'' then \<lparr>timeStamp = now, addr = butlast a, proxied = True\<rparr>
             else \<lparr>timeStamp = now, addr = a, proxied = False\<rparr>) rr
      | _ \<Rightarrow> rr)"

text \<open>The registry that \<open>startRootRegistry\<close> begins with, given the record file if it could be opened.\<close>

definition load_registry :: "int \<Rightarrow> string option \<Rightarrow> rootRegistry" where
  "load_registry now file =
     (case file of None \<Rightarrow> [] | Some s \<Rightarrow> foldl (load_line now) [] (scan_lines 4 s))"

section \<open>What a walk does\<close>

text \<open>A callback that does not panic on the entries of a service: what it keeps and what it collects.\<close>

definition acts_as ::
  "(string \<Rightarrow> string \<Rightarrow> providerInfo \<Rightarrow> 'a list \<Rightarrow> (providerInfo option \<times> 'a list) outcome) \<Rightarrow>
   (string \<Rightarrow> string \<Rightarrow> providerInfo \<Rightarrow> providerInfo option) \<Rightarrow>
   (string \<Rightarrow> string \<Rightarrow> providerInfo \<Rightarrow> 'a list) \<Rightarrow> string \<Rightarrow> bool" where
  "acts_as fn keep out n \<longleftrightarrow> (\<forall>pID i r. fn n pID i r = Ret (keep n pID i, r @ out n pID i))"

definition kept :: "(string \<Rightarrow> string \<Rightarrow> providerInfo \<Rightarrow> providerInfo option) \<Rightarrow> string \<Rightarrow> providers \<Rightarrow> providers" where
  "kept keep n ps = List.map_filter (\<lambda>(pID, i). map_option (Pair pID) (keep n pID i)) ps"

lemma walkProviderMap_Ret:
  "acts_as fn keep out n \<Longrightarrow>
   walkProviderMap fn n ps r = Ret (kept keep n ps, r @ concat (map (\<lambda>(pID, i). out n pID i) ps))"
  by (induction ps arbitrary: r)
     (auto simp: acts_as_def kept_def map_filter_simps split: option.splits)

lemma kept_keys: "fst ` set (kept keep n ps) \<subseteq> fst ` set ps"
  by (induction ps) (auto simp: kept_def map_filter_simps split: option.splits)

lemma kept_wf: "wf_map ps \<Longrightarrow> wf_map (kept keep n ps)"
proof (induction ps)
  case (Cons e ps)
  obtain pID i where e: "e = (pID, i)" by force
  with Cons kept_keys [of keep n ps] show ?case
    by (cases "keep n pID i") (auto simp: kept_def map_filter_simps wf_map_def)
qed (simp add: kept_def map_filter_simps)

lemma kept_lookup:
  "wf_map ps \<Longrightarrow> map_of (kept keep n ps) pID = Option.bind (map_of ps pID) (keep n pID)"
proof (induction ps)
  case (Cons e ps)
  obtain q i where e: "e = (q, i)" by force
  have "pID \<notin> fst ` set (kept keep n ps)" if "pID \<notin> fst ` set ps"
    using kept_keys [of keep n ps] that by blast
  moreover have "map_of ps q = None" using Cons.prems e by (simp add: wf_map_def map_of_eq_None_iff)
  ultimately show ?case using Cons e
    by (cases "keep n q i") (auto simp: kept_def map_filter_simps wf_map_def split: option.splits)
qed (simp add: kept_def map_filter_simps)

definition collected ::
  "(string \<Rightarrow> string \<Rightarrow> providerInfo \<Rightarrow> 'a list) \<Rightarrow> string \<Rightarrow> service_table \<Rightarrow> 'a list" where
  "collected out name rr =
     concat (map (\<lambda>((n, pID), i). out n pID i)
       (filter (\<lambda>((n, pID), i). WildcardMatch name n) (all_providers rr)))"

lemma all_providers_Cons:
  "all_providers ((n, ps) # rr) = map (\<lambda>(pID, i). ((n, pID), i)) ps @ all_providers rr"
  by (simp add: all_providers_def)

lemma collected_Cons:
  "collected out name ((n, ps) # rr) =
     (if WildcardMatch name n then concat (map (\<lambda>(pID, i). out n pID i) ps) else []) @ collected out name rr"
  by (induction ps) (auto simp: collected_def all_providers_Cons)

lemma walkMatching_Ret:
  "(\<And>n. n \<in> fst ` set rr \<Longrightarrow> WildcardMatch name n \<Longrightarrow> acts_as fn keep out n) \<Longrightarrow>
   walkMatching fn name rr r =
     Ret (map (\<lambda>(n, ps). (n, if WildcardMatch name n then kept keep n ps else ps)) rr,
          r @ collected out name rr)"
proof (induction rr arbitrary: r)
  case (Cons e rr)
  obtain n ps where e: "e = (n, ps)" by force
  have IH: "walkMatching fn name rr r' =
      Ret (map (\<lambda>(n, ps). (n, if WildcardMatch name n then kept keep n ps else ps)) rr,
           r' @ collected out name rr)" for r'
    using Cons.prems by (intro Cons.IH) auto
  have "acts_as fn keep out n" if "WildcardMatch name n" using Cons.prems e that by simp
  then show ?case by (auto simp: e IH collected_Cons walkProviderMap_Ret)
qed (simp add: collected_def all_providers_def)

lemma map_of_map_snd: "map_of (map (\<lambda>(n, ps). (n, f n ps)) rr) n = map_option (f n) (map_of rr n)"
  by (induction rr) auto

lemma collected_literal:
  assumes "wf_table rr" and "\<not> str_contains name ''*''"
  shows "collected out name rr =
    (case map_of rr name of None \<Rightarrow> [] | Some ps \<Rightarrow> concat (map (\<lambda>(pID, i). out name pID i) ps))"
  using assms
proof (induction rr)
  case Nil
  then show ?case by (simp add: collected_def all_providers_def)
next
  case (Cons e rr)
  obtain n ps where e: "e = (n, ps)" by force
  from Cons.prems e have w: "wf_table rr" "n \<notin> fst ` set rr" by (auto simp: wf_table_def wf_map_def)
  have "WildcardMatch name n \<longleftrightarrow> n = name"
    using WildcardMatch_literal [of name n] Cons.prems(2) by auto
  moreover have "map_of rr name = None" if "n = name"
    using w(2) that by (simp add: map_of_eq_None_iff)
  ultimately show ?case using Cons.IH [OF w(1) Cons.prems(2)] by (auto simp: e collected_Cons)
qed

lemma walkProviders_Ret:
  assumes wf: "wf_table rr"
    and acts: "\<And>n. n \<in> fst ` set rr \<Longrightarrow> WildcardMatch name n \<Longrightarrow> acts_as fn keep out n"
  shows "\<exists>rr'. walkProviders fn name rr r = Ret (rr', r @ collected out name rr) \<and> wf_table rr' \<and>
    fst ` set rr' = fst ` set rr \<and>
    (\<forall>n pID. provider_at rr' (n, pID) =
       (if WildcardMatch name n then Option.bind (provider_at rr (n, pID)) (keep n pID)
        else provider_at rr (n, pID)))"
proof (cases "str_contains name ''*''")
  case True
  let ?rr = "map (\<lambda>(n, ps). (n, if WildcardMatch name n then kept keep n ps else ps)) rr"
  have "wf_table ?rr"
  proof -
    have "map fst ?rr = map fst rr" by (induction rr) auto
    then have "wf_map ?rr" using wf by (simp only: wf_table_def wf_map_def)
    moreover have "\<forall>(n, ps)\<in>set ?rr. wf_map ps"
      using wf by (auto simp: wf_table_def intro!: kept_wf)
    ultimately show ?thesis by (simp add: wf_table_def)
  qed
  moreover have "provider_at ?rr (n, pID) = (if WildcardMatch name n
      then Option.bind (provider_at rr (n, pID)) (keep n pID) else provider_at rr (n, pID))" for n pID
    using wf_table_lookup [OF wf, of n]
    by (auto simp: provider_at_def map_of_map_snd kept_lookup split: option.splits)
  moreover have "fst ` set ?rr = fst ` set rr" by force
  ultimately show ?thesis
    using True walkMatching_Ret [of rr name fn keep out r] acts by (simp add: walkProviders_def)
next
  case False
  have lit: "WildcardMatch name n \<longleftrightarrow> n = name" for n
    using WildcardMatch_literal [of name n] False by auto
  show ?thesis
  proof (cases "map_of rr name")
    case None
    with False wf show ?thesis
      by (auto simp: walkProviders_def collected_literal lit provider_at_def)
  next
    case (Some ps)
    then have mem: "name \<in> fst ` set rr" by (force dest: map_of_SomeD)
    have wp: "wf_map ps" using wf_table_lookup [OF wf Some] .
    let ?rr = "AList.update name (kept keep name ps) rr"
    have "walkProviders fn name rr r = Ret (?rr, r @ collected out name rr)"
      using False Some mem acts lit walkProviderMap_Ret [of fn keep out name ps r] wf
      by (simp add: walkProviders_def collected_literal)
    moreover have "provider_at ?rr (n, pID) = (if WildcardMatch name n
      then Option.bind (provider_at rr (n, pID)) (keep n pID) else provider_at rr (n, pID))" for n pID
      using Some wp by (auto simp: provider_at_def lit kept_lookup)
    moreover have "wf_table ?rr" using wf wp by (auto intro!: wf_table_update kept_wf)
    moreover have "fst ` set ?rr = fst ` set rr" using mem by (auto simp: dom_update)
    ultimately show ?thesis by blast
  qed
qed

section \<open>The registry as a map\<close>

text \<open>A registry whose service names can be taken apart again.\<close>

definition psn_ok :: "string \<Rightarrow> bool" where
  "psn_ok n \<longleftrightarrow> (\<exists>p s. fromPublisherServiceName n = Ret (p, s))"

definition valid_registry :: "rootRegistry \<Rightarrow> bool" where
  "valid_registry rr \<longleftrightarrow> wf_table rr \<and> fst ` set rr \<subseteq> Collect psn_ok"

lemma valid_registry_psn: "valid_registry rr \<Longrightarrow> n \<in> fst ` set rr \<Longrightarrow> psn_ok n"
  by (auto simp: valid_registry_def)

fun info_of :: "string \<times> string \<Rightarrow> providerInfo \<Rightarrow> ServiceInfo" where
  "info_of (n, pID) i =
     (case fromPublisherServiceName n of
        Ret (p, s) \<Rightarrow> mkServiceInfo p s pID (if proxied i then addr i @ ''P'' else addr i)
      | Panic e \<Rightarrow> mkServiceInfo [] [] pID (addr i))"

declare info_of.simps [simp del]

lemma makeServiceInfo_Ret: "psn_ok n \<Longrightarrow> makeServiceInfo n pID i = Ret (info_of (n, pID) i)"
  by (auto simp: psn_ok_def makeServiceInfo_def info_of.simps Let_def fromPublisherServiceName_def
      split_on_absent split: if_splits)

lemma acts_as_collect: "psn_ok n \<Longrightarrow> acts_as collect_info (\<lambda>n pID i. Some i) (\<lambda>n pID i. [info_of (n, pID) i]) n"
  by (simp add: acts_as_def collect_info_def makeServiceInfo_Ret)

lemma psn_ok_name: "valid_name p \<Longrightarrow> valid_name s \<Longrightarrow> psn_ok (toPublisherServiceName p s)"
  by (auto simp: psn_ok_def from_toPublisherServiceName)

lemma info_of_inj:
  assumes "psn_ok (fst k)" and "psn_ok (fst k')" and "info_of k i = info_of k' i'"
  shows "k = k'"
proof -
  obtain n q n' q' where k: "k = (n, q)" "k' = (n', q')" by (cases k, cases k')
  obtain p s p' s' where f: "fromPublisherServiceName n = Ret (p, s)" "fromPublisherServiceName n' = Ret (p', s')"
    using assms(1,2) k by (auto simp: psn_ok_def)
  with assms(3) k have "p = p'" "s = s'" "q = q'" by (simp_all add: info_of.simps)
  with f show ?thesis by (simp add: k fromPublisherServiceName_Ret_iff)
qed

lemma collected_single:
  "collected (\<lambda>n pID i. [f (n, pID) i]) name rr =
     map (\<lambda>(k, i). f k i) (filter (\<lambda>(k, i). WildcardMatch name (fst k)) (all_providers rr))"
proof -
  have "concat (map (\<lambda>((n, pID), i). [f (n, pID) i]) (filter (\<lambda>((n, pID), i). WildcardMatch name n) es)) =
      map (\<lambda>(k, i). f k i) (filter (\<lambda>(k, i). WildcardMatch name (fst k)) es)" for es
    by (induction es) auto
  then show ?thesis by (simp add: collected_def)
qed

lemma distinct_map_inj:
  assumes "distinct (map fst es)"
    and "\<And>e e'. e \<in> set es \<Longrightarrow> e' \<in> set es \<Longrightarrow> f e = f e' \<Longrightarrow> fst e = fst e'"
  shows "distinct (map f es)"
proof -
  have "inj_on f (set es)"
  proof (rule inj_onI)
    fix e e' assume "e \<in> set es" "e' \<in> set es" "f e = f e'"
    with assms show "e = e'" unfolding distinct_map by (meson inj_onD)
  qed
  with assms(1) show ?thesis by (simp add: distinct_map)
qed

text \<open>What a query answers, given the providers the registry knows.\<close>

definition answers :: "string \<Rightarrow> (string \<times> string \<Rightarrow> providerInfo option) \<Rightarrow> ServiceInfo set" where
  "answers name M = {info_of k i | k i. M k = Some i \<and> glob name (fst k)}"

lemma answersI: "M k = Some i \<Longrightarrow> glob name (fst k) \<Longrightarrow> info_of k i \<in> answers name M"
  unfolding answers_def by blast

lemma query_answers:
  assumes "valid_registry rr"
  shows "\<exists>infos rr'. queryServiceInWAN_Handle p s rr = Ret (rr', ReplyInfos infos) \<and>
    set infos = answers (toPublisherServiceName p s) (provider_at rr) \<and> distinct infos \<and>
    valid_registry rr' \<and> provider_at rr' = provider_at rr"
proof -
  let ?name = "toPublisherServiceName p s"
  have wf: "wf_table rr" using assms by (simp add: valid_registry_def)
  let ?infos = "map (\<lambda>(k, i). info_of k i) (filter (\<lambda>(k, i). WildcardMatch ?name (fst k)) (all_providers rr))"
  have ok: "psn_ok (fst k)" if "(k, i) \<in> set (all_providers rr)" for k i
    using valid_registry_psn [OF assms, of "fst k"] that by (cases k) (force simp: all_providers_mem)
  obtain rr' where w: "walkProviders collect_info ?name rr [] = Ret (rr', ?infos)" "wf_table rr'"
      "fst ` set rr' = fst ` set rr" "\<And>n pID. provider_at rr' (n, pID) = provider_at rr (n, pID)"
  proof -
    have "acts_as collect_info (\<lambda>n pID i. Some i) (\<lambda>n pID i. [info_of (n, pID) i]) n"
      if "n \<in> fst ` set rr" for n
      using valid_registry_psn [OF assms that] by (rule acts_as_collect)
    then have "\<exists>rr'. walkProviders collect_info ?name rr [] = Ret (rr', ?infos) \<and> wf_table rr' \<and>
        fst ` set rr' = fst ` set rr \<and> (\<forall>n pID. provider_at rr' (n, pID) = provider_at rr (n, pID))"
      using walkProviders_Ret [OF wf, of ?name collect_info "\<lambda>n pID i. Some i" "\<lambda>n pID i. [info_of (n, pID) i]" "[]"]
      by (simp add: collected_single cong: if_cong)
    with that show ?thesis by blast
  qed
  have "set ?infos = answers ?name (provider_at rr)"
    using all_providers_lookup [OF wf] by (force simp: answers_def glob_WildcardMatch)
  moreover have "distinct ?infos"
  proof -
    have "distinct (map fst (filter (\<lambda>(k, i). WildcardMatch ?name (fst k)) (all_providers rr)))"
      using all_providers_distinct [OF wf] by (rule distinct_map_filter)
    then show ?thesis
    proof (rule distinct_map_inj)
      fix e e' assume "e \<in> set (filter (\<lambda>(k, i). WildcardMatch ?name (fst k)) (all_providers rr))"
        "e' \<in> set (filter (\<lambda>(k, i). WildcardMatch ?name (fst k)) (all_providers rr))"
        "(case e of (k, i) \<Rightarrow> info_of k i) = (case e' of (k, i) \<Rightarrow> info_of k i)"
      then show "fst e = fst e'"
        using ok info_of_inj [of "fst e" "fst e'" "snd e" "snd e'"]
        by (metis case_prod_unfold filter_is_subset prod.collapse subsetD)
    qed
  qed
  ultimately show ?thesis
    using w assms by (auto simp: queryServiceInWAN_Handle_def valid_registry_def fun_eq_iff)
qed

section \<open>Runs\<close>

text \<open>A message with the clock and the peer's host at its arrival; names follow the convention.\<close>

type_synonym wan_event = "int \<times> string \<times> wan_msg"

fun wan_ok :: "wan_event \<Rightarrow> bool" where
  "wan_ok (now, rhost, RegServiceInWAN msg) = (valid_name (rw_publisher msg) \<and> valid_name (rw_service msg))"
| "wan_ok (now, rhost, msg) = True"

fun wan_step :: "(string \<Rightarrow> bool) \<Rightarrow> rootRegistry \<Rightarrow> wan_event \<Rightarrow> rootRegistry" where
  "wan_step ping rr (now, rhost, msg) =
     (case wan_handle ping now rhost msg rr of Ret (rr', r) \<Rightarrow> rr' | Panic e \<Rightarrow> rr)"

text \<open>The abstract registry: a partial map from services and providers to what was registered last.\<close>

fun wan_spec ::
  "(string \<Rightarrow> bool) \<Rightarrow> (string \<times> string \<Rightarrow> providerInfo option) \<Rightarrow> wan_event \<Rightarrow>
   (string \<times> string \<Rightarrow> providerInfo option)" where
  "wan_spec ping M (now, rhost, RegServiceInWAN msg) =
     (if ping (rhost @ '':'' @ rw_port msg)
      then M((toPublisherServiceName (rw_publisher msg) (rw_service msg), rw_providerID msg) \<mapsto>
             \<lparr>timeStamp = now, addr = rhost @ '':'' @ rw_port msg, proxied = rw_proxied msg\<rparr>)
      else M)"
| "wan_spec ping M (now, rhost, DelServiceInWAN p s pid) = M((toPublisherServiceName p s, pid) := None)"
| "wan_spec ping M (now, rhost, msg) = M"

lemma valid_registry_set:
  "valid_registry rr \<Longrightarrow> psn_ok n \<Longrightarrow> valid_registry (set_provider n pid i rr)"
  by (auto simp: valid_registry_def wf_set_provider) (auto simp: set_provider_def gomap.entries_update wf_table_def)

lemma valid_registry_del: "valid_registry rr \<Longrightarrow> valid_registry (del_provider n pid rr)"
  using map_of_SomeD [of rr n]
  by (auto simp: valid_registry_def wf_del_provider)
     (force simp: del_provider_def gomap.entries_update wf_table_def split: option.splits)

interpretation root: simulation "wan_step ping" wan_ok valid_registry provider_at "wan_spec ping"
proof unfold_locales
  fix rr :: rootRegistry and e :: wan_event
  assume v: "valid_registry rr" and ok: "wan_ok e"
  obtain now rhost msg where e: "e = (now, rhost, msg)" using prod_cases3 by blast
  show "valid_registry (wan_step ping rr e)"
  proof (cases msg)
    case (QueryServiceInWAN p s)
    with query_answers [OF v, of p s] e show ?thesis by auto
  qed (use v ok e in \<open>auto simp: regServiceInWAN_Handle_def delServiceInWAN_Handle_def Let_def
         intro: valid_registry_set valid_registry_del psn_ok_name\<close>)
  show "provider_at (wan_step ping rr e) = wan_spec ping (provider_at rr) e"
  proof (cases msg)
    case (QueryServiceInWAN p s)
    with query_answers [OF v, of p s] e show ?thesis by auto
  qed (use e in \<open>auto simp: regServiceInWAN_Handle_def delServiceInWAN_Handle_def Let_def fun_eq_iff
         prov.lookup_update [of "(a, b)" for a b, simplified] prov.lookup_delete [of "(a, b)" for a b, simplified]\<close>)
qed

lemma valid_registry_Nil [simp]: "valid_registry []"
  by (simp add: valid_registry_def wf_table_def)

lemma provider_at_Nil [simp]: "provider_at [] = Map.empty"
  by (simp add: provider_at_def fun_eq_iff)

section \<open>Checking and loading\<close>

definition check_keep :: "(string \<Rightarrow> bool) \<Rightarrow> int \<Rightarrow> string \<Rightarrow> string \<Rightarrow> providerInfo \<Rightarrow> providerInfo option" where
  "check_keep ping t n pID i =
     (if ping (addr i) then Some (i\<lparr>timeStamp := t\<rparr>)
      else if t > timeStamp i + 5 * minute then None else Some i)"

lemma acts_as_check:
  "psn_ok n \<Longrightarrow> acts_as (check_provider ping t) (check_keep ping t)
     (\<lambda>n pID i. case check_keep ping t n pID i of None \<Rightarrow> [] | Some i' \<Rightarrow> [info_of (n, pID) i']) n"
  by (auto simp: acts_as_def check_provider_def check_keep_def makeServiceInfo_Ret Let_def)

lemma WildcardMatch_star [simp]: "WildcardMatch ''*'' n"
  by (simp add: WildcardMatch_def)

lemma check_keep_cases:
  assumes "valid_registry rr"
  shows "\<exists>rr'. registryCheckSaver ping True t rr = Ret (rr', Some (concat (map record_line
      (collected (\<lambda>n pID i. case check_keep ping t n pID i of None \<Rightarrow> [] | Some i' \<Rightarrow> [info_of (n, pID) i'])
        ''*'' rr)))) \<and> registryCheckSaver ping False t rr = Ret (rr', None) \<and> valid_registry rr' \<and>
    (\<forall>n pID. provider_at rr' (n, pID) = Option.bind (provider_at rr (n, pID)) (check_keep ping t n pID))"
proof -
  have "acts_as (check_provider ping t) (check_keep ping t)
     (\<lambda>n pID i. case check_keep ping t n pID i of None \<Rightarrow> [] | Some i' \<Rightarrow> [info_of (n, pID) i']) n"
    if "n \<in> fst ` set rr" for n
    using valid_registry_psn [OF assms that] by (rule acts_as_check)
  with walkProviders_Ret [of rr "''*''" "check_provider ping t" "check_keep ping t"
      "\<lambda>n pID i. case check_keep ping t n pID i of None \<Rightarrow> [] | Some i' \<Rightarrow> [info_of (n, pID) i']" "[]"] assms
  show ?thesis by (force simp: valid_registry_def registryCheckSaver_def)
qed

text \<open>A row of the record file and the entry it stands for.\<close>

definition row_of :: "ServiceInfo \<Rightarrow> string list" where
  "row_of si = [Publisher si, Service si, ProviderID si, Addr si]"

definition storable :: "string \<times> string \<Rightarrow> providerInfo \<Rightarrow> bool" where
  "storable k i \<longleftrightarrow> (\<exists>p s. fromPublisherServiceName (fst k) = Ret (p, s) \<and> word p \<and> word s) \<and>
     word (snd k) \<and> word (addr i) \<and> last (addr i) \<noteq> CHR ''P''"

lemma word_append_P: "word a \<Longrightarrow> word (a @ ''P'')"
  by (auto simp: word_def is_space_def)

lemma row_words: "storable k i \<Longrightarrow> \<forall>w\<in>set (row_of (info_of k i)). word w"
  by (cases k) (auto simp: storable_def row_of_def info_of.simps word_append_P)

lemma load_row:
  "storable k i \<Longrightarrow> load_line now rr (row_of (info_of k i)) = set_provider (fst k) (snd k) (i\<lparr>timeStamp := now\<rparr>) rr"
proof -
  assume st: "storable k i"
  obtain n q where k: "k = (n, q)" by (cases k)
  with st obtain p s where f: "fromPublisherServiceName n = Ret (p, s)" by (auto simp: storable_def)
  then have "n = toPublisherServiceName p s" by (simp add: fromPublisherServiceName_Ret_iff)
  with f st k show ?thesis
    by (cases i) (auto simp: storable_def row_of_def info_of.simps load_line_def word_def)
qed

lemma load_rows:
  assumes "\<And>k i. (k, i) \<in> set es \<Longrightarrow> storable k i" and "distinct (map fst es)"
  shows "provider_at (foldl (load_line now) rr (map (\<lambda>(k, i). row_of (info_of k i)) es)) k =
    (case map_of es k of None \<Rightarrow> provider_at rr k | Some i \<Rightarrow> Some (i\<lparr>timeStamp := now\<rparr>))"
  using assms
proof (induction es arbitrary: rr)
  case (Cons e es)
  obtain k' i where e: "e = (k', i)" by (cases e)
  have "map_of es k' = None" using Cons.prems e by (auto simp: map_of_eq_None_iff)
  moreover have "storable k' i" using Cons.prems e by simp
  ultimately show ?case
    using Cons e prov.lookup_update [of k' "i\<lparr>timeStamp := now\<rparr>" rr k]
    by (auto simp: load_row split_beta split: option.splits)
qed simp

text \<open>The entries that survive a check.\<close>

definition checked :: "(string \<Rightarrow> bool) \<Rightarrow> int \<Rightarrow> rootRegistry \<Rightarrow> ((string \<times> string) \<times> providerInfo) list" where
  "checked ping t rr =
     List.map_filter (\<lambda>(k, i). map_option (Pair k) (check_keep ping t (fst k) (snd k) i)) (all_providers rr)"

lemma collected_checked:
  "collected (\<lambda>n pID i. case check_keep ping t n pID i of None \<Rightarrow> [] | Some i' \<Rightarrow> [info_of (n, pID) i']) ''*'' rr =
     map (\<lambda>(k, i). info_of k i) (checked ping t rr)"
proof -
  have "concat (map (\<lambda>((n, pID), i). case check_keep ping t n pID i of None \<Rightarrow> [] | Some i' \<Rightarrow> [info_of (n, pID) i'])
      (filter (\<lambda>((n, pID), i). WildcardMatch ''*'' n) es)) =
    map (\<lambda>(k, i). info_of k i)
      (List.map_filter (\<lambda>(k, i). map_option (Pair k) (check_keep ping t (fst k) (snd k) i)) es)" for es
    by (induction es) (auto simp: map_filter_simps split: option.splits)
  then show ?thesis by (simp add: collected_def checked_def)
qed

lemma checked_keys:
  "fst ` set (List.map_filter (\<lambda>(k, i). map_option (Pair k) (f k i)) es) \<subseteq> fst ` set es"
  by (induction es) (auto simp: map_filter_simps split: option.splits)

lemma checked_assoc:
  "distinct (map fst es) \<Longrightarrow>
   distinct (map fst (List.map_filter (\<lambda>(k, i). map_option (Pair k) (f k i)) es)) \<and>
   map_of (List.map_filter (\<lambda>(k, i). map_option (Pair k) (f k i)) es) k = Option.bind (map_of es k) (f k)"
proof (induction es)
  case (Cons e es)
  obtain k' i where e: "e = (k', i)" by force
  have n: "map_of es k' = None" using Cons.prems e by (auto simp: map_of_eq_None_iff)
  have "k' \<notin> fst ` set (List.map_filter (\<lambda>(k, i). map_option (Pair k) (f k i)) es)"
    using Cons.prems e checked_keys [of f es] by auto
  with n Cons e show ?case
    by (cases "f k' i") (auto simp: map_filter_simps)
qed (simp add: map_filter_simps)

lemma map_of_all_providers: "wf_table rr \<Longrightarrow> map_of (all_providers rr) k = provider_at rr k"
proof -
  assume w: "wf_table rr"
  have "map_of (all_providers rr) k = Some i \<longleftrightarrow> provider_at rr k = Some i" for i
    using all_providers_lookup [OF w] all_providers_distinct [OF w] by simp
  then show ?thesis by (metis not_None_eq)
qed

section \<open>Properties\<close>

text \<open>
  C4 (root registry): the handlers implement a map from pairs of service name and provider id.
  After any sequence of register, delete, query and probe messages whose names follow the
  convention, starting from the empty registry, a query does not panic and answers exactly one
  entry for every provider that was reachable when it registered last and was not deleted since,
  and whose service matches the asked name, wildcards included; a proxied provider's address is
  marked with P.
\<close>

theorem root_registry_refines_map:
  assumes "list_all wan_ok es"
  shows "\<exists>infos rr'. queryServiceInWAN_Handle p s (foldl (wan_step ping) [] es) = Ret (rr', ReplyInfos infos) \<and>
    set infos = answers (toPublisherServiceName p s) (foldl (wan_spec ping) Map.empty es) \<and> distinct infos"
proof -
  have "valid_registry (foldl (wan_step ping) [] es)" using assms by (intro root.run_inv) auto
  moreover have "provider_at (foldl (wan_step ping) [] es) = foldl (wan_spec ping) Map.empty es"
    using root.run_abs [of "[]" es ping] assms by simp
  ultimately show ?thesis using query_answers [of "foldl (wan_step ping) [] es" p s] by auto
qed

definition demo_reg :: "string \<Rightarrow> string \<Rightarrow> string \<Rightarrow> wan_event" where
  "demo_reg p s pid =
     (0, ''10.0.0.1'', RegServiceInWAN \<lparr>rw_publisher = p, rw_service = s, rw_providerID = pid,
        rw_port = ''80'', rw_proxied = True\<rparr>)"

theorem root_registry_refines_map_witness:
  "\<exists>infos rr'. queryServiceInWAN_Handle ''pub'' ''*''
      (foldl (wan_step (\<lambda>a. True)) [] [demo_reg ''pub'' ''echo'' ''id1'', demo_reg ''pub'' ''echo'' ''id2'',
         (0, [], DelServiceInWAN ''pub'' ''echo'' ''id1'')]) = Ret (rr', ReplyInfos infos) \<and>
    mkServiceInfo ''pub'' ''echo'' ''id2'' ''10.0.0.1:80P'' \<in> set infos"
proof -
  let ?es = "[demo_reg ''pub'' ''echo'' ''id1'', demo_reg ''pub'' ''echo'' ''id2'',
         (0, [], DelServiceInWAN ''pub'' ''echo'' ''id1'')]"
  let ?M = "foldl (wan_spec (\<lambda>a. True)) Map.empty ?es"
  let ?i = "\<lparr>timeStamp = 0, addr = ''10.0.0.1:80'', proxied = True\<rparr>"
  have ok: "list_all wan_ok ?es" by (simp add: demo_reg_def checkNameConvention_def)
  have "?M (''pub_echo'', ''id2'') = Some ?i"
    by (simp add: demo_reg_def toPublisherServiceName_def)
  moreover have "info_of (''pub_echo'', ''id2'') ?i = mkServiceInfo ''pub'' ''echo'' ''id2'' ''10.0.0.1:80P''"
    by (simp add: info_of.simps fromPublisherServiceName_def)
  moreover have "glob (toPublisherServiceName ''pub'' ''*'') ''pub_echo''"
    by (simp add: toPublisherServiceName_def)
  ultimately have "mkServiceInfo ''pub'' ''echo'' ''id2'' ''10.0.0.1:80P'' \<in>
      answers (toPublisherServiceName ''pub'' ''*'') ?M"
    using answersI [of ?M "(''pub_echo'', ''id2'')" ?i] by (simp only: fst_conv)
  with root_registry_refines_map [OF ok, of "''pub''" "''*''" "\<lambda>a. True"] show ?thesis by blast
qed

text \<open>
  C28 (\<open>registryCheckSaver\<close>): a check round drops exactly the providers that do not answer the ping and
  whose last sign of life is more than five minutes old, refreshes the time stamp of those that
  answer, leaves the others, and never panics on a registry with well-formed names.
\<close>

theorem check_drops_stale_only:
  assumes "valid_registry rr"
  shows "\<exists>rr' rec. registryCheckSaver ping created t rr = Ret (rr', rec) \<and> valid_registry rr' \<and>
    (\<forall>k. provider_at rr' k =
      (case provider_at rr k of
         None \<Rightarrow> None
       | Some i \<Rightarrow> if ping (addr i) then Some (i\<lparr>timeStamp := t\<rparr>)
                  else if t > timeStamp i + 5 * minute then None else Some i))"
proof -
  obtain rr' rec where r: "registryCheckSaver ping created t rr = Ret (rr', rec)" "valid_registry rr'"
    and p: "\<And>n pID. provider_at rr' (n, pID) = Option.bind (provider_at rr (n, pID)) (check_keep ping t n pID)"
    using check_keep_cases [OF assms, of ping t] by (cases created) auto
  have "provider_at rr' k = (case provider_at rr k of None \<Rightarrow> None
       | Some i \<Rightarrow> if ping (addr i) then Some (i\<lparr>timeStamp := t\<rparr>)
                  else if t > timeStamp i + 5 * minute then None else Some i)" for k
    using p [of "fst k" "snd k"] by (auto simp: check_keep_def split: option.splits)
  with r show ?thesis by blast
qed

lemma demo_valid: "valid_registry [(''pub_echo'', [(''id1'', i), (''id2'', j)])]"
  by (simp add: valid_registry_def wf_table_def wf_map_def psn_ok_def fromPublisherServiceName_def)

theorem check_drops_stale_only_witness:
  "\<exists>rr' rec. registryCheckSaver (\<lambda>a. False) True (6 * minute)
      [(''pub_echo'', [(''id1'', \<lparr>timeStamp = 0, addr = ''h:1'', proxied = False\<rparr>),
                       (''id2'', \<lparr>timeStamp = 2 * minute, addr = ''h:2'', proxied = False\<rparr>)])] = Ret (rr', rec) \<and>
     provider_at rr' (''pub_echo'', ''id1'') = None \<and> provider_at rr' (''pub_echo'', ''id2'') \<noteq> None"
proof -
  let ?rr = "[(''pub_echo'', [(''id1'', \<lparr>timeStamp = 0, addr = ''h:1'', proxied = False\<rparr>),
                       (''id2'', \<lparr>timeStamp = 2 * minute, addr = ''h:2'', proxied = False\<rparr>)])] :: rootRegistry"
  have "provider_at ?rr (''pub_echo'', ''id1'') = Some \<lparr>timeStamp = 0, addr = ''h:1'', proxied = False\<rparr>"
    "provider_at ?rr (''pub_echo'', ''id2'') = Some \<lparr>timeStamp = 2 * minute, addr = ''h:2'', proxied = False\<rparr>"
    by (simp_all add: provider_at_def)
  with check_drops_stale_only [OF demo_valid, of "\<lambda>a. False" True "6 * minute"
      "\<lparr>timeStamp = 0, addr = ''h:1'', proxied = False\<rparr>"
      "\<lparr>timeStamp = 2 * minute, addr = ''h:2'', proxied = False\<rparr>"] show ?thesis by fastforce
qed

text \<open>
  C27 (\<open>registryCheckSaver\<close>, \<open>startRootRegistry\<close>): saving and restarting keeps the registry. When the names,
  ids and addresses are non-empty and without white space and no address ends in P, the registry
  loaded from the file that a check round wrote has exactly the providers that the round kept,
  with their addresses and proxy marks, stamped with the time of the start.
\<close>

theorem registry_survives_restart:
  assumes "valid_registry rr" and "\<And>k i. provider_at rr k = Some i \<Longrightarrow> storable k i"
    and "registryCheckSaver ping True t rr = Ret (rr', Some rec)"
  shows "provider_at (load_registry now (Some rec)) k = map_option (\<lambda>i. i\<lparr>timeStamp := now\<rparr>) (provider_at rr' k)"
proof -
  have wf: "wf_table rr" using assms(1) by (simp add: valid_registry_def)
  let ?es = "checked ping t rr"
  have rec: "rec = concat (map record_line (map (\<lambda>(k, i). info_of k i) ?es))"
    and at: "provider_at rr' (n, pID) = Option.bind (provider_at rr (n, pID)) (check_keep ping t n pID)" for n pID
    using check_keep_cases [OF assms(1), of ping t] assms(3) by (auto simp: collected_checked)
  have d: "distinct (map fst ?es)" and m: "map_of ?es k = Option.bind (provider_at rr k) (check_keep ping t (fst k) (snd k))" for k
    using checked_assoc [OF all_providers_distinct [OF wf], of "\<lambda>k. check_keep ping t (fst k) (snd k)"]
    by (simp_all add: checked_def map_of_all_providers [OF wf])
  have st: "storable k i" if "(k, i) \<in> set ?es" for k i
  proof -
    from that d have "map_of ?es k = Some i" by simp
    then obtain j where "provider_at rr k = Some j" "check_keep ping t (fst k) (snd k) j = Some i"
      by (auto simp: m bind_eq_Some_conv)
    with assms(2) [of k j] show ?thesis by (auto simp: storable_def check_keep_def split: if_splits)
  qed
  have "rec = concat (map print_line (map (\<lambda>(k, i). row_of (info_of k i)) ?es))"
    unfolding rec by (auto simp: record_line_def row_of_def intro!: arg_cong [where f = concat])
  moreover have "scan_lines 4 (concat (map print_line (map (\<lambda>(k, i). row_of (info_of k i)) ?es))) =
      map (\<lambda>(k, i). row_of (info_of k i)) ?es"
  proof -
    have "length ws = Suc 3 \<and> (\<forall>w\<in>set ws. word w)"
      if "ws \<in> set (map (\<lambda>(k, i). row_of (info_of k i)) ?es)" for ws
      using that st row_words by (auto simp: row_of_def)
    from scan_lines_print [of "map (\<lambda>(k, i). row_of (info_of k i)) ?es" 3, OF this] show ?thesis by simp
  qed
  ultimately have "load_registry now (Some rec) = foldl (load_line now) [] (map (\<lambda>(k, i). row_of (info_of k i)) ?es)"
    by (simp add: load_registry_def)
  then show ?thesis
    using load_rows [OF st d, of now "[]" k] m [of k] at [of "fst k" "snd k"]
    by (auto split: option.splits)
qed

theorem registry_survives_restart_witness:
  "\<exists>rr' rec. registryCheckSaver (\<lambda>a. True) True 7
      [(''pub_echo'', [(''id1'', \<lparr>timeStamp = 0, addr = ''h:1'', proxied = False\<rparr>),
                       (''id2'', \<lparr>timeStamp = 0, addr = ''h:2'', proxied = True\<rparr>)])] = Ret (rr', Some rec) \<and>
     provider_at (load_registry 9 (Some rec)) (''pub_echo'', ''id2'') =
       Some \<lparr>timeStamp = 9, addr = ''h:2'', proxied = True\<rparr>"
proof -
  let ?i = "\<lparr>timeStamp = 0, addr = ''h:1'', proxied = False\<rparr>"
  let ?j = "\<lparr>timeStamp = 0, addr = ''h:2'', proxied = True\<rparr>"
  let ?rr = "[(''pub_echo'', [(''id1'', ?i), (''id2'', ?j)])] :: rootRegistry"
  obtain rr' rec where r: "registryCheckSaver (\<lambda>a. True) True 7 ?rr = Ret (rr', Some rec)"
    using check_keep_cases [OF demo_valid [of ?i ?j], of "\<lambda>a. True" 7] by blast
  have st: "storable k i" if "provider_at ?rr k = Some i" for k i
    using that by (cases k) (auto simp: provider_at_def storable_def word_def is_space_def
        fromPublisherServiceName_def split: if_splits)
  have "provider_at rr' (''pub_echo'', ''id2'') = Some (?j\<lparr>timeStamp := 7\<rparr>)"
    using check_keep_cases [OF demo_valid [of ?i ?j], of "\<lambda>a. True" 7] r
    by (auto simp: provider_at_def check_keep_def)
  with registry_survives_restart [OF demo_valid st r, of 9 "(''pub_echo'', ''id2'')"] r show ?thesis by auto
qed

text \<open>
  A deviation. The handler does not check the names it is sent. A
  registration whose publisher name holds an underscore is acknowledged, and from then on every
  wildcard query and every check round panics in \<open>fromPublisherServiceName\<close>.
\<close>

theorem bad_name_poisons_registry:
  "\<exists>rr. wan_handle (\<lambda>a. True) 0 ''h'' (RegServiceInWAN \<lparr>rw_publisher = ''a_b'', rw_service = ''c'',
       rw_providerID = ''id'', rw_port = ''1'', rw_proxied = False\<rparr>) [] = Ret (rr, ReplyOK) \<and>
     wan_handle (\<lambda>a. True) 1 ''h'' (QueryServiceInWAN ''*'' ''*'') rr = Panic ''Bad PublisherServiceName'' \<and>
     registryCheckSaver (\<lambda>a. True) True 1 rr = Panic ''Bad PublisherServiceName''"
  by (simp add: regServiceInWAN_Handle_def queryServiceInWAN_Handle_def registryCheckSaver_def
      walkProviders_def collect_info_def check_provider_def makeServiceInfo_def set_provider_def
      toPublisherServiceName_def fromPublisherServiceName_def WildcardMatch_def Let_def)

end
