(* ===== verification/Discovery.thy ===== *)
theory Discovery
  imports Server RootRegistry
begin

text \<open>
  From publishing to discovering: what \<open>publish\<close> leaves in the process, in the operating system and at the root registry is
  what \<open>Discover\<close> of a client in the same process, in another process of the host and on another host finds.
\<close>

section \<open>Through the operating system\<close>

text \<open>
  What the proc file shows of the listening sockets: those with an anonymous address are listed, and only servers of this
  framework listen on addresses with its prefix.
\<close>

definition proc_shows :: "string \<Rightarrow> string list \<Rightarrow> bool" where
  "proc_shows b unix \<longleftrightarrow>
     (let listed = socket_addrs (drop 1 (terminated_lines b)) in
      (\<forall>a\<in>set unix. str_contains a udsRegistryAnon \<longrightarrow> a \<in> set listed) \<and>
      (\<forall>a\<in>set listed. \<exists>p s i. a = toUDSAddr p s False i))"

lemma anon_addr_of_name: "toUDSAddr p s False i = udsRegistryAnon @ toPublisherServiceName p s @ ''.sock''"
  by (simp add: toUDSAddr_def)

lemma lookup_anon_single:
  assumes "proc_shows b unix" and "toUDSAddr p s False i \<in> set unix" and "CHR ''*'' \<notin> set (p @ s)"
  shows "lookupServiceUDSAnon (Some b) p s = [toUDSAddr p s False i]"
proof -
  let ?n = "toPublisherServiceName p s" and ?a = "toUDSAddr p s False i" and ?ls = "drop 1 (terminated_lines b)"
  let ?r = "scan_unix ?n [] ?ls"
  have lit: "WildcardMatch ?n m \<longleftrightarrow> ?n = m" for m
    using assms(3) by (intro WildcardMatch_literal) (auto simp: toPublisherServiceName_def)
  have "str_contains ?a udsRegistryAnon" by (auto simp: anon_addr_of_name str_contains_iff)
  then have a: "?a \<in> set (socket_addrs ?ls)" using assms(1,2) by (auto simp: proc_shows_def Let_def)
  have "anon_name ` set ?r = {?n}"
    using a anon_name_toUDSAddr [of p s i] by (auto simp: scan_unix_names lit) force
  then have ns: "set (map anon_name ?r) = {?n}" by simp
  then have "length ?r = 1" using distinct_card [OF scan_unix_distinct [of ?n "[]" ?ls]] by simp
  then obtain x where r: "?r = [x]" by (auto simp: length_Suc_conv)
  then have "x \<in> set (socket_addrs ?ls)" using scan_unix_subset [of ?n "[]" ?ls] by auto
  then obtain q t j where x: "x = toUDSAddr q t False j" using assms(1) by (auto simp: proc_shows_def Let_def)
  moreover have "anon_name x = ?n" using ns r by simp
  ultimately have "x = ?a" by (simp add: anon_name_toUDSAddr) (simp add: anon_addr_of_name)
  with r show ?thesis by (simp add: lookupServiceUDSAnon_def)
qed

text \<open>A client outside the process that has the service, searching the host.\<close>

lemma discover_on_host:
  assumes names: "valid_name p" "valid_name s" "CHR ''*'' \<notin> set (p @ s)" and sc: "in_scope (scope c) ScopeOS"
    and absent: "map_of (w_table w) (toPublisherServiceName p s) = None"
    and proc: "w_proc w = Some b" "proc_shows b unix" "toUDSAddr p s False i \<in> set unix" and dial: "w_dial w (toUDSAddr p s False i)"
  shows "\<exists>d. Discover fdiv fneg selfID p s [] (w # ws) c = Ret (Some d) \<and> connections d = [StreamConn (toUDSAddr p s False i)]"
proof -
  let ?d = "\<lparr>d_client = c, serviceList = [], connections = []\<rparr>" and ?a = "toUDSAddr p s False i"
  have star: "\<not> str_contains (toPublisherServiceName p s) ''*''" and e: "discover_expect p s [] = 1"
    using names(3) by (auto simp: toPublisherServiceName_def discover_expect_def)
  have "lookupServiceChan () p s (w_table w) = []"
    using star absent by (simp add: lookupServiceChan_def serviceNamesInProcess_def map_filter_simps Let_def)
  then have "find_process w True p s 1 ?d = Ret (False, 0, ?d)" by (simp add: find_process_def)
  moreover obtain d where "find_anon w True p s 1 0 ?d = Ret (True, 1, d)" and c: "connections d = [StreamConn ?a]"
    using lookup_anon_single [OF proc(2,3) names(3)] from_toUDSAddr [OF names(1,2), of False i] proc(1) dial
    by (simp add: find_anon_def try_anon_def try_dial_def addToserviceList_def add_conn_def Let_def)
  ultimately have "findWithinOS w True p s [] 1 ?d = Ret (1, d)" using sc by (simp add: findWithinOS_def)
  then have "Discover fdiv fneg selfID p s [] (w # ws) c = Ret (Some d)"
    by (simp add: Discover_def search_self_def e)
  with c show ?thesis by blast
qed

section \<open>Through the root registry\<close>

text \<open>The message of \<open>regServiceWAN\<close>.\<close>

definition regServiceWAN_msg :: "service \<Rightarrow> string \<Rightarrow> Server \<Rightarrow> regServiceInWAN" where
  "regServiceWAN_msg svc port s =
     \<lparr>rw_publisher = publisherName svc, rw_service = serviceName svc, rw_providerID = svc_providerID svc, rw_port = port,
      rw_proxied = (svc_providerID svc \<noteq> providerID s)\<rparr>"

text \<open>\<open>queryServiceWAN\<close>; \<open>None\<close> when the root registry cannot be connected.\<close>

definition queryServiceWAN :: "rootRegistry option \<Rightarrow> string \<Rightarrow> string \<Rightarrow> ServiceInfo list" where
  "queryServiceWAN registry p s =
     (case registry of
        None \<Rightarrow> []
      | Some rr \<Rightarrow>
          (case queryServiceInWAN_Handle p s rr of
             Ret (rr', ReplyInfos serviceInfos) \<Rightarrow> serviceInfos
           | _ \<Rightarrow> []))"

text \<open>Whether a message registers or deletes the provider.\<close>

fun concerns :: "string \<times> string \<Rightarrow> wan_event \<Rightarrow> bool" where
  "concerns k (now, rhost, RegServiceInWAN m) = (k = (toPublisherServiceName (rw_publisher m) (rw_service m), rw_providerID m))"
| "concerns k (now, rhost, DelServiceInWAN p s i) = (k = (toPublisherServiceName p s, i))"
| "concerns k (now, rhost, m) = False"

lemma unconcerned_step: "\<not> concerns k e \<Longrightarrow> wan_spec ping M e k = M k"
  by (cases "(k, e)" rule: concerns.cases) auto

lemma unconcerned_run: "list_all (\<lambda>e. \<not> concerns k e) es \<Longrightarrow> foldl (wan_spec ping) M es k = M k"
  by (induction es arbitrary: M) (simp_all add: unconcerned_step)

text \<open>What the client gets for a provider of a valid registry when it asks with the names and the id.\<close>

lemma lookup_wan_single:
  assumes "valid_registry rr" and "provider_at rr (toPublisherServiceName p s, pid) = Some i"
    and "CHR ''*'' \<notin> set (p @ s)" and "CHR ''*'' \<notin> set pid"
  shows "lookupServiceWAN (queryServiceWAN (Some rr) p s) [pid] = [info_of (toPublisherServiceName p s, pid) i]"
proof -
  let ?n = "toPublisherServiceName p s"
  obtain rr' infos where q: "queryServiceInWAN_Handle p s rr = Ret (rr', ReplyInfos infos)"
    and infos: "set infos = answers ?n (provider_at rr)" "distinct infos"
    using query_answers [OF assms(1), of p s] by blast
  have lit: "glob ?n m \<longleftrightarrow> ?n = m" for m
    using assms(3) by (subst glob_WildcardMatch [symmetric], intro WildcardMatch_literal) (auto simp: toPublisherServiceName_def)
  have pm: "matchProvider [pid] x \<longleftrightarrow> pid = x" for x
    using WildcardMatch_literal [OF assms(4)] by (simp add: matchProvider_def)
  have id: "ProviderID (info_of (m, q) j) = q" for m q j
    by (auto simp: info_of.simps split: outcome.splits)
  let ?l = "lookupServiceWAN infos [pid]"
  have "set ?l = {info_of (?n, pid) i}"
    using assms(2) infos(1) by (auto simp: lookupServiceWAN_def pm answers_def lit id)
  moreover have "distinct ?l" using infos(2) by (simp add: lookupServiceWAN_def)
  ultimately have "?l = [info_of (?n, pid) i]"
    using distinct_card [of ?l] by (auto simp: length_Suc_conv dest!: sym [of _ "length _"])
  then show ?thesis using q by (simp add: queryServiceWAN_def)
qed

lemma scope_wan [simp]:
  "\<not> in_scope ScopeWAN ScopeProcess" "\<not> in_scope ScopeWAN ScopeOS" "\<not> in_scope ScopeWAN ScopeLAN" "in_scope ScopeWAN ScopeWAN"
  by (simp_all add: in_scope_def ScopeProcess_def ScopeOS_def ScopeLAN_def ScopeWAN_def)

lemma discover_in_wan:
  assumes c: "scope c = ScopeWAN" "registryAddr c \<noteq> []" "registryAddr c \<noteq> ''NA''" "providerSelectionMethods c = []"
    and star: "CHR ''*'' \<notin> set (p @ s)" "CHR ''*'' \<notin> set pid"
    and l: "lookupServiceWAN (w_wan w (registryAddr c)) [pid] = [si]" and w: "world_ok w" "w_dial w (Addr si)"
  shows "\<exists>d. Discover fdiv fneg selfID p s [pid] (w # ws) c = Ret (Some d) \<and> connections d = [StreamConn (Addr si)]"
proof -
  obtain self c' where s: "search_self selfID [pid] c = (self, c')" by force
  then have c': "scope c' = ScopeWAN" "registryAddr c' = registryAddr c" "providerSelectionMethods c' = []"
    using c by (auto simp: search_self_def Let_def split: if_splits)
  let ?d = "\<lparr>d_client = c', serviceList = [], connections = []\<rparr>"
  have e: "discover_expect p s [pid] = 1" using star by (simp add: discover_expect_def)
  have os: "findWithinOS w self p s [pid] 1 ?d = Ret (0, ?d)" by (simp add: findWithinOS_def find_process_def c')
  have "mset (w_shuffle w [Addr si]) = mset [Addr si]" using w(1) unfolding world_ok_def by blast
  then have sh: "w_shuffle w [Addr si] = [Addr si]" by simp
  obtain d where "findNetwork fdiv fneg w [pid] 1 ?d = (1, d)" "connections d = [StreamConn (Addr si)]"
    using w(2) c(2,3) l sh
    by (simp add: findNetwork_def find_lan_def find_wan_def set_registryAddr_def c' addToserviceList_def selectAndConnect_def try_dial_def
        add_conn_def Let_def)
  then show ?thesis by (simp add: Discover_def s e os Let_def)
qed

section \<open>Properties\<close>

lemma options_keep_names:
  "publisherName (fold apply_service_option opts svc) = publisherName svc \<and> serviceName (fold apply_service_option opts svc) = serviceName svc"
proof (induction opts arbitrary: svc)
  case (Cons x xs)
  then show ?case by (cases x) simp_all
qed simp

text \<open>
  C15 (\<open>publish\<close>, \<open>Discover\<close>): what a server publishes is found on its host. After a successful \<open>publish\<close> in the process scope a client
  of the process gets a channel to this very service; after one in the scope of the operating system a client of another process, whose
  proc file shows the listening sockets, gets a connection to the service's socket. Both are found in the first round, and no other
  connection is made.
\<close>

theorem published_found_on_host:
  fixes fdiv :: "int \<Rightarrow> int \<Rightarrow> 'f::linorder"
  assumes "initialized s" and "UseNamedUDS \<notin> set opts" and "publish e sc p n known opts s st = Ret (None, s', st')"
    and "valid_name p" and "valid_name n" and star: "CHR ''*'' \<notin> set (p @ n)"
  defines "svc \<equiv> fold apply_service_option opts (newService s (scope s AND sc) p n known)"
    and "a \<equiv> toUDSAddr p n False []"
  shows "(in_scope (scope s AND sc) ScopeProcess \<and> in_scope (scope c) ScopeProcess \<and> w_table w = n_table st' \<longrightarrow>
      (\<exists>d. Discover fdiv fneg selfID p n [] (w # ws) c = Ret (Some d) \<and> connections d = [ChanConn svc])) \<and>
    (in_scope (scope s AND sc) ScopeOS \<and> in_scope (scope c) ScopeOS \<and> map_of (w_table w) (toPublisherServiceName p n) = None \<and>
      w_proc w = Some b \<and> proc_shows b (n_unix st') \<and> w_dial w a \<longrightarrow>
      (\<exists>d. Discover fdiv fneg selfID p n [] (w # ws) c = Ret (Some d) \<and> connections d = [StreamConn a]))"
proof -
  have pub: "published (scope s AND sc) svc s st s' st'"
    using publish_opens [OF assms(1-3)] unfolding svc_def by (rule open_success)
  have n: "publisherName svc = p" "serviceName svc = n" "\<not> useNamedUDS svc"
    using assms(2) by (simp_all add: svc_def options_keep_names named_by_option newService_def)
  have "map_of (n_table st') (toPublisherServiceName p n) = Some svc" if "in_scope (scope s AND sc) ScopeProcess"
    using pub that n by (auto simp: published_def svc_name_def Let_def)
  moreover have "a \<in> set (n_unix st')" if "in_scope (scope s AND sc) ScopeOS"
    using pub that n by (auto simp: published_def a_def anon_addr_of_name Let_def)
  ultimately show ?thesis
    using discover_prefers_process [of c p n w svc fdiv fneg selfID ws, OF _ star]
      discover_on_host [OF assms(4,5) star, of c w b "n_unix st'" "[]" fdiv fneg selfID ws] unfolding a_def by simp
qed

text \<open>The service \<open>echo\<close> in the process and at the sockets of the host, and the proc file that shows it.\<close>

definition demo_proc :: string where
  "demo_proc = ''Num RefCount Protocol Flags Type St Inode Path'' @ [CHR 0x0A] @
     ''0: 2 0 10000 1 1 77 @adaptiveservice/p_echo.sock'' @ [CHR 0x0A]"

lemma demo_proc_addrs: "socket_addrs (drop 1 (terminated_lines demo_proc)) = [''@adaptiveservice/p_echo.sock'']"
  by (simp add: demo_proc_def socket_addrs_def terminated_lines_def str_fields_def is_space_def str_contains_def udsRegistryAnon_def)

lemma demo_published:
  "\<exists>s' st'. publish demo_env 3 ''p'' ''echo'' [TName ''M''] [] (demo_server\<lparr>initialized := True\<rparr>) demo_net = Ret (None, s', st') \<and>
     n_unix st' = [''@adaptiveservice/p_echo.sock'']"
  by (simp add: publish_def if_do_def and_then_def Let_def newService_def open_transports_def newChanTransport_def
        regServiceChan_def newUDSTransport_def toUDSAddr_def udsRegistryAnon_def toPublisherServiceName_def)

lemma client_scopes: "in_scope (scope (NewClient [])) ScopeProcess" "in_scope (scope (NewClient [])) ScopeOS"
  by (simp_all add: in_scope_def NewClient_def newConf_def ScopeAll_def ScopeProcess_def ScopeOS_def ScopeLAN_def ScopeWAN_def)

theorem published_found_on_host_witness:
  "\<exists>s' st' d d'. publish demo_env 3 ''p'' ''echo'' [TName ''M''] [] (demo_server\<lparr>initialized := True\<rparr>) demo_net = Ret (None, s', st') \<and>
     Discover (\<lambda>x y. x) (\<lambda>x. x) None ''p'' ''echo'' [] [demo_world (n_table st')] (NewClient []) = Ret (Some d) \<and>
     connections d = [ChanConn (newService (demo_server\<lparr>initialized := True\<rparr>) 3 ''p'' ''echo'' [TName ''M''])] \<and>
     Discover (\<lambda>x y. x) (\<lambda>x. x) None ''p'' ''echo'' [] [(demo_world [])\<lparr>w_proc := Some demo_proc\<rparr>] (NewClient []) = Ret (Some d') \<and>
     connections d' = [StreamConn ''@adaptiveservice/p_echo.sock'']"
proof -
  let ?s = "demo_server\<lparr>initialized := True\<rparr>"
  have i: "initialized ?s" by simp
  obtain s' st' where pub: "publish demo_env 3 ''p'' ''echo'' [TName ''M''] [] ?s demo_net = Ret (None, s', st')"
    and u: "n_unix st' = [''@adaptiveservice/p_echo.sock'']" using demo_published by blast
  have a: "toUDSAddr ''p'' ''echo'' False [] = ''@adaptiveservice/p_echo.sock''"
    by (simp add: anon_addr_of_name udsRegistryAnon_def toPublisherServiceName_def)
  then have proc: "proc_shows demo_proc (n_unix st')"
    unfolding proc_shows_def demo_proc_addrs u Let_def by (metis empty_iff empty_set set_ConsD)
  have v: "valid_name ''p''" "valid_name ''echo''" "CHR ''*'' \<notin> set (''p'' @ ''echo'')" by (simp_all add: checkNameConvention_def)
  note found = published_found_on_host [OF i _ pub v, where fdiv = "\<lambda>x y. x" and fneg = "\<lambda>x. x" and selfID = None and ws = "[]"
      and c = "NewClient []" and b = demo_proc, simplified]
  from found [of "demo_world (n_table st')"] found [of "(demo_world [])\<lparr>w_proc := Some demo_proc\<rparr>"] pub proc show ?thesis
    by (simp add: client_scopes demo_world_def a)
qed

text \<open>
  C16 (WAN): a service that registers at the root registry is found from any host: after any messages to the registry, among them the
  service's \<open>regServiceWAN\<close> from a host that answers the ping, as long as nobody registers or deletes the same provider of the service
  again, a client that asks for it by names and provider id within the WAN gets exactly one connection, to the registered host and port
  (with the mark P when the service is proxied).
\<close>

theorem published_found_in_wan:
  fixes fdiv :: "int \<Rightarrow> int \<Rightarrow> 'f::linorder"
  assumes "list_all wan_ok (es @ es')" and "valid_name (publisherName svc)" and "valid_name (serviceName svc)"
    and "ping (rhost @ '':'' @ port)"
    and "list_all (\<lambda>e. \<not> concerns (svc_name svc, svc_providerID svc) e) es'"
    and "scope c = ScopeWAN" and "registryAddr c \<noteq> []" and "registryAddr c \<noteq> ''NA''" and "providerSelectionMethods c = []"
    and "CHR ''*'' \<notin> set (publisherName svc @ serviceName svc)" and "CHR ''*'' \<notin> set (svc_providerID svc)"
    and "w_wan w (registryAddr c) = queryServiceWAN
      (Some (foldl (wan_step ping) [] (es @ (now, rhost, RegServiceInWAN (regServiceWAN_msg svc port s)) # es')))
      (publisherName svc) (serviceName svc)"
    and "world_ok w" and "w_dial w (rhost @ '':'' @ port @ (if svc_providerID svc \<noteq> providerID s then ''P'' else []))"
  shows "\<exists>d. Discover fdiv fneg selfID (publisherName svc) (serviceName svc) [svc_providerID svc] (w # ws) c = Ret (Some d) \<and>
    connections d = [StreamConn (rhost @ '':'' @ port @ (if svc_providerID svc \<noteq> providerID s then ''P'' else []))]"
proof -
  let ?p = "publisherName svc" and ?n = "serviceName svc" and ?pid = "svc_providerID svc"
  let ?reg = "(now, rhost, RegServiceInWAN (regServiceWAN_msg svc port s)) :: wan_event"
  let ?rr = "foldl (wan_step ping) [] (es @ ?reg # es')"
  let ?i = "\<lparr>timeStamp = now, addr = rhost @ '':'' @ port, proxied = (?pid \<noteq> providerID s)\<rparr>"
  have ok: "list_all wan_ok (es @ ?reg # es')" using assms(1-3) by (simp add: regServiceWAN_msg_def)
  have v: "valid_registry ?rr" using ok by (intro root.run_inv) auto
  have "provider_at ?rr = foldl (wan_spec ping) Map.empty (es @ ?reg # es')"
    using root.run_abs [of "[]" "es @ ?reg # es'" ping] ok by simp
  then have at: "provider_at ?rr (toPublisherServiceName ?p ?n, ?pid) = Some ?i"
    using assms(4,5) by (simp add: unconcerned_run regServiceWAN_msg_def svc_name_def)
  have addr: "Addr (info_of (toPublisherServiceName ?p ?n, ?pid) ?i) = rhost @ '':'' @ port @ (if ?pid \<noteq> providerID s then ''P'' else [])"
    using assms(2,3) by (simp add: info_of.simps from_toPublisherServiceName)
  have "lookupServiceWAN (w_wan w (registryAddr c)) [?pid] = [info_of (toPublisherServiceName ?p ?n, ?pid) ?i]"
    using lookup_wan_single [OF v at assms(10,11)] assms(12) by simp
  from discover_in_wan [OF assms(6-11) this assms(13), of fdiv fneg selfID ws] assms(14) show ?thesis unfolding addr by blast
qed

definition demo_wan_service :: service where
  "demo_wan_service = \<lparr>publisherName = ''pub'', serviceName = ''svc'', svc_providerID = ''prov'', knownMsgTypes = [TName ''ask''],
     msgTypeCheck = True, svc_scope = ScopeWAN, useNamedUDS = False, fnOnConnect = False, fnOnDisconnect = False,
     fnOnNewStream = False, fnOnStreamClose = False, svc_qsize = 8\<rparr>"

theorem published_found_in_wan_witness:
  "\<exists>d. Discover (\<lambda>x y. x) (\<lambda>x. x) None ''pub'' ''svc'' [''prov'']
      [(demo_world [])\<lparr>w_wan := \<lambda>a. queryServiceWAN (Some (foldl (wan_step (\<lambda>a. True)) []
          [(2, ''h'', RegServiceInWAN (regServiceWAN_msg demo_wan_service ''80'' demo_server)), (3, ''g'', DelServiceInWAN ''pub'' ''svc'' ''other'')]))
          ''pub'' ''svc''\<rparr>]
      (NewClient [WithScope ScopeWAN, WithRegistryAddr ''r:90'']) = Ret (Some d) \<and>
    connections d = [StreamConn ''h:80P'']"
proof -
  let ?svc = "demo_wan_service" and ?c = "NewClient [WithScope ScopeWAN, WithRegistryAddr ''r:90'']"
  let ?es = "[(3, ''g'', DelServiceInWAN ''pub'' ''svc'' ''other'')] :: wan_event list"
  let ?w = "(demo_world [])\<lparr>w_wan := \<lambda>a. queryServiceWAN (Some (foldl (wan_step (\<lambda>a. True)) []
          ((2, ''h'', RegServiceInWAN (regServiceWAN_msg ?svc ''80'' demo_server)) # ?es))) ''pub'' ''svc''\<rparr>"
  have c: "scope ?c = ScopeWAN" "registryAddr ?c \<noteq> []" "registryAddr ?c \<noteq> ''NA''" "providerSelectionMethods ?c = []"
    by (simp_all add: NewClient_def)
  have n: "publisherName ?svc = ''pub''" "serviceName ?svc = ''svc''" "svc_providerID ?svc = ''prov''" by (simp_all add: demo_wan_service_def)
  have w: "world_ok ?w" "w_dial ?w a" for a by (simp_all add: world_ok_def demo_world_def)
  show ?thesis
    using published_found_in_wan [of "[]" ?es ?svc "\<lambda>a. True" "''h''" "''80''" ?c ?w 2 demo_server "\<lambda>x y. x" "\<lambda>x. x" None "[]"] c w
    by (simp add: n checkNameConvention_def svc_name_def toPublisherServiceName_def)
qed

end
