(* ===== verification/Process.thy ===== *)
theory Process
  imports Discovery
begin

text \<open>
  What a process sets up for itself: the provider ID (\<open>genID\<close> in \<open>server.go\<close>), the addresses to which the LAN registry broadcasts
  (\<open>newLANRegistry\<close> in \<open>registry.go\<close>), the signal handler and the registered types (\<open>adaptiveservice.go\<close>), the receive timeout of a stream
  (\<open>stream.go\<close>). The network interfaces, the links in \<open>/sys\<close> and the random bytes are arguments.
\<close>

unbundle bit_operations_syntax

section \<open>The provider ID\<close>

definition hexdigits :: string where
  "hexdigits = ''0123456789abcdef''"

definition hex_digit :: "nat \<Rightarrow> char" where
  "hex_digit n = hexdigits ! n"

definition hex_EncodeToString :: "8 word list \<Rightarrow> string" where
  "hex_EncodeToString b = concat (map (\<lambda>x. [hex_digit (unat x div 16), hex_digit (unat x mod 16)]) b)"

text \<open>An interface is given by the link of its device, \<open>None\<close> for an error, and its hardware address.\<close>

fun hardwareAddr :: "(string option \<times> 8 word list) list \<Rightarrow> 8 word list" where
  "hardwareAddr [] = []"
| "hardwareAddr ((dev, hw) # itfs) =
     (case dev of
        None \<Rightarrow> hardwareAddr itfs
      | Some d \<Rightarrow>
          if str_contains d ''virtual'' then hardwareAddr itfs
          else if length hw \<noteq> 0 then hw else hardwareAddr itfs)"

definition genID :: "(string option \<times> 8 word list) list \<Rightarrow> 8 word list \<Rightarrow> string" where
  "genID itfs rnd = (let b = hardwareAddr itfs; b = (if length b = 0 then rnd else b) in hex_EncodeToString b)"

lemma hex_digit_cases: "n < 16 \<Longrightarrow> hex_digit n \<in> set hexdigits"
  unfolding hex_digit_def by (rule nth_mem) (simp add: hexdigits_def)

lemma hex_digit_inj: "m < 16 \<Longrightarrow> n < 16 \<Longrightarrow> hex_digit m = hex_digit n \<longleftrightarrow> m = n"
  unfolding hex_digit_def by (rule nth_eq_iff_index_eq) (simp_all add: hexdigits_def)

lemma byte_halves: "unat (x :: 8 word) div 16 < 16" "unat x mod 16 < 16"
  using unsigned_less [of x, where 'a = nat] by auto

lemma hex_byte_inj:
  fixes x y :: "8 word"
  assumes "hex_digit (unat x div 16) = hex_digit (unat y div 16)" and "hex_digit (unat x mod 16) = hex_digit (unat y mod 16)"
  shows "x = y"
proof -
  have "unat x div 16 = unat y div 16" "unat x mod 16 = unat y mod 16"
    using assms hex_digit_inj byte_halves by metis+
  then have "unat x = unat y" by (metis div_mult_mod_eq)
  then show ?thesis by (simp add: word_unat_eq_iff)
qed

lemma hex_inj: "hex_EncodeToString a = hex_EncodeToString b \<longleftrightarrow> a = b"
proof (induction a arbitrary: b)
  case (Cons x a)
  then show ?case
    by (cases b) (auto simp: hex_EncodeToString_def dest: hex_byte_inj)
qed (auto simp: hex_EncodeToString_def)

lemma hex_chars: "set (hex_EncodeToString b) \<subseteq> set hexdigits"
  using hex_digit_cases byte_halves by (auto simp: hex_EncodeToString_def)

lemma hexdigits_plain: "list_all (\<lambda>c. c \<notin> set ''_/ *'' \<and> c \<noteq> CHR 0x0A \<and> c \<noteq> CHR 0x0D \<and> c \<noteq> CHR 0x09) hexdigits"
  by (simp add: hexdigits_def)

text \<open>
  A generated ID follows the naming convention, so that the registries' keys, socket addresses and record files can carry it, contains
  no wildcard, and differs for different hardware addresses.
\<close>

lemma genID_plain: "valid_name (genID itfs rnd) \<and> CHR ''*'' \<notin> set (genID itfs rnd)"
proof -
  have "set (genID itfs rnd) \<subseteq> set hexdigits" unfolding genID_def Let_def by (rule hex_chars)
  then have "list_all (\<lambda>c. c \<notin> set ''_/ *'' \<and> c \<noteq> CHR 0x0A \<and> c \<noteq> CHR 0x0D \<and> c \<noteq> CHR 0x09) (genID itfs rnd)"
    using hexdigits_plain unfolding list_all_iff by blast
  then show ?thesis by (auto simp: checkNameConvention_def list_ex_iff list_all_iff)
qed

lemma genID_distinct:
  "hardwareAddr itfs \<noteq> [] \<Longrightarrow> hardwareAddr itfs' \<noteq> [] \<Longrightarrow> genID itfs rnd = genID itfs' rnd' \<longleftrightarrow> hardwareAddr itfs = hardwareAddr itfs'"
  by (simp add: genID_def hex_inj)

section \<open>Broadcast addresses of the LAN registry\<close>

definition show_ip :: "8 word list \<Rightarrow> string" where
  "show_ip ip = str_join (map (\<lambda>b. show_nat (unat b)) ip) ''.''"

text \<open>An interface address: whether it is IPv4, whether it is loopback, its network and mask.\<close>

definition bcastAddrs :: "string \<Rightarrow> (bool \<times> bool \<times> 8 word list \<times> 8 word list) list \<Rightarrow> string list outcome" where
  "bcastAddrs port addrs =
     map_outcome (\<lambda>(v4, loopback, ip, msk).
         bind_outcome (broadcastAddr ip msk) (\<lambda>bcast. Ret (show_ip bcast @ '':'' @ port)))
       (filter (\<lambda>(v4, loopback, ip, msk). v4 \<and> \<not> loopback) addrs)"

lemma bcastAddrs_total:
  "(\<And>v4 lo ip msk. (v4, lo, ip, msk) \<in> set addrs \<Longrightarrow> v4 \<Longrightarrow> length ip = 4 \<and> length msk = 4) \<Longrightarrow>
   \<exists>as. bcastAddrs port addrs = Ret as \<and> length as = length (filter (\<lambda>(v4, lo, ip, msk). v4 \<and> \<not> lo) addrs)"
  unfolding bcastAddrs_def
  by (intro exI conjI, rule map_outcome_all_Ret [where g = "\<lambda>(v4, lo, ip, msk).
        show_ip (map (\<lambda>i. ip ! i OR NOT (msk ! i)) [0..<4]) @ '':'' @ port"])
     (fastforce simp: broadcastAddr_def newIP_def)+

section \<open>Signals\<close>

text \<open>
  The servers that asked to be closed, and whether the goroutine still waits for a signal. It closes them one after the other; \<open>None\<close> is that
  it is blocked on a server.
\<close>

record sigCleaner =
  sc_closers :: "Server list"
  sc_waiting :: bool

definition addSigCloser :: "Server \<Rightarrow> sigCleaner \<Rightarrow> sigCleaner" where
  "addSigCloser s sc = sc\<lparr>sc_closers := sc_closers sc @ [s]\<rparr>"

fun close_servers :: "Server list \<Rightarrow> Server list option" where
  "close_servers [] = Some []"
| "close_servers (s # ss) = Option.bind (signal_close s) (\<lambda>s'. map_option (\<lambda>ss'. s' # ss') (close_servers ss))"

definition on_signal :: "sigCleaner \<Rightarrow> sigCleaner option" where
  "on_signal sc =
     (if sc_waiting sc then map_option (\<lambda>ss. sc\<lparr>sc_closers := ss, sc_waiting := False\<rparr>) (close_servers (sc_closers sc))
      else Some sc)"

text \<open>Every server with room for an error is told to close, in the order of registration, and one that has nothing open is left alone.\<close>

definition told_to_close :: "Server \<Rightarrow> Server" where
  "told_to_close s =
     (if closers s = [] then s
      else s\<lparr>errRecovers := (errRecovers s)\<lparr>buffered := buffered (errRecovers s) @ [UnrecoverableError ''server closed by signal'']\<rparr>\<rparr>)"

lemma signal_reaches_all:
  "list_all (\<lambda>s. closers s = [] \<or> \<not> closed (errRecovers s) \<and> length (buffered (errRecovers s)) < capacity (errRecovers s)) ss \<Longrightarrow>
   on_signal \<lparr>sc_closers = ss, sc_waiting = True\<rparr> = Some \<lparr>sc_closers = map told_to_close ss, sc_waiting = False\<rparr>"
proof -
  assume "list_all (\<lambda>s. closers s = [] \<or> \<not> closed (errRecovers s) \<and> length (buffered (errRecovers s)) < capacity (errRecovers s)) ss"
  then have "close_servers ss = Some (map told_to_close ss)"
    by (induction ss) (auto simp: signal_close_def told_to_close_def try_send_def chan_send_def)
  then show ?thesis by (simp add: on_signal_def)
qed

text \<open>The second signal is taken from the default action, but nobody waits for it.\<close>

lemma second_signal_ignored: "on_signal sc = Some sc' \<Longrightarrow> on_signal sc' = Some sc'"
  by (auto simp: on_signal_def split: if_splits)

section \<open>Registered types\<close>

text \<open>\<open>gotiny\<close> is the panic of \<open>gotiny.RegisterName\<close>, if it panics.\<close>

definition RegisterTypeNoPanic :: "(gotype \<Rightarrow> string option) \<Rightarrow> gotype \<Rightarrow> type_registry \<Rightarrow> string option \<times> type_registry" where
  "RegisterTypeNoPanic gotiny rt reg =
     (case map_of reg (type_name rt) of
        Some t \<Rightarrow> (None, reg)
      | None \<Rightarrow> (case gotiny rt of Some p \<Rightarrow> (Some p, reg) | None \<Rightarrow> (None, RegisterType rt reg)))"

definition init_types :: "gotype list" where
  "init_types =
     map TName [''int'', ''int8'', ''int16'', ''int32'', ''int64'', ''uint'', ''uint8'', ''uint16'', ''uint32'', ''uint64'', ''float32'',
       ''float64'', ''complex64'', ''complex128'', ''uintptr'', ''bool'', ''string'',
       ''[]int'', ''[]int8'', ''[]int16'', ''[]int32'', ''[]int64'', ''[]uint'', ''[]uint8'', ''[]uint16'', ''[]uint32'', ''[]uint64'',
       ''[]float32'', ''[]float64'', ''[]complex64'', ''[]complex128'', ''[]uintptr'', ''[]bool'', ''[]string''] @
     [TPtr (TName ''errors.errorString''), TPtr (TName ''fmt.wrapError''), TName ''adaptiveservice.errServiceNotFound'']"

lemma register_all:
  "distinct (map type_name ts) \<Longrightarrow> set (map type_name ts) \<inter> fst ` set reg = {} \<Longrightarrow>
   map_of (fold RegisterType ts reg) n = (case map_of reg n of Some t \<Rightarrow> Some t | None \<Rightarrow> map_of (map (\<lambda>t. (type_name t, t)) ts) n)"
proof (induction ts arbitrary: reg)
  case (Cons t ts)
  have "map_of reg (type_name t) = None" using Cons.prems(2) by (auto simp: map_of_eq_None_iff)
  then have "fst ` set (RegisterType t reg) = insert (type_name t) (fst ` set reg)"
    by (simp add: RegisterType_def Let_def dom_update [unfolded dom_map_of_conv_image_fst])
  with Cons.prems have "set (map type_name ts) \<inter> fst ` set (RegisterType t reg) = {}" by auto
  with Cons show ?case by (auto simp: RegisterType_first split: option.splits)
qed (simp split: option.splits)

text \<open>The types that the files of the package register, file by file.\<close>

definition registry_types :: "gotype list" where
  "registry_types = [TName ''[]*adaptiveservice.ServiceInfo'', ptr ''queryInLAN'', ptr ''foundInLAN'']"

definition root_registry_types :: "gotype list" where
  "root_registry_types = map ptr [''regServiceInWAN'', ''delServiceInWAN'', ''queryServiceInWAN'', ''testReverseProxy'']"

definition lanregistry_svc_types :: "gotype list" where
  "lanregistry_svc_types = map ptr [''queryServiceInLAN'', ''regServiceInLAN'', ''delServiceInLAN'']"

definition servicelister_types :: "gotype list" where
  "servicelister_types = [ptr ''ListService'', TName ''[4][]*adaptiveservice.ServiceInfo'']"

definition messagetracing_types :: "gotype list" where
  "messagetracing_types = [ptr ''tracedMessageRecord'', ptr ''readTracedMsg'', TName ''[]*adaptiveservice.tracedMessageRecord'']"

definition msgq_types :: "gotype list" where
  "msgq_types = [TName ''adaptiveservice.QueryMsgQInfo'', TName ''adaptiveservice.MsgQInfo'']"

definition single_types :: "gotype list" where
  "single_types = [TName ''adaptiveservice.GetObservedIP'', ptr ''proxyRegServiceInWAN'', ptr ''reqRegistryInfo'', ptr ''uuidInfo'',
     TName ''adaptiveservice.streamCloseMsg'', ptr ''ReqProviderInfo'']"

definition package_types :: "gotype list" where
  "package_types = init_types @ registry_types @ root_registry_types @ lanregistry_svc_types @ servicelister_types @ messagetracing_types @
     msgq_types @ single_types"

lemma distinct_registered:
  assumes "distinct (map type_name ts)" and "t \<in> set ts"
  shows "GetRegisteredTypeByName (type_name t) (fold RegisterType ts []) = Some t"
proof -
  have "map_of (map (\<lambda>t. (type_name t, t)) ts) (type_name t) = Some t"
    using assms by (intro map_of_is_SomeI) (auto simp: comp_def)
  then show ?thesis using register_all [OF assms(1), of "[]"] by (simp add: GetRegisteredTypeByName_def)
qed

text \<open>
  No two of them have the same name, so each is registered, whatever the order of the files; and every message that a built-in service
  knows is among them.
\<close>

lemma package_types_registered:
  assumes "mset ts = mset package_types" and "t \<in> set package_types"
  shows "GetRegisteredTypeByName (type_name t) (fold RegisterType ts []) = Some t"
proof -
  have "distinct (map type_name package_types)"
    by (simp add: package_types_def init_types_def registry_types_def root_registry_types_def lanregistry_svc_types_def servicelister_types_def
        messagetracing_types_def msgq_types_def single_types_def ptr_def)
  then have "distinct (map type_name ts)" using assms(1) by (metis mset_eq_imp_distinct_iff mset_map)
  then show ?thesis by (rule distinct_registered) (use assms in \<open>metis set_mset_mset\<close>)
qed

lemma builtin_messages_registered:
  "set [ptr ''ReqProviderInfo'', ptr ''queryServiceInLAN'', ptr ''regServiceInLAN'', ptr ''delServiceInLAN'', ptr ''reqRegistryInfo'',
     ptr ''regServiceInWAN'', ptr ''delServiceInWAN'', ptr ''queryServiceInWAN'', ptr ''testReverseProxy'', ptr ''proxyRegServiceInWAN'',
     ptr ''ListService'', TName ''adaptiveservice.GetObservedIP'', ptr ''tracedMessageRecord'', ptr ''readTracedMsg'', QueryMsgQInfo_type] \<subseteq> set package_types"
  by (simp add: package_types_def registry_types_def root_registry_types_def lanregistry_svc_types_def servicelister_types_def
      messagetracing_types_def msgq_types_def single_types_def QueryMsgQInfo_type_def)

section \<open>Receive timeouts\<close>

definition SetRecvTimeout :: "int \<Rightarrow> chanClientStream \<Rightarrow> chanClientStream" where
  "SetRecvTimeout d cs = cs\<lparr>cs_d := d\<rparr>"

definition SetRecvTimeout_net :: "int \<Rightarrow> streamClientStream \<Rightarrow> streamClientStream" where
  "SetRecvTimeout_net d cs = cs\<lparr>scs_d := d\<rparr>"

text \<open>A timeout ends \<open>Recv\<close> exactly when it is positive, and leaves the stream as it was.\<close>

lemma timeout_ends_recv:
  assumes "cs_msgChan cs = Some ch" and "p \<noteq> TargetBad"
  shows "chanClient_Recv TakeTimeout p (SetRecvTimeout d cs) =
    Ret (if d > 0 then Some (RecvErr ErrRecvTimeout, SetRecvTimeout d cs) else None)"
  using assms by (simp add: chanClient_Recv_def SetRecvTimeout_def)

text \<open>
  So the reply to a request that timed out is still under way, and is what the next request on the stream receives.
\<close>

lemma timed_out_reply_goes_to_next:
  assumes "cs_msgChan cs = Some ch" and "buffered ch = [r0, r1]" and "mm_msg r0 \<noteq> MError io_EOF" and "p \<noteq> TargetBad"
  shows "\<exists>cs'. chanClient_Recv TakeMsg p cs = Ret (Some (recv_msg True p (mm_msg r0), cs')) \<and>
    cs_msgChan cs' = Some (ch\<lparr>buffered := [r1]\<rparr>)"
  using assms by (simp add: chanClient_Recv_def try_recv_def chan_recv_def Let_def)

end
