(* ===== verification/Timeouts.thy ===== *)
theory Timeouts
  imports Process
begin

text \<open>
  Receive timeouts in time: \<open>timeoutChan\<close> of \<open>stream.go\<close>, \<open>SendRecv\<close> of a client's network stream whose replies are on their way, and the
  command \<open>timeout\<close> of the echo example's client with its handler (\<open>examples/echo\<close>), which sets one timeout after the other. Time is counted in
  seconds; a reply arrives when the handler has slept, so there is a free worker and the network takes no time. Other time is spent only in
  waiting.
\<close>

section \<open>Waiting for a reply\<close>

text \<open>When the channel gets its value; the nil channel of a stream without timeout never does.\<close>

definition timeoutChan :: "int \<Rightarrow> int \<Rightarrow> int option" where
  "timeoutChan now d = (if d > 0 then Some (now + d) else None)"

text \<open>The time, the stream and the replies on their way in the order of their arrival.\<close>

record timedStream =
  ts_now :: int
  ts_cs :: streamClientStream
  ts_due :: "(int \<times> metaMsg) list"

definition put_msgs :: "metaMsg list \<Rightarrow> streamClientStream \<Rightarrow> streamClientStream" where
  "put_msgs ms cs = cs\<lparr>scs_msgChan := map_option (\<lambda>ch. ch\<lparr>buffered := buffered ch @ ms\<rparr>) (scs_msgChan cs)\<rparr>"

text \<open>At time \<open>t\<close>, what has arrived is in the stream's channel, which has room for it.\<close>

definition advance :: "int \<Rightarrow> timedStream \<Rightarrow> timedStream" where
  "advance t ts =
     ts\<lparr>ts_now := t, ts_cs := put_msgs (map snd (takeWhile (\<lambda>(t', mm). t' \<le> t) (ts_due ts))) (ts_cs ts),
        ts_due := dropWhile (\<lambda>(t', mm). t' \<le> t) (ts_due ts)\<rparr>"

text \<open>
  The \<open>select\<close> in \<open>Recv\<close>: a message that is there is taken at once, otherwise the first of the timeout and the next arrival decides; when both
  come at the same moment, \<open>tie\<close> does. \<open>None\<close> is that nothing will come.
\<close>

definition next_ready :: "bool \<Rightarrow> timedStream \<Rightarrow> (recv_choice \<times> int) option" where
  "next_ready tie ts =
     (if (case scs_msgChan (ts_cs ts) of None \<Rightarrow> True | Some ch \<Rightarrow> buffered ch \<noteq> []) then Some (TakeMsg, ts_now ts)
      else case (timeoutChan (ts_now ts) (scs_d (ts_cs ts)), ts_due ts) of
             (None, []) \<Rightarrow> None
           | (Some t, []) \<Rightarrow> Some (TakeTimeout, t)
           | (None, (t, mm) # due) \<Rightarrow> Some (TakeMsg, max (ts_now ts) t)
           | (Some t', (t, mm) # due) \<Rightarrow>
               if t < t' \<or> t = t' \<and> tie then Some (TakeMsg, max (ts_now ts) t) else Some (TakeTimeout, t'))"

definition timed_Recv :: "bool \<Rightarrow> target \<Rightarrow> timedStream \<Rightarrow> (recv_result \<times> timedStream) option outcome" where
  "timed_Recv tie p ts =
     (case next_ready tie ts of
        None \<Rightarrow> Ret None
      | Some (choice, t) \<Rightarrow>
          (let ts = advance t ts in
           bind_outcome (streamClient_Recv choice p (ts_cs ts)) (\<lambda>r. Ret (map_option (\<lambda>(res, cs). (res, ts\<lparr>ts_cs := cs\<rparr>)) r))))"

text \<open>\<open>Send\<close> of a request that is answered after some time.\<close>

definition timed_Send :: "int \<Rightarrow> gomsg \<Rightarrow> gomsg \<Rightarrow> timedStream \<Rightarrow> (goerror option \<times> timedStream) option outcome" where
  "timed_Send wait reply m ts =
     (case streamClient_Send (\<lambda>m. False) None m (ts_cs ts) of
        (Some e, cs) \<Rightarrow> Ret (Some (Some e, ts\<lparr>ts_cs := cs\<rparr>))
      | (None, cs) \<Rightarrow>
          Ret (Some (None, ts\<lparr>ts_cs := cs, ts_due := insort_key fst (ts_now ts + wait, \<lparr>mm_msg = reply, mm_feats = []\<rparr>) (ts_due ts)\<rparr>)))"

definition timed_SendRecv ::
  "bool \<Rightarrow> int \<Rightarrow> gomsg \<Rightarrow> target \<Rightarrow> gomsg \<Rightarrow> timedStream \<Rightarrow> (recv_result \<times> timedStream) option outcome" where
  "timed_SendRecv tie wait reply p m = SendRecv (timed_Send wait reply m) (timed_Recv tie p)"

definition timed_SetRecvTimeout :: "int \<Rightarrow> timedStream \<Rightarrow> timedStream" where
  "timed_SetRecvTimeout d ts = ts\<lparr>ts_cs := SetRecvTimeout_net d (ts_cs ts)\<rparr>"

text \<open>A stream on which nothing is waited for.\<close>

definition stream_open :: "streamClientStream \<Rightarrow> bool" where
  "stream_open cs \<longleftrightarrow> \<not> conn_closed cs \<and> \<not> conn_broken cs \<and> (\<exists>ch. scs_msgChan cs = Some ch \<and> buffered ch = [] \<and> 0 < capacity ch)"

definition quiet_stream :: "timedStream \<Rightarrow> bool" where
  "quiet_stream ts \<longleftrightarrow> stream_open (ts_cs ts) \<and> ts_due ts = []"

section \<open>The echo client's timeouts\<close>

definition MessageTimeout :: gomsg where
  "MessageTimeout = MValue (V (TName ''server.MessageTimeout'') 0)"

text \<open>How long the handler sleeps, and its reply \<open>as.OK\<close>.\<close>

definition MessageTimeout_Handle :: "int \<times> gomsg" where
  "MessageTimeout_Handle = (10, MValue (V (TName ''int'') 0))"

definition ask_timeout :: "timedStream \<Rightarrow> (recv_result \<times> timedStream) option outcome" where
  "ask_timeout = timed_SendRecv False (fst MessageTimeout_Handle) (snd MessageTimeout_Handle) TargetNil MessageTimeout"

fun error_text :: "recv_result \<Rightarrow> string option" where
  "error_text (RecvErr (ErrorString s)) = Some s"
| "error_text (RecvErr (OtherError s)) = Some s"
| "error_text (Received v) = None"

text \<open>The lines printed, whether the client has returned, and its stream. A line is printed unless the client has returned.\<close>

type_synonym session = "string list \<times> bool \<times> timedStream"

definition Println :: "string \<Rightarrow> session \<Rightarrow> session option outcome" where
  "Println line s = (case s of (ls, ret, ts) \<Rightarrow> Ret (Some (if ret then s else (ls @ [line], ret, ts))))"

definition set_timeout :: "int \<Rightarrow> session \<Rightarrow> session option outcome" where
  "set_timeout d s = (case s of (ls, ret, ts) \<Rightarrow> Ret (Some (if ret then s else (ls, ret, timed_SetRecvTimeout d ts))))"

text \<open>A request whose error ends the client, and one whose error is expected.\<close>

definition ask_or_return :: "session \<Rightarrow> session option outcome" where
  "ask_or_return s =
     (case s of (ls, ret, ts) \<Rightarrow>
        if ret then Ret (Some s)
        else bind_outcome (ask_timeout ts) (\<lambda>r. Ret (map_option (\<lambda>(res, ts).
               case error_text res of
                 Some err \<Rightarrow> (ls @ [err], True, ts)
               | None \<Rightarrow> (ls @ [''Recv OK''], ret, ts)) r)))"

definition ask_expecting_error :: "session \<Rightarrow> session option outcome" where
  "ask_expecting_error s =
     (case s of (ls, ret, ts) \<Rightarrow>
        if ret then Ret (Some s)
        else bind_outcome (ask_timeout ts) (\<lambda>r. Ret (map_option (\<lambda>(res, ts).
               case error_text res of
                 Some err \<Rightarrow> (ls @ [err], ret, ts)
               | None \<Rightarrow> (ls @ [''Some error happend''], ret, ts)) r)))"

fun run_session :: "(session \<Rightarrow> session option outcome) list \<Rightarrow> session \<Rightarrow> session option outcome" where
  "run_session [] s = Ret (Some s)"
| "run_session (f # fs) s = bind_outcome (f s) (\<lambda>r. case r of None \<Rightarrow> Ret None | Some s \<Rightarrow> run_session fs s)"

definition timeout_cmd :: "timedStream \<Rightarrow> session option outcome" where
  "timeout_cmd ts = run_session
     [Println ''No timeout by default'', ask_or_return,
      Println ''Set timeout to 15s'', set_timeout 15, ask_or_return,
      Println ''Set timeout to 3s'', set_timeout 3, ask_expecting_error, ask_expecting_error,
      Println ''Set back to no timeout'', set_timeout 0, ask_or_return] ([], False, ts)"

section \<open>Properties\<close>

lemma Send_open:
  assumes "stream_open cs"
  obtains cs' where "streamClient_Send (\<lambda>m. False) None m cs = (None, cs')" "scs_msgChan cs' = scs_msgChan cs" "scs_d cs' = scs_d cs"
    "conn_closed cs' = conn_closed cs" "conn_broken cs' = conn_broken cs"
  using assms by (auto simp: stream_open_def streamClient_Send_def Let_def note_trace_def)

text \<open>
  C37 (timeouts): on a stream on which no reply is under way, \<open>SendRecv\<close> with a timeout \<open>d\<close> returns the reply at the moment it arrives if that is within
  the timeout or there is none, and \<open>ErrRecvTimeout\<close> after exactly \<open>d\<close> otherwise; in the first case nothing is under way afterwards, in
  the second the reply still is.
\<close>

theorem recv_timeout_exact:
  assumes "quiet_stream ts" and "0 < wait" and "wait \<noteq> scs_d (ts_cs ts)" and "reply \<noteq> MError io_EOF" and "p \<noteq> TargetBad"
  shows "\<exists>ts'. scs_d (ts_cs ts') = scs_d (ts_cs ts) \<and>
    (if scs_d (ts_cs ts) \<le> 0 \<or> wait < scs_d (ts_cs ts)
     then timed_SendRecv tie wait reply p m ts = Ret (Some (recv_msg True p reply, ts')) \<and> ts_now ts' = ts_now ts + wait \<and> quiet_stream ts'
     else timed_SendRecv tie wait reply p m ts = Ret (Some (RecvErr ErrRecvTimeout, ts')) \<and> ts_now ts' = ts_now ts + scs_d (ts_cs ts) \<and>
       stream_open (ts_cs ts') \<and> ts_due ts' = [(ts_now ts + wait, \<lparr>mm_msg = reply, mm_feats = []\<rparr>)])"
proof -
  let ?mm = "\<lparr>mm_msg = reply, mm_feats = []\<rparr>" and ?d = "scs_d (ts_cs ts)"
  have o: "stream_open (ts_cs ts)" "ts_due ts = []" using assms(1) by (simp_all add: quiet_stream_def)
  then obtain ch where ch: "scs_msgChan (ts_cs ts) = Some ch" "buffered ch = []" "0 < capacity ch" "\<not> conn_closed (ts_cs ts)" "\<not> conn_broken (ts_cs ts)"
    by (auto simp: stream_open_def)
  obtain cs' where s: "streamClient_Send (\<lambda>m. False) None m (ts_cs ts) = (None, cs')" "scs_msgChan cs' = Some ch" "scs_d cs' = ?d"
    "\<not> conn_closed cs'" "\<not> conn_broken cs'"
    using Send_open [OF o(1)] ch by metis
  let ?ts = "ts\<lparr>ts_cs := cs', ts_due := [(ts_now ts + wait, ?mm)]\<rparr>"
  have r: "timed_SendRecv tie wait reply p m ts = timed_Recv tie p ?ts"
    by (simp add: timed_SendRecv_def SendRecv_def timed_Send_def s(1) o(2))
  show ?thesis
  proof (cases "?d \<le> 0 \<or> wait < ?d")
    case True
    then have n: "next_ready tie ?ts = Some (TakeMsg, ts_now ts + wait)"
      using s(2,3) ch(2) assms(2) by (auto simp: next_ready_def timeoutChan_def max_def)
    let ?cs = "cs'\<lparr>scs_msgChan := Some (ch\<lparr>buffered := [?mm]\<rparr>)\<rparr>"
    have "advance (ts_now ts + wait) ?ts = ts\<lparr>ts_now := ts_now ts + wait, ts_cs := ?cs, ts_due := []\<rparr>"
      using s(2) ch(2) by (simp add: advance_def put_msgs_def)
    moreover have "streamClient_Recv TakeMsg p ?cs = Ret (Some (recv_msg True p reply, ?cs\<lparr>scs_msgChan := Some (ch\<lparr>buffered := []\<rparr>)\<rparr>))"
      using s(4) assms(4,5) by (simp add: streamClient_Recv_def try_recv_def chan_recv_def note_trace_def getTracingID_feats_def)
    ultimately have "timed_SendRecv tie wait reply p m ts = Ret (Some (recv_msg True p reply,
        ts\<lparr>ts_now := ts_now ts + wait, ts_cs := ?cs\<lparr>scs_msgChan := Some (ch\<lparr>buffered := []\<rparr>)\<rparr>, ts_due := []\<rparr>))"
      unfolding r by (simp add: timed_Recv_def n Let_def)
    then show ?thesis
      using True s(3,4,5) ch(3) by (auto simp: quiet_stream_def stream_open_def)
  next
    case False
    then have n: "next_ready tie ?ts = Some (TakeTimeout, ts_now ts + ?d)"
      using s(2,3) ch(2) assms(3) by (auto simp: next_ready_def timeoutChan_def)
    have "advance (ts_now ts + ?d) ?ts = ?ts\<lparr>ts_now := ts_now ts + ?d\<rparr>"
      using False assms(3) s(2) by (simp add: advance_def put_msgs_def)
    then have "timed_SendRecv tie wait reply p m ts = Ret (Some (RecvErr ErrRecvTimeout, ?ts\<lparr>ts_now := ts_now ts + ?d\<rparr>))"
      unfolding r using False s(2,3,4) assms(5) by (simp add: timed_Recv_def n Let_def streamClient_Recv_def)
    then show ?thesis
      using False s ch(2,3) by (auto simp: stream_open_def)
  qed
qed

definition demo_stream :: "int \<Rightarrow> timedStream" where
  "demo_stream d = \<lparr>ts_now = 0, ts_cs = SetRecvTimeout_net d (stream_NewStream 1 8), ts_due = []\<rparr>"

lemma demo_quiet: "quiet_stream (demo_stream d)" "scs_d (ts_cs (demo_stream d)) = d"
  by (simp_all add: quiet_stream_def demo_stream_def stream_open_def SetRecvTimeout_net_def stream_NewStream_def make_chan_def)

theorem recv_timeout_exact_witness:
  "(\<exists>ts'. ask_timeout (demo_stream 15) = Ret (Some (Received None, ts')) \<and> ts_now ts' = 10) \<and>
   (\<exists>ts'. ask_timeout (demo_stream 3) = Ret (Some (RecvErr ErrRecvTimeout, ts')) \<and> ts_now ts' = 3)"
  using recv_timeout_exact [OF demo_quiet(1), of 10 15 "snd MessageTimeout_Handle" TargetNil False MessageTimeout]
    recv_timeout_exact [OF demo_quiet(1), of 10 3 "snd MessageTimeout_Handle" TargetNil False MessageTimeout]
  by (simp add: demo_quiet(2) ask_timeout_def MessageTimeout_Handle_def recv_msg_def) (auto simp: demo_stream_def)

text \<open>
  The command prints what it is meant to show. Its last request, sent after 26 seconds, is answered after 30: with the reply to the first request
  that timed out, and the replies to the last two requests are still under way.
\<close>

lemma timeout_cmd_prints:
  "\<exists>ts. timeout_cmd (demo_stream 0) =
     Ret (Some ([''No timeout by default'', ''Recv OK'', ''Set timeout to 15s'', ''Recv OK'', ''Set timeout to 3s'', ''receive timeout'',
       ''receive timeout'', ''Set back to no timeout'', ''Recv OK''], False, ts)) \<and>
     ts_now ts = 30 \<and> map fst (ts_due ts) = [33, 36]"
proof -
  note defs = timeout_cmd_def Println_def set_timeout_def ask_or_return_def ask_expecting_error_def ask_timeout_def MessageTimeout_Handle_def
    timed_SendRecv_def SendRecv_def timed_Send_def timed_Recv_def next_ready_def timeoutChan_def advance_def put_msgs_def
    timed_SetRecvTimeout_def SetRecvTimeout_net_def streamClient_Send_def streamClient_Recv_def demo_stream_def stream_NewStream_def make_chan_def
    mk_feats_def note_trace_def try_recv_def chan_recv_def getTracingID_feats_def recv_msg_def ErrRecvTimeout_def Let_def
  show ?thesis by (simp add: defs)
qed

end
