(* ===== verification/Examples.thy ===== *)
theory Examples
  imports Naming
begin

text \<open>
  The handlers of the small examples: \<open>examples/hello\<close>, \<open>examples/selectprovider\<close> and the chain of four services of
  \<open>examples/msgtracing\<close>. What a handler finds when it looks for another service is an argument: \<open>None\<close> when discovery gives no
  connection, otherwise what \<open>SendRecv\<close> on the connection returns for an input, an error or the output of the reply.
\<close>

section \<open>Hello\<close>

definition ToLower :: "string \<Rightarrow> string" where
  "ToLower s = map (\<lambda>c. let n = of_char c :: nat in if 65 \<le> n \<and> n \<le> 90 then char_of (n + 32) else c) s"

definition HelloRequest_Handle :: "string \<Rightarrow> string \<Rightarrow> string" where
  "HelloRequest_Handle who question =
     (let question = ToLower question;
          answer =
            (if str_contains question ''who are you'' then ''I am hello server''
             else if str_contains question ''how are you'' then ''I am good''
             else ''I don't know'')
      in answer @ '', '' @ who)"

lemma ToLower_idem: "ToLower (ToLower s) = ToLower s"
  by (simp add: ToLower_def Let_def)

text \<open>Letters may be written in any case.\<close>

lemma hello_ignores_case: "HelloRequest_Handle who (ToLower question) = HelloRequest_Handle who question"
  by (simp add: HelloRequest_Handle_def ToLower_idem)

section \<open>The chain of services\<close>

type_synonym finder = "string \<Rightarrow> (string \<Rightarrow> string + string) option"

definition not_found :: "string \<Rightarrow> string" where
  "not_found s = errServiceNotFound_Error (ErrServiceNotFound ''example'' s)"

definition svcb_Handle :: "string \<Rightarrow> string \<Rightarrow> string + string" where
  "svcb_Handle info input = Inr (input @ '' '' @ info @ '' service b'')"

definition svcd_Handle :: "string \<Rightarrow> string \<Rightarrow> string + string" where
  "svcd_Handle info input = Inr (input @ '' '' @ info @ '' service d'')"

definition svcc_Handle :: "finder \<Rightarrow> string \<Rightarrow> string \<Rightarrow> string + string" where
  "svcc_Handle discover info input =
     (case discover ''serviceD'' of
        None \<Rightarrow> Inl (not_found ''serviceD'')
      | Some connd \<Rightarrow>
          (case connd ''depend'' of
             Inl err \<Rightarrow> Inl err
           | Inr repd \<Rightarrow> Inr (input @ '' '' @ info @ '' service c('' @ repd @ '')'')))"

definition svca_Handle :: "finder \<Rightarrow> string \<Rightarrow> string \<Rightarrow> string + string" where
  "svca_Handle discover info input =
     (case discover ''serviceB'' of
        None \<Rightarrow> Inl (not_found ''serviceB'')
      | Some connb \<Rightarrow>
          (case connb ''depend'' of
             Inl err \<Rightarrow> Inl err
           | Inr repb \<Rightarrow>
               (case discover ''serviceC'' of
                  None \<Rightarrow> Inl (not_found ''serviceC'')
                | Some connc \<Rightarrow>
                    (case connc ''depend'' of
                       Inl err \<Rightarrow> Inl err
                     | Inr repc \<Rightarrow> Inr (input @ '' '' @ info @ '' service a('' @ repb @ '', '' @ repc @ '')'')))))"

text \<open>The services as \<open>RunService\<close> of each starts them; \<open>up\<close> says which of them run. C and A use the same services as a client.\<close>

definition chain_leaf :: "(string \<Rightarrow> bool) \<Rightarrow> finder" where
  "chain_leaf up s = (if up s \<and> s = ''serviceB'' then Some (svcb_Handle ''Hello'') else
     if up s \<and> s = ''serviceD'' then Some (svcd_Handle ''Hello'') else None)"

definition chain :: "(string \<Rightarrow> bool) \<Rightarrow> finder" where
  "chain up s = (if up s \<and> s = ''serviceC'' then Some (svcc_Handle (chain_leaf up) ''Hello'') else chain_leaf up s)"

text \<open>A request is answered through all services, and the first missing one in the order of the calls is named in the error.\<close>

lemma service_chain:
  "svca_Handle (chain up) ''Hello'' input =
     (if \<not> up ''serviceB'' then Inl (not_found ''serviceB'')
      else if \<not> up ''serviceC'' then Inl (not_found ''serviceC'')
      else if \<not> up ''serviceD'' then Inl (not_found ''serviceD'')
      else Inr (input @ '' Hello service a(depend Hello service b, depend Hello service c(depend Hello service d))''))"
  by (simp add: svca_Handle_def svcb_Handle_def svcc_Handle_def svcd_Handle_def chain_def chain_leaf_def)

section \<open>Select provider\<close>

text \<open>The handler counts its requests; \<open>%v\<close> prints the counter as a signed number.\<close>

definition selectme_Handle :: "string \<Rightarrow> 32 word \<Rightarrow> 32 word \<times> string" where
  "selectme_Handle laddr counter =
     (let count = counter + 1; i = sint count
      in (count, ''thanks for selecting me '' @ show_int i @ ''@'' @ laddr))"

end
