(* ===== verification/ExampleServers.thy ===== *)
theory ExampleServers
  imports Process Examples
begin

text \<open>
  The programs of the small examples: how their services are started (\<open>RunService\<close>, the \<open>main\<close> functions of the servers), and what their clients
  print. Parsing flags is outside: their values are arguments; a logger is no option of the model. A server that goes on serving is the
  result \<open>None\<close> of \<open>Serve\<close>; what a client finds is an argument as in \<open>Examples\<close>.
\<close>

unbundle bit_operations_syntax

section \<open>Servers\<close>

text \<open>\<open>if err := s.Publish(...); err != nil { return err }; return s.Serve()\<close>\<close>

definition publish_and_serve ::
  "env \<Rightarrow> errorRecover list \<Rightarrow> result outcome \<Rightarrow> (string option option \<times> Server \<times> netState) outcome" where
  "publish_and_serve e ers pub =
     bind_outcome pub (\<lambda>(err, s, st). case err of Some er \<Rightarrow> Ret (Some (Some er), s, st) | None \<Rightarrow> Serve e ers s st)"

type_synonym runner = "env \<Rightarrow> errorRecover list \<Rightarrow> Option list \<Rightarrow> netState \<Rightarrow> (string option option \<times> Server \<times> netState) outcome"

definition run_service :: "string \<Rightarrow> gotype list \<Rightarrow> ServiceOption list \<Rightarrow> runner" where
  "run_service name known sopts e ers opts st =
     bind_outcome (SetPublisher ''example'' (NewServer opts)) (\<lambda>s. publish_and_serve e ers (Publish e name known sopts s st))"

definition svca_RunService :: runner where
  "svca_RunService = run_service ''serviceA'' [TPtr (TName ''svca.Request'')] [OnNewStreamFunc]"

definition svcb_RunService :: runner where
  "svcb_RunService = run_service ''serviceB'' [TPtr (TName ''svcb.Request'')] [OnNewStreamFunc]"

definition svcc_RunService :: runner where
  "svcc_RunService = run_service ''serviceC'' [TPtr (TName ''svcc.Request'')] [OnNewStreamFunc]"

definition svcd_RunService :: runner where
  "svcd_RunService = run_service ''serviceD'' [TPtr (TName ''svcd.Request'')] [OnNewStreamFunc]"

definition echo_Run :: runner where
  "echo_Run = run_service ''echo.v1.0''
     [TPtr (TName ''server.MessageRequest''), TName ''server.SubWhoElseEvent'', TName ''server.WhoElse'', TName ''server.MessageTimeout'']
     [OnNewStreamFunc, OnStreamCloseFunc, OnConnectFunc, OnDisconnectFunc]"

definition hello_server :: runner where
  "hello_server e ers opts st =
     bind_outcome (SetPublisher ''example'' (NewServer opts)) (\<lambda>s.
       publish_and_serve e ers (Publish e ''hello'' [TName ''message.HelloRequest''] [] (EnableMessageTracer s) st))"

definition msgtracer_main :: runner where
  "msgtracer_main e ers opts st = Serve e ers (EnableMessageTracer (NewServer opts)) st"

definition PublishTemplateService :: "env \<Rightarrow> Server \<Rightarrow> netState \<Rightarrow> result outcome" where
  "PublishTemplateService e s st = Publish e ''template'' [TPtr (TName ''template.Request'')] [OnNewStreamFunc] s st"

definition template_server :: runner where
  "template_server e ers opts st =
     bind_outcome (SetPublisher ''example'' (NewServer opts)) (\<lambda>s. publish_and_serve e ers (PublishTemplateService e s st))"

text \<open>The service of \<open>selectprovider\<close> has a random name, and its server a random provider ID.\<close>

definition selectme_RunService ::
  "8 word list \<Rightarrow> env \<Rightarrow> errorRecover list \<Rightarrow> Server \<Rightarrow> netState \<Rightarrow> (string option option \<times> Server \<times> netState) outcome" where
  "selectme_RunService rnd e ers s st =
     bind_outcome (SetPublisher ''example'' s) (\<lambda>s. publish_and_serve e ers
       (PublishIn e ScopeLAN (''selectme-'' @ hex_EncodeToString rnd) [TPtr (TName ''selectme.Request'')] [OnNewStreamFunc] s st))"

definition selectme_server ::
  "int \<Rightarrow> int \<Rightarrow> int \<Rightarrow> 8 word list \<Rightarrow> 8 word list \<Rightarrow> env \<Rightarrow> errorRecover list \<Rightarrow> netState \<Rightarrow>
   (string option option \<times> Server \<times> netState) outcome" where
  "selectme_server bcast nworkers weight rnd rnd' e ers st =
     selectme_RunService rnd' e ers
       (SetScaleFactors nworkers 0 weight
         (SetBroadcastPort (show_int bcast) (NewServer [WithProviderID (hex_EncodeToString rnd)]))) st"

text \<open>
  \<open>oneserver\<close> runs the four services in one process, each in a goroutine. Here they start one after the other, in any order; \<open>None\<close> is that one
  of them has returned.
\<close>

definition chain_RunService :: "string \<Rightarrow> runner" where
  "chain_RunService name =
     (if name = ''serviceA'' then svca_RunService else if name = ''serviceB'' then svcb_RunService
      else if name = ''serviceC'' then svcc_RunService else svcd_RunService)"

fun oneserver :: "env \<Rightarrow> Option list \<Rightarrow> string list \<Rightarrow> netState \<Rightarrow> netState option outcome" where
  "oneserver e opts [] st = Ret (Some st)"
| "oneserver e opts (name # names) st =
     bind_outcome (chain_RunService name e [] opts st) (\<lambda>(r, s, st). case r of None \<Rightarrow> oneserver e opts names st | Some err \<Rightarrow> Ret None)"

text \<open>The programs of the single services print the error that ended them; one that goes on serving has printed nothing.\<close>

definition run_main :: "runner \<Rightarrow> env \<Rightarrow> errorRecover list \<Rightarrow> netState \<Rightarrow> string list outcome" where
  "run_main run e ers st =
     bind_outcome (run e ers [] st) (\<lambda>(r, s, st).
       Ret (case r of None \<Rightarrow> [] | Some err \<Rightarrow> (case err of None \<Rightarrow> [] | Some er \<Rightarrow> [er]) @ [''done'']))"

definition svca_main where "svca_main = run_main svca_RunService"
definition svcb_main where "svcb_main = run_main svcb_RunService"
definition svcc_main where "svcc_main = run_main svcc_RunService"
definition svcd_main where "svcd_main = run_main svcd_RunService"

section \<open>Clients\<close>

definition template_Handle :: "string \<Rightarrow> string \<Rightarrow> string + string" where
  "template_Handle info input = Inr (input @ '' '' @ info @ '' template'')"

definition template_client :: "finder \<Rightarrow> string list" where
  "template_client discover =
     (case discover ''template'' of
        None \<Rightarrow> [not_found ''template'']
      | Some conn \<Rightarrow> (case conn ''Ni Hao'' of Inl err \<Rightarrow> [err] | Inr txt \<Rightarrow> [txt]))"

text \<open>A connection to a service with a state; the loop of requests ends at the first error.\<close>

fun request_loop :: "nat \<Rightarrow> ('s \<Rightarrow> 's \<times> (string + string)) \<Rightarrow> 's \<Rightarrow> string list \<times> 's \<times> bool" where
  "request_loop 0 conn s = ([], s, True)"
| "request_loop (Suc n) conn s =
     (case conn s of
        (s', Inl err) \<Rightarrow> ([err], s', False)
      | (s', Inr txt) \<Rightarrow> (case request_loop n conn s' of (ls, s'', ok) \<Rightarrow> (txt # ls, s'', ok)))"

definition selectprovider_client :: "('s \<Rightarrow> 's \<times> (string + string)) option \<Rightarrow> int \<Rightarrow> 's \<Rightarrow> string list \<times> 's" where
  "selectprovider_client conn num s =
     (case conn of
        None \<Rightarrow> ([not_found ''selectme''], s)
      | Some conn \<Rightarrow> (case request_loop (nat num) conn s of (ls, s', ok) \<Rightarrow> (ls @ (if ok then [''done''] else []), s')))"

text \<open>The results of \<open>TraceMsgByType\<close> and of the two reads are arguments: a token or text, and an error if there is one.\<close>

definition print_error :: "string option \<Rightarrow> string list" where
  "print_error err = (case err of None \<Rightarrow> [] | Some er \<Rightarrow> [er])"

definition hello_client ::
  "(string \<Rightarrow> string \<Rightarrow> string + string) option \<Rightarrow> string \<times> string option \<Rightarrow> string \<times> string option \<Rightarrow> string \<times> string option \<Rightarrow> string list" where
  "hello_client conn trace read1 read2 =
     (case conn of
        None \<Rightarrow> [not_found ''hello'']
      | Some conn \<Rightarrow>
          (let (token, err) = trace;
               (ls, s, ok) = request_loop 5 (\<lambda>s. (s, conn ''J'' ''who are you'')) ()
           in print_error err @ ls @
              (if \<not> ok then []
               else print_error (snd read1) @ [[], ''tracing records with token: '' @ token, fst read1] @
                    print_error (snd read2) @ [show_nat (length (fst read2))])))"

definition msgtracing_client :: "finder \<Rightarrow> string \<times> string option \<Rightarrow> string \<times> string option \<Rightarrow> string list" where
  "msgtracing_client discover trace read =
     (case discover ''serviceA'' of
        None \<Rightarrow> [not_found ''serviceA'']
      | Some conn \<Rightarrow>
          print_error (snd trace) @
          (case conn ''Zai Ma'' of
             Inl err \<Rightarrow> [err]
           | Inr out1 \<Rightarrow>
               out1 # (case conn ''Ni Hao'' of
                         Inl err \<Rightarrow> [err]
                       | Inr out2 \<Rightarrow> [out2] @ print_error (snd read) @ [[], ''tracing records with token: '' @ fst trace, fst read])))"

text \<open>The command \<open>whoelse\<close> of the echo client: its requests, and the goroutine that prints the events it receives until an error.\<close>

definition whoelse_requests :: "('s \<Rightarrow> 's \<times> (string + string)) \<Rightarrow> 's \<Rightarrow> string list \<times> 's \<times> bool" where
  "whoelse_requests conn =
     request_loop 200 (\<lambda>s. case conn s of (s', Inl err) \<Rightarrow> (s', Inl err) | (s', Inr whoelse) \<Rightarrow> (s', Inr (''clients: '' @ whoelse)))"

fun whoelse_events :: "(string + string) list \<Rightarrow> string list" where
  "whoelse_events [] = []"
| "whoelse_events (Inl err # rs) = [err]"
| "whoelse_events (Inr a # rs) = (''event: new client '' @ a) # whoelse_events rs"

text \<open>The provider numbers the requests it was selected for.\<close>

definition selectme_conn :: "string \<Rightarrow> 32 word \<Rightarrow> 32 word \<times> (string + string)" where
  "selectme_conn laddr counter = (case selectme_Handle laddr counter of (c, txt) \<Rightarrow> (c, Inr txt))"

lemma selectme_numbers:
  "selectprovider_client (Some (selectme_conn laddr)) (int n) counter =
     (map (\<lambda>k. ''thanks for selecting me '' @ show_int (sint (counter + of_nat k)) @ ''@'' @ laddr) [1..<Suc n] @ [''done''],
      counter + of_nat n)"
proof -
  have "request_loop n (selectme_conn laddr) c =
      (map (\<lambda>k. ''thanks for selecting me '' @ show_int (sint (c + of_nat k)) @ ''@'' @ laddr) [1..<Suc n], c + of_nat n, True)" for c
  proof (induction n arbitrary: c)
    case (Suc n)
    have "[1..<Suc (Suc n)] = 1 # map Suc [1..<Suc n]" by (simp add: upt_conv_Cons map_Suc_upt del: upt_Suc)
    then show ?case
      using Suc [of "c + 1"] by (simp add: selectme_conn_def selectme_Handle_def Let_def add.assoc comp_def del: upt_Suc)
  qed simp
  then show ?thesis by (simp add: selectprovider_client_def del: upt_Suc)
qed

section \<open>Servers that serve\<close>

text \<open>
  A server that was initialised and has kept the scopes of its host: initialisation only gives up the scopes of the network.
\<close>

abbreviation local_scopes :: Scope where
  "local_scopes \<equiv> ScopeProcess OR ScopeOS"

definition ready :: "Scope \<Rightarrow> Server \<Rightarrow> bool" where
  "ready sc s \<longleftrightarrow> initialized s \<and> scope s AND local_scopes = sc AND local_scopes"

definition makes_ready :: "Scope \<Rightarrow> result outcome \<Rightarrow> bool" where
  "makes_ready sc m \<longleftrightarrow> (\<forall>err s st. m = Ret (err, s, st) \<longrightarrow> ready sc s)"

named_theorems ready_rules

lemma ready_Ret [ready_rules]: "ready sc s \<Longrightarrow> makes_ready sc (Ret (err, s, st))"
  by (simp add: makes_ready_def)

lemma ready_Panic [ready_rules]: "makes_ready sc (Panic e)"
  by (simp add: makes_ready_def)

lemma ready_and_then [ready_rules]:
  "makes_ready sc m \<Longrightarrow> (\<And>s st. ready sc s \<Longrightarrow> makes_ready sc (f s st)) \<Longrightarrow> makes_ready sc (and_then m f)"
  by (cases m) (fastforce simp: makes_ready_def and_then_def split: option.splits)+

lemma ready_if_do [ready_rules]: "ready sc s \<Longrightarrow> makes_ready sc (f s st) \<Longrightarrow> makes_ready sc (if_do b f s st)"
  by (simp add: if_do_def makes_ready_def)

lemma ready_fields [simp]:
  "ready sc (addCloser c s) = ready sc s" "ready sc (s\<lparr>providerID := i\<rparr>) = ready sc s" "ready sc (s\<lparr>registryAddr := a\<rparr>) = ready sc s"
  by (simp_all add: ready_def addCloser_def)

lemma ready_fewer [simp]:
  "ready sc (s\<lparr>scope := scope s AND NOT ScopeLAN\<rparr>) = ready sc s" "ready sc (s\<lparr>scope := scope s AND NOT ScopeWAN\<rparr>) = ready sc s"
proof -
  have "(x AND NOT ScopeLAN) AND local_scopes = x AND local_scopes" "(x AND NOT ScopeWAN) AND local_scopes = x AND local_scopes" for x :: Scope
    by (simp_all add: and.assoc ScopeLAN_def ScopeWAN_def ScopeProcess_def ScopeOS_def)
  then show "ready sc (s\<lparr>scope := scope s AND NOT ScopeLAN\<rparr>) = ready sc s" "ready sc (s\<lparr>scope := scope s AND NOT ScopeWAN\<rparr>) = ready sc s"
    by (simp_all add: ready_def)
qed

lemma ready_transports [ready_rules]:
  "ready sc s \<Longrightarrow> makes_ready sc (newChanTransport svc s st)" "ready sc s \<Longrightarrow> makes_ready sc (newUDSTransport e svc s st)"
  "ready sc s \<Longrightarrow> makes_ready sc (newTCPTransport e port svc s st)"
  by (auto simp: makes_ready_def newChanTransport_def bind_outcome_Ret_iff newUDSTransport_def newTCPTransport_def Let_def
      split: option.splits sum.splits if_splits prod.splits)

lemma ready_open [ready_rules]: "ready sc s \<Longrightarrow> makes_ready sc (open_transports e sc' svc s st)"
  unfolding open_transports_def by (intro ready_rules) assumption+

lemma ready_plain [ready_rules]: "ready sc s \<Longrightarrow> makes_ready sc (publish_plain e sc' p n known opts s st)"
  unfolding publish_plain_def Let_def by (intro ready_rules)

lemma ready_initProviderID [ready_rules]: "ready sc s \<Longrightarrow> makes_ready sc (initProviderID e s st)"
  by (auto simp: initProviderID_def publishProviderInfoService_def Let_def intro!: ready_rules split: prod.splits option.splits)

lemma ready_init_lan [ready_rules]: "ready sc s \<Longrightarrow> makes_ready sc (init_lan e s st)"
  by (auto simp: init_lan_def publishLANRegistryService_def intro!: ready_rules split: option.splits)

lemma ready_init_wan [ready_rules]: "ready sc s \<Longrightarrow> makes_ready sc (init_wan e s st)"
  by (auto simp: init_wan_def publishRegistryInfoService_def intro!: ready_rules split: option.splits)

lemma ready_init_root [ready_rules]: "ready sc s \<Longrightarrow> makes_ready sc (init_root e s st)"
  by (auto simp: init_root_def startRootRegistry_def intro!: ready_rules)

lemma ready_init_proxy [ready_rules]: "ready sc s \<Longrightarrow> makes_ready sc (init_proxy e s st)"
  by (auto simp: init_proxy_def intro!: ready_rules)

lemma ready_server_init: "\<not> initialized s \<Longrightarrow> makes_ready (scope s) (server_init e s st)"
proof -
  assume i: "\<not> initialized s"
  have "ready (scope s) (addCloser CloseMsgQ (s\<lparr>initialized := True, srv_mq := mq\<rparr>))" for mq
    by (simp add: ready_def addCloser_def)
  then show ?thesis unfolding server_init_def Let_def if_not_P [OF i] by (intro ready_rules) assumption+
qed

lemma ready_publish:
  assumes "\<not> initialized s"
  shows "makes_ready (scope s) (publish e sc p n known opts s st)"
  unfolding publish_def Let_def
proof (rule ready_and_then)
  show "makes_ready (scope s) (if_do (\<not> initialized s) (server_init e) s st)"
    using ready_server_init [OF assms] assms by (simp add: if_do_def)
qed (intro ready_rules, assumption+)

lemma publish_after_init:
  assumes "\<not> initialized s" and "publish e sc p n known opts s st = Ret (None, s', st')"
  shows "\<exists>s1 st1. server_init e s st = Ret (None, s1, st1) \<and> (initialized s1 \<longrightarrow> publish e sc p n known opts s1 st1 = Ret (None, s', st'))"
proof -
  define f where "f = (\<lambda>s st. let sc = scope s AND sc; svc = fold apply_service_option opts (newService s sc p n known)
    in and_then (if_do (useNamedUDS svc) (initProviderID e) s st) (\<lambda>s st.
         let svc = (if useNamedUDS svc then svc\<lparr>svc_providerID := providerID s\<rparr> else svc) in open_transports e sc svc s st))"
  have f: "publish e sc p n known opts s st = and_then (if_do (\<not> initialized s) (server_init e) s st) f" for s st
    by (simp only: publish_def f_def)
  from and_then_success [OF assms(2) [unfolded f]] assms(1) show ?thesis
    unfolding f by (auto simp: if_do_def) (auto simp: and_then_def)
qed

text \<open>A service of the process with its socket.\<close>

definition serves :: "string \<Rightarrow> string \<Rightarrow> netState \<Rightarrow> bool" where
  "serves p n st \<longleftrightarrow>
     (case map_of (n_table st) (toPublisherServiceName p n) of None \<Rightarrow> False | Some svc \<Rightarrow> publisherName svc = p \<and> serviceName svc = n) \<and>
     toUDSAddr p n False [] \<in> set (n_unix st)"

lemma serves_kept: "owned st0 s st \<Longrightarrow> serves p n st0 \<Longrightarrow> serves p n st"
proof -
  assume o: "owned st0 s st" and s: "serves p n st0"
  then obtain svc where svc: "map_of (n_table st0) (toPublisherServiceName p n) = Some svc" "publisherName svc = p" "serviceName svc = n"
    by (auto simp: serves_def split: option.splits)
  then have "map_of (List.map_filter chan_of (closers s)) (toPublisherServiceName p n) = None"
    using o by (metis map_of_eq_None_iff option.distinct(1) owned_def)
  with o s svc show ?thesis by (auto simp: owned_def serves_def listens_on_def map_add_def)
qed

lemma has_local_scopes: "x AND local_scopes = local_scopes \<Longrightarrow> in_scope x ScopeProcess \<and> in_scope x ScopeOS"
proof -
  assume x: "x AND local_scopes = local_scopes"
  have "x AND ScopeProcess = (x AND local_scopes) AND ScopeProcess" "x AND ScopeOS = (x AND local_scopes) AND ScopeOS"
    by (simp_all add: and.assoc ScopeProcess_def ScopeOS_def)
  then show ?thesis unfolding x by (simp add: in_scope_def ScopeProcess_def ScopeOS_def)
qed

text \<open>A new server that publishes in the scopes of its host.\<close>

lemma publish_serves:
  assumes "fresh_ports e" and "UseNamedUDS \<notin> set opts" and "closers s = []" and "\<not> initialized s"
    and "scope s AND local_scopes = local_scopes" and "sc AND local_scopes = local_scopes"
    and "publish e sc p n known opts s st = Ret (None, s', st')"
  shows "serves p n st' \<and> owned st s' st' \<and> initialized s'"
proof -
  obtain s1 st1 where init: "server_init e s st = Ret (None, s1, st1)"
    and rest: "initialized s1 \<Longrightarrow> publish e sc p n known opts s1 st1 = Ret (None, s', st')"
    using publish_after_init [OF assms(4,7)] by blast
  have r1: "ready (scope s) s1" using ready_server_init [OF assms(4), of e st] init by (simp add: makes_ready_def)
  then have i: "initialized s1" by (simp add: ready_def)
  have pub: "published (scope s1 AND sc) (fold apply_service_option opts (newService s1 (scope s1 AND sc) p n known)) s1 st1 s' st'"
    using publish_opens [OF i assms(2) rest [OF i]] by (rule open_success)
  have "(scope s1 AND sc) AND local_scopes = local_scopes" using r1 assms(5,6) by (metis and.assoc ready_def)
  then have sc: "in_scope (scope s1 AND sc) ScopeProcess" "in_scope (scope s1 AND sc) ScopeOS" using has_local_scopes by blast+
  have "serves p n st'"
    using pub sc assms(2)
    by (auto simp: serves_def published_def svc_name_def Let_def options_keep_names named_by_option newService_def anon_addr_of_name)
  moreover have "owned st s st" using assms(3) by (simp add: owned_def listens_on_def map_filter_simps)
  then have "owned st s' st'" using keeps_publish [OF assms(1)] assms(7) by (auto simp: keeps_def)
  moreover have "initialized s'" using ready_publish [OF assms(4), of e sc p n known opts st] assms(7) by (simp add: makes_ready_def ready_def)
  ultimately show ?thesis by blast
qed

lemma options_new:
  fixes c :: Server
  shows "closers (fold apply_option opts c) = closers c \<and> initialized (fold apply_option opts c) = initialized c"
proof (induction opts arbitrary: c)
  case (Cons x xs)
  then show ?case by (cases x) simp_all
qed simp

lemma run_service_serves:
  assumes "fresh_ports e" and "UseNamedUDS \<notin> set sopts" and "scope (NewServer opts) AND local_scopes = local_scopes"
    and "run_service name known sopts e [] opts st = Ret (None, s', st')"
  shows "serves ''example'' name st' \<and> owned st s' st'"
proof -
  let ?s = "(NewServer opts)\<lparr>srv_publisher := ''example''\<rparr>"
  have p: "SetPublisher ''example'' (NewServer opts) = Ret ?s" by (simp add: SetPublisher_def checkNameConvention_def)
  from assms(4) obtain s1 st1 where pub: "Publish e name known sopts ?s st = Ret (None, s1, st1)" and serve: "Serve e [] s1 st1 = Ret (None, s', st')"
    by (auto simp: run_service_def p publish_and_serve_def bind_outcome_Ret_iff split: option.splits)
  have "publish e (scope ?s) ''example'' name known sopts ?s st = Ret (None, s1, st1)"
    using pub by (simp add: Publish_def split: option.splits)
  from publish_serves [OF assms(1,2) _ _ _ _ this] have "serves ''example'' name st1 \<and> owned st s1 st1 \<and> initialized s1"
    using assms(3) options_new by (simp add: NewServer_def)
  moreover from this have "s1 = s' \<and> st1 = st'" using serve by (simp add: Serve_def if_do_def)
  ultimately show ?thesis by blast
qed

lemma chain_serves:
  assumes "fresh_ports e" and "scope (NewServer opts) AND local_scopes = local_scopes"
    and "name \<in> {''serviceA'', ''serviceB'', ''serviceC'', ''serviceD''}"
    and "chain_RunService name e [] opts st = Ret (None, s', st')"
  shows "serves ''example'' name st' \<and> owned st s' st'"
proof -
  obtain known where "chain_RunService name = run_service name known [OnNewStreamFunc]"
    using assms(3) by (auto simp: chain_RunService_def svca_RunService_def svcb_RunService_def svcc_RunService_def svcd_RunService_def)
  then show ?thesis using run_service_serves [OF assms(1) _ assms(2), of "[OnNewStreamFunc]" name known] assms(4) by simp
qed

lemma oneserver_serves:
  assumes "fresh_ports e" and "scope (NewServer opts) AND local_scopes = local_scopes"
  shows "set names \<subseteq> {''serviceA'', ''serviceB'', ''serviceC'', ''serviceD''} \<Longrightarrow> oneserver e opts names st = Ret (Some st') \<Longrightarrow>
    (\<forall>n\<in>set names. serves ''example'' n st') \<and> (\<forall>p n. serves p n st \<longrightarrow> serves p n st')"
proof (induction names arbitrary: st)
  case (Cons name names)
  from Cons.prems(2) obtain s1 st1 where one: "chain_RunService name e [] opts st = Ret (None, s1, st1)" and rest: "oneserver e opts names st1 = Ret (Some st')"
    by (auto simp: bind_outcome_Ret_iff split: option.splits)
  have "serves ''example'' name st1 \<and> owned st s1 st1" using chain_serves [OF assms _ one] Cons.prems(1) by simp
  then show ?case using Cons.IH [OF _ rest] Cons.prems(1) serves_kept by auto
qed simp

section \<open>Properties\<close>

text \<open>What a client without options finds in its process: a connection whose service has the name it looked for.\<close>

definition found_in_process :: "'f::linorder world \<Rightarrow> (int \<Rightarrow> int \<Rightarrow> 'f) \<Rightarrow> ('f \<Rightarrow> 'f) \<Rightarrow> string option \<Rightarrow> string \<Rightarrow> bool" where
  "found_in_process w fdiv fneg selfID s =
     (case Discover fdiv fneg selfID ''example'' s [] [w] (NewClient []) of
        Ret (Some d) \<Rightarrow> (case connections d of ChanConn svc # _ \<Rightarrow> serviceName svc = s | _ \<Rightarrow> False)
      | _ \<Rightarrow> False)"

lemma serves_found:
  fixes fdiv :: "int \<Rightarrow> int \<Rightarrow> 'f::linorder"
  assumes "serves ''example'' s st" and "CHR ''*'' \<notin> set s" and "w_table w = n_table st"
  shows "found_in_process w fdiv fneg selfID s"
proof -
  obtain svc where svc: "map_of (w_table w) (toPublisherServiceName ''example'' s) = Some svc" "serviceName svc = s"
    using assms(1,3) by (auto simp: serves_def split: option.splits)
  have "CHR ''*'' \<notin> set (''example'' @ s)" using assms(2) by simp
  from discover_prefers_process [OF client_scopes(1) this svc(1), of fdiv fneg selfID "[]"] svc(2) show ?thesis
    by (auto simp: found_in_process_def)
qed

text \<open>
  C17 (\<open>oneserver\<close>): when the four services of the chain were started in one process, in whatever order and beside whatever else runs there, and
  none of them has returned, every handler finds the services it calls in the process, so that a request to A is answered through B, C and D; and a client
  of another process gets a connection to A's socket.
\<close>

theorem oneserver_answers:
  fixes fdiv :: "int \<Rightarrow> int \<Rightarrow> 'f::linorder"
  assumes "fresh_ports e" and "oneserver e [] names st = Ret (Some st')"
    and "set names = {''serviceA'', ''serviceB'', ''serviceC'', ''serviceD''}" and "w_table w = n_table st'"
    and "map_of (w_table w') (toPublisherServiceName ''example'' ''serviceA'') = None" and "w_proc w' = Some b" and "proc_shows b (n_unix st')"
    and "w_dial w' (toUDSAddr ''example'' ''serviceA'' False [])"
  shows "svca_Handle (chain (found_in_process w fdiv fneg selfID)) ''Hello'' input =
      Inr (input @ '' Hello service a(depend Hello service b, depend Hello service c(depend Hello service d))'') \<and>
    (\<exists>d. Discover fdiv fneg selfID ''example'' ''serviceA'' [] (w' # ws) (NewClient []) = Ret (Some d) \<and>
       connections d = [StreamConn (toUDSAddr ''example'' ''serviceA'' False [])])"
proof -
  have "scope (NewServer []) AND local_scopes = local_scopes"
    by (simp add: NewServer_def newConf_def ScopeAll_def ScopeProcess_def ScopeOS_def ScopeLAN_def ScopeWAN_def)
  from oneserver_serves [OF assms(1) this _ assms(2)] have s: "\<And>n. n \<in> set names \<Longrightarrow> serves ''example'' n st'" using assms(3) by auto
  have f: "found_in_process w fdiv fneg selfID n" if "n \<in> {''serviceB'', ''serviceC'', ''serviceD''}" for n
    using that by (intro serves_found [OF s _ assms(4)]) (auto simp: assms(3))
  have "toUDSAddr ''example'' ''serviceA'' False [] \<in> set (n_unix st')" using s [of "''serviceA''"] assms(3) by (simp add: serves_def)
  moreover have "valid_name ''example''" "valid_name ''serviceA''" by (simp_all add: checkNameConvention_def)
  ultimately show ?thesis
    using discover_on_host [OF _ _ _ client_scopes(2) assms(5,6,7) _ assms(8), of fdiv fneg selfID ws] f by (simp add: service_chain)
qed

definition demo_chain :: "string list" where
  "demo_chain = [''serviceD'', ''serviceA'', ''serviceC'', ''serviceB'']"

definition demo_unix :: "string list" where
  "demo_unix = ''@adaptiveservice/builtin_providerInfo.sock'' # map (\<lambda>n. ''@adaptiveservice/example_'' @ n @ ''.sock'') demo_chain"

lemma demo_oneserver: "case oneserver demo_env [] demo_chain demo_net of Ret (Some st) \<Rightarrow> n_unix st = demo_unix | _ \<Rightarrow> False"
  by code_simp

definition demo_chain_proc :: string where
  "demo_chain_proc = ''Num RefCount Protocol Flags Type St Inode Path'' @ [CHR 0x0A] @
     concat (map (\<lambda>a. ''0: 2 0 10000 1 1 77 '' @ a @ [CHR 0x0A]) demo_unix)"

lemma demo_chain_addrs: "socket_addrs (drop 1 (terminated_lines demo_chain_proc)) = demo_unix"
  by code_simp

lemma demo_chain_shown: "proc_shows demo_chain_proc demo_unix"
proof -
  have eq: "demo_unix = toUDSAddr ''builtin'' ''providerInfo'' False [] # map (\<lambda>n. toUDSAddr ''example'' n False []) demo_chain"
    by (simp add: demo_unix_def anon_addr_of_name udsRegistryAnon_def toPublisherServiceName_def)
  have "\<forall>a\<in>set demo_unix. \<exists>p s i. a = toUDSAddr p s False i" unfolding eq by fastforce
  then show ?thesis unfolding proc_shows_def demo_chain_addrs Let_def by blast
qed

theorem oneserver_answers_witness:
  "\<exists>st d. oneserver demo_env [] demo_chain demo_net = Ret (Some st) \<and>
     svca_Handle (chain (found_in_process (demo_world (n_table st)) (\<lambda>x y. x) (\<lambda>x. x) None)) ''Hello'' ''Ni Hao'' =
       Inr ''Ni Hao Hello service a(depend Hello service b, depend Hello service c(depend Hello service d))'' \<and>
     Discover (\<lambda>x y. x) (\<lambda>x. x) None ''example'' ''serviceA'' [] [(demo_world [])\<lparr>w_proc := Some demo_chain_proc\<rparr>] (NewClient []) = Ret (Some d) \<and>
     connections d = [StreamConn ''@adaptiveservice/example_serviceA.sock'']"
proof -
  obtain st where st: "oneserver demo_env [] demo_chain demo_net = Ret (Some st)" "n_unix st = demo_unix"
    using demo_oneserver by (auto split: outcome.splits option.splits)
  have f: "fresh_ports demo_env" by (simp add: fresh_ports_def demo_env_def)
  have "set demo_chain = {''serviceA'', ''serviceB'', ''serviceC'', ''serviceD''}" by (auto simp: demo_chain_def)
  moreover have "toUDSAddr ''example'' ''serviceA'' False [] = ''@adaptiveservice/example_serviceA.sock''"
    by (simp add: anon_addr_of_name udsRegistryAnon_def toPublisherServiceName_def)
  ultimately show ?thesis
    using oneserver_answers [OF f st(1), of "demo_world (n_table st)" "(demo_world [])\<lparr>w_proc := Some demo_chain_proc\<rparr>" demo_chain_proc
        "\<lambda>x y. x" "\<lambda>x. x" None "''Ni Hao''" "[]"] demo_chain_shown st
    by (simp add: demo_world_def)
qed

text \<open>
  The order does not matter only as long as the servers start one after the other. \<open>oneserver\<close> starts them at the same time, and when two of
  them have looked for the provider info service before one of them has published it, both publish it, and the second panics.
\<close>

lemma concurrent_init_panics:
  assumes "publishProviderInfoService e s1 st = Ret (None, s1', st')" and "ready sc s1" and "ready sc s2" and "sc AND local_scopes = local_scopes"
    and "length (providerID s2) \<noteq> 0"
  shows "publishProviderInfoService e s2 st' = Panic (''registering duplicated channel for '' @ builtin_name SrvProviderInfo)"
proof -
  have local: "in_scope (scope s AND local_scopes) ScopeProcess" if "ready sc s" for s :: Server
    using that assms(4) has_local_scopes by (simp add: ready_def)
  let ?svc = "newService s1 (scope s1 AND local_scopes) BuiltinPublisher SrvProviderInfo [ptr ''ReqProviderInfo'']"
  obtain st1 where "open_transports e (scope s1 AND local_scopes) ?svc s1 st1 = Ret (None, s1', st')"
    using assms(1) by (auto simp: publishProviderInfoService_def publish_plain_def Let_def split: if_splits)
  then have "map_of (n_table st') (svc_name ?svc) = Some ?svc"
    using open_success local [OF assms(2)] by (fastforce simp: published_def Let_def)
  then show ?thesis
    using local [OF assms(3)] assms(5)
    by (simp add: publishProviderInfoService_def publish_plain_def open_transports_def if_do_def newChanTransport_def regServiceChan_def
        svc_name_def newService_def builtin_name_def Let_def and_then_def)
qed

end
