(* ===== verification/ChanConnection.thy ===== *)
theory ChanConnection
  imports Connection
begin

text \<open>
  Connections over channels, from dialling to their end: \<open>newConnection\<close> and \<open>Close\<close> in \<open>chantransportclient.go\<close>, the
  accept loop of \<open>receiver\<close> and the goroutine it starts for each connection in \<open>chantransportserver.go\<close>. The
  channels \<open>acceptChan\<close> and \<open>serverChanInfo\<close> have no buffer, so sending on one and receiving from it is one
  step of both sides. Events are the steps of the goroutines; one that is not possible changes
  nothing. Messages are dispatched by \<open>chan_turn\<close>.
\<close>

section \<open>One connection\<close>

text \<open>
  The client is blocked in \<open>acceptChan <- handshake\<close>, then in \<open><-serverChanInfo\<close>, then has the connection, and has closed
  \<open>connClose\<close> at the end.
\<close>

datatype chan_client = Dialling | AwaitChan | Connected | ConnClosed

text \<open>
  The goroutine of the connection: not started, before \<open>serverChanInfo <- recvChan\<close>, before the call of
  \<open>fnOnConnect\<close>, in its loop, returned because the service took the connection over, returned.
\<close>

datatype chan_server = NoRoutine | Handing | Connecting | Serving | TakenOver | Returned

record chanAttempt =
  at_client :: chan_client
  at_server :: chan_server
  at_conn :: "nat chanConn"
  at_sent :: "nat transportMsg list"
  at_hooks :: "conn_event list"

definition new_chanConn :: "nat \<Rightarrow> nat chanConn" where
  "new_chanConn n = \<lparr>cc_closing = False, cc_recv = make_chan n, cc_state = new_connState, cc_ended = False\<rparr>"

definition new_attempt :: chanAttempt where
  "new_attempt = \<lparr>at_client = Dialling, at_server = NoRoutine, at_conn = new_chanConn 0, at_sent = [], at_hooks = []\<rparr>"

datatype attempt_event =
    TakeDial
  | HandOver
  | CallOnConnect bool
  | ClientSend "nat transportMsg"
  | ClientClose
  | SeeClose
  | Turn

text \<open>\<open>Ret None\<close> is not possible or blocking. Streams of a closed connection can still be used by the client.\<close>

fun attempt_step ::
  "(gotype \<Rightarrow> bool) \<Rightarrow> service \<Rightarrow> govalue \<Rightarrow> bool \<Rightarrow> attempt_event \<Rightarrow> chanAttempt \<Rightarrow> chanAttempt option outcome" where
  "attempt_step handles svc mqv running TakeDial a =
     Ret (if running \<and> at_client a = Dialling then Some (a\<lparr>at_client := AwaitChan, at_server := Handing\<rparr>) else None)"
| "attempt_step handles svc mqv running HandOver a =
     Ret (if at_client a = AwaitChan \<and> at_server a = Handing
          then Some (a\<lparr>at_client := Connected, at_server := Connecting, at_conn := new_chanConn (svc_qsize svc)\<rparr>) else None)"
| "attempt_step handles svc mqv running (CallOnConnect takeOver) a =
     Ret (if at_server a \<noteq> Connecting then None
          else if fnOnConnect svc
          then Some (a\<lparr>at_hooks := at_hooks a @ [OnConnect], at_server := if takeOver then TakenOver else Serving\<rparr>)
          else Some (a\<lparr>at_server := Serving\<rparr>))"
| "attempt_step handles svc mqv running (ClientSend tm) a =
     (if at_client a \<in> {Dialling, AwaitChan} then Ret None
      else bind_outcome (chan_send tm (cc_recv (at_conn a))) (\<lambda>r.
        Ret (map_option (\<lambda>ch. a\<lparr>at_conn := (at_conn a)\<lparr>cc_recv := ch\<rparr>, at_sent := at_sent a @ [tm]\<rparr>) r)))"
| "attempt_step handles svc mqv running ClientClose a =
     (case at_client a of
        Connected \<Rightarrow> Ret (Some (a\<lparr>at_client := ConnClosed\<rparr>))
      | ConnClosed \<Rightarrow> Panic ''close of closed channel''
      | _ \<Rightarrow> Ret None)"
| "attempt_step handles svc mqv running SeeClose a =
     Ret (if at_server a = Serving \<and> at_client a = ConnClosed
          then map_option (\<lambda>c. a\<lparr>at_conn := c\<rparr>) (chan_turn handles svc mqv (svc_qsize svc) CloseSeen (at_conn a)) else None)"
| "attempt_step handles svc mqv running Turn a =
     Ret (if at_server a = Serving
          then map_option (\<lambda>c.
                 let a = a\<lparr>at_conn := c\<rparr> in
                 if cc_ended c
                 then a\<lparr>at_server := Returned, at_hooks := at_hooks a @ (if fnOnDisconnect svc then [OnDisconnect] else [])\<rparr>
                 else a) (chan_turn handles svc mqv (svc_qsize svc) Incoming (at_conn a))
          else None)"

section \<open>The transport\<close>

record chanTransport =
  ct_closed :: bool
  ct_running :: bool
  ct_attempts :: "chanAttempt list"
  ct_panic :: bool

definition new_chanTransport :: chanTransport where
  "new_chanTransport = \<lparr>ct_closed = False, ct_running = True, ct_attempts = [], ct_panic = False\<rparr>"

datatype ct_event = Dial | CloseTransport | StopReceiver | At nat attempt_event

definition ct_step :: "(gotype \<Rightarrow> bool) \<Rightarrow> service \<Rightarrow> govalue \<Rightarrow> chanTransport \<Rightarrow> ct_event \<Rightarrow> chanTransport" where
  "ct_step handles svc mqv s e =
     (if ct_panic s then s
      else case e of
          Dial \<Rightarrow> s\<lparr>ct_attempts := ct_attempts s @ [new_attempt]\<rparr>
        | CloseTransport \<Rightarrow> if ct_closed s then s\<lparr>ct_panic := True\<rparr> else s\<lparr>ct_closed := True\<rparr>
        | StopReceiver \<Rightarrow> if ct_closed s then s\<lparr>ct_running := False\<rparr> else s
        | At j ev \<Rightarrow>
            if j < length (ct_attempts s) then
              (case attempt_step handles svc mqv (ct_running s) ev (ct_attempts s ! j) of
                 Panic err \<Rightarrow> s\<lparr>ct_panic := True\<rparr>
               | Ret None \<Rightarrow> s
               | Ret (Some a) \<Rightarrow> s\<lparr>ct_attempts := (ct_attempts s)[j := a]\<rparr>)
            else s)"

section \<open>The life of a connection\<close>

text \<open>The calls of the service's functions, given where the goroutine is.\<close>

fun hooks_of :: "service \<Rightarrow> chan_server \<Rightarrow> conn_event list" where
  "hooks_of svc Serving = (if fnOnConnect svc then [OnConnect] else [])"
| "hooks_of svc TakenOver = [OnConnect]"
| "hooks_of svc Returned = (if fnOnConnect svc then [OnConnect] else []) @ (if fnOnDisconnect svc then [OnDisconnect] else [])"
| "hooks_of svc _ = []"

text \<open>What was sent is dispatched or still in the channel.\<close>

definition flow_ok :: "(gotype \<Rightarrow> bool) \<Rightarrow> service \<Rightarrow> govalue \<Rightarrow> chanAttempt \<Rightarrow> bool" where
  "flow_ok handles svc mqv a \<longleftrightarrow>
     list_all (\<lambda>tm. tm_decErr tm = None) (at_sent a) \<and>
     (\<exists>done. at_sent a = done @ buffered (cc_recv (at_conn a)) \<and>
        dispatch_all handles svc mqv done new_connState = Some (cc_state (at_conn a)))"

text \<open>Which states of the two sides go together.\<close>

fun sides_ok :: "chan_client \<Rightarrow> chan_server \<Rightarrow> bool" where
  "sides_ok Dialling s = (s = NoRoutine)"
| "sides_ok AwaitChan s = (s = Handing)"
| "sides_ok Connected s = (s \<in> {Connecting, Serving, TakenOver})"
| "sides_ok ConnClosed s = (s \<in> {Connecting, Serving, TakenOver, Returned})"

definition attempt_inv :: "(gotype \<Rightarrow> bool) \<Rightarrow> service \<Rightarrow> govalue \<Rightarrow> chanAttempt \<Rightarrow> bool" where
  "attempt_inv handles svc mqv a \<longleftrightarrow>
     flow_ok handles svc mqv a \<and> sides_ok (at_client a) (at_server a) \<and> at_hooks a = hooks_of svc (at_server a) \<and>
     (at_client a \<in> {Dialling, AwaitChan} \<longrightarrow> at_sent a = []) \<and>
     closed (cc_recv (at_conn a)) = cc_closing (at_conn a) \<and> cc_ended (at_conn a) = (at_server a = Returned) \<and>
     (cc_closing (at_conn a) \<longrightarrow> at_client a = ConnClosed \<and> at_server a \<in> {Serving, Returned}) \<and>
     (at_server a = Returned \<longrightarrow> cc_closing (at_conn a) \<and> buffered (cc_recv (at_conn a)) = [])"

definition event_ok :: "ct_event \<Rightarrow> bool" where
  "event_ok e = (case e of At j (ClientSend tm) \<Rightarrow> tm_decErr tm = None | _ \<Rightarrow> True)"

lemma dispatch_all_snoc:
  "dispatch_all handles svc mqv (tms @ [tm]) st =
     Option.bind (dispatch_all handles svc mqv tms st) (stream_dispatch handles svc mqv tm)"
  by (induction tms arbitrary: st) (auto split: option.split)

lemma new_attempt_inv: "attempt_inv handles svc mqv new_attempt"
  by (simp add: attempt_inv_def flow_ok_def new_attempt_def new_chanConn_def make_chan_def)

lemma flow_send:
  assumes "flow_ok handles svc mqv a" and "chan_send tm (cc_recv (at_conn a)) = Ret (Some ch)" and "tm_decErr tm = None"
  shows "flow_ok handles svc mqv (a\<lparr>at_conn := (at_conn a)\<lparr>cc_recv := ch\<rparr>, at_sent := at_sent a @ [tm]\<rparr>)"
  using assms by (auto simp: flow_ok_def chan_send_def split: if_splits)

lemma flow_turn:
  assumes "flow_ok handles svc mqv a" and "chan_turn handles svc mqv (svc_qsize svc) ch (at_conn a) = Some c"
  shows "flow_ok handles svc mqv (a\<lparr>at_conn := c\<rparr>)"
proof (cases ch)
  case CloseSeen
  then show ?thesis using assms by (auto simp: flow_ok_def chan_turn_def split: if_splits)
next
  case Incoming
  show ?thesis
  proof (cases "buffered (cc_recv (at_conn a))")
    case Nil
    then show ?thesis
      using assms Incoming by (auto simp: flow_ok_def chan_turn_def chan_recv_def split: if_splits)
  next
    case (Cons tm tms)
    with assms(1) obtain dn where d: "at_sent a = dn @ tm # tms" "dispatch_all handles svc mqv dn new_connState = Some (cc_state (at_conn a))"
      and e: "tm_decErr tm = None" "list_all (\<lambda>tm. tm_decErr tm = None) (at_sent a)"
      by (auto simp: flow_ok_def)
    from assms(2) Incoming Cons obtain st where st: "stream_dispatch handles svc mqv tm (cc_state (at_conn a)) = Some st"
      and c: "c = (at_conn a)\<lparr>cc_recv := (cc_recv (at_conn a))\<lparr>buffered := tms\<rparr>, cc_state := st\<rparr>"
      by (auto simp: chan_turn_def chan_recv_def chan_stream_dispatch [OF e(1)] split: if_splits)
    show ?thesis
      unfolding flow_ok_def
      by (intro conjI exI [of _ "dn @ [tm]"]) (use d e st c in \<open>simp_all add: dispatch_all_snoc\<close>)
  qed
qed

lemma chan_turn_fields:
  assumes "chan_turn handles svc mqv n ch c = Some c'"
  shows "closed (cc_recv c) = cc_closing c \<Longrightarrow> closed (cc_recv c') = cc_closing c'"
    and "cc_closing c' = (cc_closing c \<or> ch = CloseSeen)"
    and "\<not> cc_ended c \<Longrightarrow> cc_ended c' \<longleftrightarrow> ch = Incoming \<and> buffered (cc_recv c) = []"
    and "cc_ended c' \<Longrightarrow> \<not> cc_ended c \<Longrightarrow> cc_recv c' = cc_recv c \<and> closed (cc_recv c)"
  using assms by (auto simp: chan_turn_def chan_recv_def split: chan_choice.splits if_splits list.splits)

lemma attempt_step_inv:
  assumes inv: "attempt_inv handles svc mqv a" and ok: "event_ok (At j ev)"
    and step: "attempt_step handles svc mqv running ev a = Ret (Some a')"
  shows "attempt_inv handles svc mqv a'"
proof (cases ev)
  case (ClientSend tm)
  with step obtain ch where ch: "chan_send tm (cc_recv (at_conn a)) = Ret (Some ch)"
    and a': "a' = a\<lparr>at_conn := (at_conn a)\<lparr>cc_recv := ch\<rparr>, at_sent := at_sent a @ [tm]\<rparr>"
    and "at_client a \<notin> {Dialling, AwaitChan}"
    by (auto simp: bind_outcome_Ret_iff split: if_splits)
  moreover have "\<not> closed (cc_recv (at_conn a))" "\<not> closed ch" using ch by (auto simp: chan_send_def split: if_splits)
  ultimately show ?thesis using inv flow_send [OF _ ch] ok ClientSend by (auto simp: attempt_inv_def event_ok_def)
next
  case SeeClose
  with step obtain c where c: "chan_turn handles svc mqv (svc_qsize svc) CloseSeen (at_conn a) = Some c"
    and sides: "at_server a = Serving" "at_client a = ConnClosed" and a': "a' = a\<lparr>at_conn := c\<rparr>"
    by (auto split: if_splits)
  have "flow_ok handles svc mqv a'" using inv flow_turn [OF _ c] by (simp add: attempt_inv_def a')
  with inv sides chan_turn_fields [OF c] show ?thesis by (auto simp: attempt_inv_def a')
next
  case Turn
  with step obtain c where c: "chan_turn handles svc mqv (svc_qsize svc) Incoming (at_conn a) = Some c"
    and sides: "at_server a = Serving" and a': "a' = (if cc_ended c then (a\<lparr>at_conn := c\<rparr>)\<lparr>at_server := Returned,
        at_hooks := at_hooks a @ (if fnOnDisconnect svc then [OnDisconnect] else [])\<rparr> else a\<lparr>at_conn := c\<rparr>)"
    by (auto simp: Let_def split: if_splits)
  have f: "flow_ok handles svc mqv (a\<lparr>at_conn := c\<rparr>)" using inv flow_turn [OF _ c] by (simp add: attempt_inv_def)
  then have "flow_ok handles svc mqv a'" by (auto simp: a' flow_ok_def)
  with inv sides chan_turn_fields [OF c] show ?thesis by (auto simp: attempt_inv_def a')
next
  case TakeDial
  with step have "at_client a = Dialling" and a': "a' = a\<lparr>at_client := AwaitChan, at_server := Handing\<rparr>" by (auto split: if_splits)
  with inv show ?thesis by (auto simp: attempt_inv_def flow_ok_def)
next
  case HandOver
  with step have "at_client a = AwaitChan"
    and a': "a' = a\<lparr>at_client := Connected, at_server := Connecting, at_conn := new_chanConn (svc_qsize svc)\<rparr>"
    by (auto split: if_splits)
  with inv show ?thesis by (simp add: attempt_inv_def flow_ok_def new_chanConn_def make_chan_def)
next
  case (CallOnConnect takeOver)
  with step have "at_server a = Connecting" and a': "a' = (if fnOnConnect svc
      then a\<lparr>at_hooks := at_hooks a @ [OnConnect], at_server := if takeOver then TakenOver else Serving\<rparr>
      else a\<lparr>at_server := Serving\<rparr>)"
    by (auto split: if_splits)
  with inv show ?thesis by (cases "at_client a") (simp_all add: attempt_inv_def flow_ok_def)
next
  case ClientClose
  with step have "at_client a = Connected" and a': "a' = a\<lparr>at_client := ConnClosed\<rparr>" by (auto split: chan_client.splits)
  with inv show ?thesis by (simp add: attempt_inv_def flow_ok_def) blast
qed

text \<open>The invariant of the transport, and that its events keep it.\<close>

definition ct_inv :: "(gotype \<Rightarrow> bool) \<Rightarrow> service \<Rightarrow> govalue \<Rightarrow> chanTransport \<Rightarrow> bool" where
  "ct_inv handles svc mqv s \<longleftrightarrow> list_all (attempt_inv handles svc mqv) (ct_attempts s)"

lemma ct_step_inv:
  assumes "ct_inv handles svc mqv s" and "event_ok e"
  shows "ct_inv handles svc mqv (ct_step handles svc mqv s e)"
proof (cases e)
  case (At j ev)
  have "attempt_inv handles svc mqv a'"
    if "j < length (ct_attempts s)" "attempt_step handles svc mqv (ct_running s) ev (ct_attempts s ! j) = Ret (Some a')" for a'
    using that assms At by (auto simp: ct_inv_def list_all_length intro: attempt_step_inv)
  then show ?thesis
    using assms(1) At by (auto simp: ct_step_def ct_inv_def list_all_length nth_list_update split: outcome.split option.split)
qed (use assms in \<open>auto simp: ct_step_def ct_inv_def new_attempt_inv\<close>)

interpretation chan_transport: transition "ct_step handles svc mqv" event_ok "ct_inv handles svc mqv"
  by unfold_locales (rule ct_step_inv)

text \<open>A client that dials when the receiver has stopped is blocked for good.\<close>

lemma dialling_forever:
  assumes "\<not> ct_running s" and "j < length (ct_attempts s)" and "at_client (ct_attempts s ! j) = Dialling"
  shows "at_client (ct_attempts (foldl (ct_step handles svc mqv) s es) ! j) = Dialling"
  using assms
proof (induction es arbitrary: s)
  case (Cons e es)
  let ?s = "ct_step handles svc mqv s e"
  have keep: "at_client a' = Dialling"
    if "attempt_step handles svc mqv False ev a = Ret (Some a')" "at_client a = Dialling" for ev a a'
    using that by (cases ev) (auto simp: Let_def split: if_splits)
  have "\<not> ct_running ?s \<and> j < length (ct_attempts ?s) \<and> at_client (ct_attempts ?s ! j) = Dialling"
    using Cons.prems keep
    by (auto simp: ct_step_def nth_append nth_list_update split: ct_event.split outcome.split option.split)
  with Cons.IH [of ?s] show ?case by simp
qed simp

text \<open>
  A message sent through a stream of a connection that the server has seen closed panics, where a stream over
  the network returns EOF.
\<close>

lemma send_after_close_panics:
  assumes "attempt_inv handles svc mqv a" and "cc_closing (at_conn a)"
  shows "attempt_step handles svc mqv running (ClientSend tm) a = Panic ''send on closed channel''"
  using assms by (auto simp: attempt_inv_def chan_send_def)

section \<open>Properties\<close>

text \<open>
  C10 (channel transport): whatever the clients, the receiver and the connections' goroutines do, and in whatever order, for every
  connection: \<open>fnOnConnect\<close> is called once before any message is dispatched and \<open>fnOnDisconnect\<close> once when the
  goroutine returns, unless the service took the connection over; what was dispatched is a prefix
  of what the client sent, in its order; and the goroutine returns only after the client closed the
  connection, with everything the client sent until then dispatched.
\<close>

theorem chan_connection_life:
  assumes "list_all event_ok es" and "a \<in> set (ct_attempts (foldl (ct_step handles svc mqv) new_chanTransport es))"
  shows "at_hooks a = hooks_of svc (at_server a) \<and>
    (\<exists>done rest. at_sent a = done @ rest \<and> dispatch_all handles svc mqv done new_connState = Some (cc_state (at_conn a)) \<and>
      (at_server a = Returned \<longrightarrow> rest = [] \<and> at_client a = ConnClosed))"
proof -
  have "ct_inv handles svc mqv new_chanTransport" by (simp add: ct_inv_def new_chanTransport_def)
  from chan_transport.run_inv [OF this assms(1)] assms(2) have inv: "attempt_inv handles svc mqv a"
    by (simp add: ct_inv_def list_all_iff)
  then obtain dn where "at_sent a = dn @ buffered (cc_recv (at_conn a))"
      "dispatch_all handles svc mqv dn new_connState = Some (cc_state (at_conn a))"
    by (auto simp: attempt_inv_def flow_ok_def)
  with inv show ?thesis
    by (intro conjI exI [of _ dn] exI [of _ "buffered (cc_recv (at_conn a))"]) (auto simp: attempt_inv_def)
qed

definition demo_life :: "ct_event list" where
  "demo_life = [Dial, At 0 TakeDial, At 0 HandOver, At 0 (ClientSend (demo_tm 5 ''M'')), At 0 (CallOnConnect False), At 0 ClientClose,
     At 0 SeeClose, At 0 Turn, At 0 Turn]"

definition demo_hooked :: service where
  "demo_hooked = demo_svc\<lparr>fnOnConnect := True, fnOnDisconnect := True\<rparr>"

theorem chan_connection_life_witness:
  "\<exists>a. ct_attempts (foldl (ct_step (\<lambda>t. True) demo_hooked (V (TPtr (TName ''msgQ'')) 1)) new_chanTransport demo_life) = [a] \<and>
     at_server a = Returned \<and> at_hooks a = [OnConnect, OnDisconnect] \<and> at_sent a = [demo_tm 5 ''M'']"
proof -
  let ?s = "foldl (ct_step (\<lambda>t. True) demo_hooked (V (TPtr (TName ''msgQ'')) 1)) new_chanTransport demo_life"
  obtain a where a: "ct_attempts ?s = [a]" "at_server a = Returned" "at_sent a = [demo_tm 5 ''M'']"
    by (simp add: demo_life_def ct_step_def new_chanTransport_def new_attempt_def new_chanConn_def chan_turn_def chan_recv_def
        chan_dispatch_def demo_hooked_def dispatch_simps)
  have "list_all event_ok demo_life" by (simp add: demo_life_def event_ok_def demo_tm_def)
  from chan_connection_life [OF this, of a "\<lambda>t. True" demo_hooked "V (TPtr (TName ''msgQ'')) 1"] a have "at_hooks a = [OnConnect, OnDisconnect]" by (simp add: demo_hooked_def)
  with a show ?thesis by blast
qed

end
