(* ===== verification/Diagnostics.thy ===== *)
theory Diagnostics
  imports Process ChanConnection Tracing
begin

text \<open>
  What a process tells about itself: the loggers (\<open>adaptiveservice.go\<close>), the addresses of channel connections (\<open>chantransportserver.go\<close>,
  \<open>chantransportclient.go\<close>) and the wait for trace records (\<open>tryWait\<close> in \<open>messagetracing.go\<close>). An argument of a format is its type and
  its text; the clock and the number of the goroutine are arguments.
\<close>

section \<open>Loggers\<close>

definition extra_args :: "(string \<times> string) list \<Rightarrow> string" where
  "extra_args as = (if as = [] then [] else ''%!(EXTRA '' @ str_join (map (\<lambda>(t, v). t @ ''='' @ v) as) '', '' @ '')'')"

text \<open>\<open>fmt.Sprintf\<close> for verbs with the flags \<open>#\<close> and \<open>+\<close>.\<close>

fun sprintf_from :: "bool \<Rightarrow> string \<Rightarrow> (string \<times> string) list \<Rightarrow> string" where
  "sprintf_from verb [] as = (if verb then ''%!(NOVERB)'' else []) @ extra_args as"
| "sprintf_from False (c # cs) as = (if c = CHR ''%'' then sprintf_from True cs as else c # sprintf_from False cs as)"
| "sprintf_from True (c # cs) as =
     (if c = CHR ''#'' \<or> c = CHR ''+'' then sprintf_from True cs as
      else if c = CHR ''%'' then c # sprintf_from False cs as
      else case as of
             [] \<Rightarrow> ''%!'' @ [c] @ ''(MISSING)'' @ sprintf_from False cs []
           | (t, v) # as' \<Rightarrow> v @ sprintf_from False cs as')"

definition Sprintf :: "string \<Rightarrow> (string \<times> string) list \<Rightarrow> string" where
  "Sprintf = sprintf_from False"

datatype log_level = Debug | Info | Warn | Error

fun level_tag :: "log_level \<Rightarrow> string" where
  "level_tag Debug = ''[AS DEBUG] ''"
| "level_tag Info = ''[AS INFO] ''"
| "level_tag Warn = ''[AS WARN] ''"
| "level_tag Error = ''[AS ERROR] ''"

definition LoggerNull_printf :: "log_level \<Rightarrow> string \<Rightarrow> int \<Rightarrow> string \<Rightarrow> (string \<times> string) list \<Rightarrow> string" where
  "LoggerNull_printf level now goid format as = []"

text \<open>The header becomes a part of the format.\<close>

definition LoggerAll_printf :: "log_level \<Rightarrow> string \<Rightarrow> int \<Rightarrow> string \<Rightarrow> (string \<times> string) list \<Rightarrow> string" where
  "LoggerAll_printf level now goid format as =
     (let h = Sprintf ''%v <<%v>> '' [(''string'', now), (''int64'', show_int goid)]
      in Sprintf (h @ level_tag level @ format @ [newline]) as)"

lemma sprintf_plain: "CHR ''%'' \<notin> set h \<Longrightarrow> Sprintf (h @ f) as = h @ Sprintf f as"
  unfolding Sprintf_def by (induction h) auto

fun verbs :: "bool \<Rightarrow> string \<Rightarrow> nat" where
  "verbs verb [] = 0"
| "verbs False (c # cs) = verbs (c = CHR ''%'') cs"
| "verbs True (c # cs) = (if c = CHR ''#'' \<or> c = CHR ''+'' then verbs True cs else if c = CHR ''%'' then verbs False cs else Suc (verbs False cs))"

fun complete :: "bool \<Rightarrow> string \<Rightarrow> bool" where
  "complete verb [] = (\<not> verb)"
| "complete False (c # cs) = complete (c = CHR ''%'') cs"
| "complete True (c # cs) = (if c = CHR ''#'' \<or> c = CHR ''+'' then complete True cs else complete False cs)"

lemma sprintf_append:
  assumes "complete verb f" and "length as = verbs verb f"
  shows "sprintf_from verb (f @ g) as = sprintf_from verb f as @ sprintf_from False g []"
  using assms
proof (induction verb f as rule: sprintf_from.induct)
  case (3 c cs as)
  then show ?case by (cases as) auto
qed (auto simp: extra_args_def)

lemma show_nat_no_percent: "CHR ''%'' \<notin> set (show_nat n)"
proof -
  have d: "CHR ''%'' \<noteq> char_of (48 + d)" if "d < 10" for d :: nat
  proof
    assume eq: "CHR ''%'' = char_of (48 + d)"
    have "(of_char (CHR ''%'') :: nat) = 37" by simp
    then have "(of_char (char_of (48 + d) :: char) :: nat) = 37" unfolding eq .
    with that show False by (simp add: take_bit_nat_def)
  qed
  have "CHR ''%'' \<notin> set acc \<Longrightarrow> CHR ''%'' \<notin> set (show_nat_acc n acc)" for acc
  proof (induction n acc rule: show_nat_acc.induct)
    case (1 n acc)
    then show ?case using d [of n] d [of "n mod 10"] by (subst show_nat_acc.simps) simp
  qed
  then show ?thesis by (simp add: show_nat_def)
qed

text \<open>A line is the header, the level and the formatted message, whatever the message's format does with its arguments.\<close>

lemma logger_line:
  assumes "CHR ''%'' \<notin> set now" and "complete False format" and "length as = verbs False format"
  shows "LoggerAll_printf level now goid format as =
    now @ '' <<'' @ show_int goid @ ''>> '' @ level_tag level @ Sprintf format as @ [newline]"
proof -
  let ?h = "now @ '' <<'' @ show_int goid @ ''>> '' @ level_tag level"
  have "CHR ''%'' \<notin> set ?h"
    using assms(1) show_nat_no_percent by (cases level) (simp_all add: show_int_def)
  then have "Sprintf (?h @ format @ [newline]) as = ?h @ Sprintf (format @ [newline]) as" by (rule sprintf_plain)
  moreover have "Sprintf (format @ [newline]) as = Sprintf format as @ [newline]"
    using sprintf_append [OF assms(2,3), of "[newline]"] by (simp add: Sprintf_def extra_args_def newline_def)
  ultimately show ?thesis by (simp add: LoggerAll_printf_def Sprintf_def extra_args_def Let_def)
qed

section \<open>Addresses of channel connections\<close>

fun show_hex_acc :: "nat \<Rightarrow> string \<Rightarrow> string" where
  "show_hex_acc n acc = (if n < 16 then hex_digit n # acc else show_hex_acc (n div 16) (hex_digit (n mod 16) # acc))"

declare show_hex_acc.simps [simp del]

definition chanAddr_String :: "64 word \<Rightarrow> string" where
  "chanAddr_String ca = ''0x'' @ show_hex_acc (unat ca) []"

definition chanAddr_Network :: "64 word \<Rightarrow> string" where
  "chanAddr_Network ca = ''chan''"

record chanconn =
  localAddr :: "64 word"
  remoteAddr :: "64 word"

text \<open>
  The addresses are those of variables: the field \<open>closed\<close> of the transport, the client's field \<open>connClose\<close>, and the variable \<open>connClose\<close> in
  which the goroutine of the connection keeps a copy of it.
\<close>

definition client_GetNetconn :: "64 word \<Rightarrow> 64 word \<Rightarrow> chanconn" where
  "client_GetNetconn conn_addr closed_addr = \<lparr>localAddr = conn_addr, remoteAddr = closed_addr\<rparr>"

definition server_GetNetconn :: "64 word \<Rightarrow> 64 word \<Rightarrow> chanconn" where
  "server_GetNetconn closed_addr own_addr = \<lparr>localAddr = closed_addr, remoteAddr = own_addr\<rparr>"

definition hex_val :: "nat \<Rightarrow> char \<Rightarrow> nat" where
  "hex_val n c = 16 * n + (case find (\<lambda>d. hex_digit d = c) [0..<16] of Some d \<Rightarrow> d | None \<Rightarrow> 0)"

lemma hex_val_digit: "d < 16 \<Longrightarrow> hex_val n (hex_digit d) = 16 * n + d"
proof -
  assume d: "d < 16"
  have "find (\<lambda>d'. hex_digit d' = hex_digit d) [0..<16] = Some d"
    using d hex_digit_inj by (auto simp: find_Some_iff intro!: exI [of _ d])
  then show ?thesis by (simp add: hex_val_def)
qed

lemma show_hex_val: "foldl hex_val 0 (show_hex_acc n acc) = foldl hex_val n acc"
proof (induction n acc rule: show_hex_acc.induct)
  case (1 n acc)
  show ?case
  proof (cases "n < 16")
    case True
    then show ?thesis by (simp add: show_hex_acc.simps [of n] hex_val_digit)
  next
    case False
    have "foldl hex_val 0 (show_hex_acc n acc) = foldl hex_val (hex_val (n div 16) (hex_digit (n mod 16))) acc"
      using 1 [OF False] False by (simp add: show_hex_acc.simps [of n])
    also have "hex_val (n div 16) (hex_digit (n mod 16)) = n" by (simp add: hex_val_digit)
    finally show ?thesis .
  qed
qed

lemma chanAddr_String_inj: "chanAddr_String a = chanAddr_String b \<longleftrightarrow> a = b"
proof
  assume "chanAddr_String a = chanAddr_String b"
  then have "foldl hex_val 0 (show_hex_acc (unat a) []) = foldl hex_val 0 (show_hex_acc (unat b) [])"
    by (simp only: chanAddr_String_def append_same_eq same_append_eq)
  then have "unat a = unat b" by (simp only: show_hex_val foldl_Nil)
  then show "a = b" by (simp add: word_unat_eq_iff)
qed simp

text \<open>
  Both sides agree on the server's address, but the server shows its own variable as the address of the client, which the client does not know.
\<close>

lemma chan_peers_differ:
  assumes "conn_addr \<noteq> own_addr"
  shows "remoteAddr (client_GetNetconn conn_addr closed_addr) = localAddr (server_GetNetconn closed_addr own_addr) \<and>
    chanAddr_String (localAddr (client_GetNetconn conn_addr closed_addr)) \<noteq> chanAddr_String (remoteAddr (server_GetNetconn closed_addr own_addr))"
  using assms by (simp add: client_GetNetconn_def server_GetNetconn_def chanAddr_String_inj)

section \<open>Waiting for trace records\<close>

text \<open>\<open>tryWait\<close> yields as often as there are records; \<open>yield\<close> is what the helper does meanwhile.\<close>

fun yields :: "nat \<Rightarrow> (msgTraceHelper \<Rightarrow> msgTraceHelper option) \<Rightarrow> msgTraceHelper \<Rightarrow> msgTraceHelper option" where
  "yields 0 yield h = Some h"
| "yields (Suc wait) yield h = Option.bind (yield h) (yields wait yield)"

definition tryWait :: "(msgTraceHelper \<Rightarrow> msgTraceHelper option) \<Rightarrow> msgTraceHelper \<Rightarrow> msgTraceHelper option" where
  "tryWait yield h = yields (th_len h) yield h"

definition deliver_one :: "(gomsg \<Rightarrow> string) \<Rightarrow> msgTraceHelper \<Rightarrow> msgTraceHelper option" where
  "deliver_one show_msg h = Option.bind (run_step show_msg TakeRaw h) (run_step show_msg (Delivered True))"

text \<open>If the helper delivers a record whenever it is given the processor, nothing is left when \<open>tryWait\<close> returns.\<close>

lemma tryWait_drains:
  assumes "th_pc h = Taking" and "tracedMsgChan h = Some ch" and "undelivered h = None"
  shows "\<exists>h'. tryWait (deliver_one show_msg) h = Some h' \<and> th_len h' = 0 \<and> th_sent h' = th_sent h @ map (make_record show_msg) (buffered ch)"
proof -
  have "\<exists>h'. yields (length raws) (deliver_one show_msg) h = Some h' \<and> th_len h' = 0 \<and> th_sent h' = th_sent h @ map (make_record show_msg) raws"
    if "buffered ch = raws" "th_pc h = Taking" "tracedMsgChan h = Some ch" "undelivered h = None" for raws h ch
    using that
  proof (induction raws arbitrary: h ch)
    case Nil
    then show ?case by (simp add: th_len_def th_buffered_def)
  next
    case (Cons raw raws)
    have "\<exists>h1. deliver_one show_msg h = Some h1 \<and> th_pc h1 = Taking \<and> tracedMsgChan h1 = Some (ch\<lparr>buffered := raws\<rparr>) \<and> undelivered h1 = None \<and>
        th_sent h1 = th_sent h @ [make_record show_msg raw]"
      using Cons.prems by (simp add: deliver_one_def chan_recv_def)
    then obtain h1 where "deliver_one show_msg h = Some h1" "th_pc h1 = Taking" "tracedMsgChan h1 = Some (ch\<lparr>buffered := raws\<rparr>)"
      "undelivered h1 = None" "th_sent h1 = th_sent h @ [make_record show_msg raw]" by blast
    with Cons.IH [of "ch\<lparr>buffered := raws\<rparr>" h1] show ?case by simp
  qed
  from this [OF refl assms] assms show ?thesis by (simp add: tryWait_def th_len_def th_buffered_def)
qed

end
