(* ===== verification/Spec2Isabelle.thy ===== *)
theory Spec2Isabelle
  imports NetRequest NestedCalls LANLoop StreamTransport Builtin Echo Timeouts ExampleServers Diagnostics
begin

text \<open>
  A verification development of adaptiveservice, a framework for message oriented services in Go.

  \<^bold>\<open>The program.\<close> A server publishes services under a publisher and a service name, in up to four scopes:
  its process, its host, its LAN and the WAN. Clients discover a service in these scopes, nearest first,
  and get connections, on which they open streams and send messages. The connection's receiver in the
  server hands messages with a handler to the server's message queue, whose workers run the handlers and
  send the replies; all other messages wait in the stream for the handler to receive them. Three
  registries tell clients where services are: the process and the operating system, a registry
  process per host that talks by broadcast (LAN), and the root registry (WAN). Messages can be traced on
  their way through all of this.

  \<^bold>\<open>The theories\<close>, each named after the part it models, from the ground up; definitions keep the names of
  the functions they translate.

  \<^item> \<open>Prelude\<close>: Go strings and maps, the outcomes of a call that may panic, and the contracts (locales)
    \<open>key_value\<close>, \<open>transition\<close> and \<open>simulation\<close>. \<open>Channel\<close>: buffered channels and the contract \<open>bounded_fifo\<close>.
  \<^item> \<open>Wildcard\<close> (\<open>WildcardMatch\<close> of \<open>adaptiveservice.go\<close>): the matcher decides the glob language.
  \<^item> \<open>Naming\<close> (\<open>registry.go\<close>, \<open>server.go\<close>): registry keys and socket addresses give the names back; the scopes.
  \<^item> \<open>LocalRegistry\<close> (\<open>registry.go\<close>): the services of the process and of the host. The files of the system are
    arguments.
  \<^item> \<open>WorkerPool\<close> (\<open>workerpool.go\<close>): a step relation over all interleavings; counters are exact, nothing panics,
    closing drains the pool if every worker got its channel.
  \<^item> \<open>MsgQ\<close> (\<open>scalamsgq.go\<close>): a step relation with puts, the goroutine \<open>reorder\<close>, workers and closing;
    no message is lost or doubled, classes keep their order, a round goes by priority, \<open>reorder\<close> is not
    stuck, the scaler reaches its target.
  \<^item> \<open>Providers\<close>, \<open>RootRegistry\<close>, \<open>LANRegistry\<close> (\<open>registry.go\<close>, \<open>lanregistry_svc.go\<close>): the tables refine maps; queries
    are exact; registrations expire only when unreachable for five minutes; record files restore the state; a
    service published at one host is found from another; the broadcast address. \<open>LANLoop\<close>: the goroutines of the LAN registry and
    the datagrams they read; every message is handled once and in order.
  \<^item> \<open>Framing\<close> (\<open>stream.go\<close> and the two stream transports): frames and handshake survive any chunking.
  \<^item> \<open>Messages\<close> (\<open>message.go\<close>, \<open>context.go\<close>, the type registry of \<open>adaptiveservice.go\<close>) and \<open>Transport\<close> (the four
    transport files): dispatch of a connection's messages into streams, queue and error replies; \<open>Send\<close>,
    \<open>Recv\<close> and \<open>SendRecv\<close> of the four kinds of streams, which share the contract \<open>message_stream\<close>; the
    client's receiver. Every message is routed once, in order, to its stream; closed connections are drained;
    EOF is final; a variable that \<open>Recv\<close> fills holds a value of its own type.
  \<^item> \<open>Connection\<close> (\<open>handleConn\<close>, \<open>newStreamConnection\<close>, the client's receiver): network connections from the bytes to the
    streams. A service sees the same whether its client uses channels or a network connection.
  \<^item> \<open>ChanConnection\<close> (\<open>chantransportclient.go\<close>, \<open>chantransportserver.go\<close>): dialling, the rendezvous of client and accept loop, the
    hooks and the end of connections over channels, for every interleaving of their goroutines.
  \<^item> \<open>StreamIO\<close> (\<open>adaptiveservice.go\<close>): byte streams over messages.
  \<^item> \<open>MessageTracer\<close> (\<open>messagetracing_svc.go\<close>) refines a bounded list in order of use. \<open>Tracing\<close>
    (\<open>messagetracing.go\<close>): the ids of a session, the helper goroutine, the report, which is the nested listing and
    the sequence diagram of the traced calls. \<open>NestedCalls\<close> (\<open>routinelocal.go\<close>): the id that a goroutine keeps while it handles
    a message; the trace of a request is that of the whole tree of requests below it, however requests run side by side.
  \<^item> \<open>Client\<close> (\<open>client.go\<close>, \<open>client_options.go\<close>, \<open>options.go\<close>): \<open>Discover\<close> over a list of worlds, one for each round:
    how many connections it makes, in which order of scopes, how long it waits, which providers it prefers.
  \<^item> \<open>Server\<close> (\<open>server.go\<close>, its options, the small built-in services): initialisation, publishing, serving, closing.
    Publishing opens the transports of the common scopes; closing removes everything that was opened.
  \<^item> \<open>ReverseProxy\<close> (\<open>reverseproxy_svc.go\<close>): registration of a service at a proxy, and the machine of proxied connections.
    \<open>Accept\<close>: which accepted connections reach the service. \<open>StreamTransport\<close> (\<open>streamtransportserver.go\<close>): the goroutines of a
    stream transport, with the reconnection to a proxy; every connection is served, closed or still on its way.
  \<^item> \<open>Discovery\<close>: \<open>Server\<close>, \<open>LocalRegistry\<close>, \<open>RootRegistry\<close> and \<open>Client\<close> composed: what is published is found from the process, from the host and
    through the root registry. \<open>Process\<close> (\<open>server.go\<close>, \<open>registry.go\<close>, \<open>adaptiveservice.go\<close>, \<open>stream.go\<close>): the provider ID, the broadcast addresses, the signal
    handler, the registered types. \<open>Timeouts\<close> (\<open>stream.go\<close>): receive timeouts in time; they are exact. \<open>Diagnostics\<close>: the lines of the loggers, the
    addresses of channel connections, the wait for trace records.
  \<^item> \<open>RequestReply\<close> (\<open>msgQ.worker\<close>) and \<open>NetRequest\<close>: client, connection, queue and worker composed, over channels and over
    the network; the properties of this theory.
  \<^item> \<open>Builtin\<close>, \<open>Echo\<close>, \<open>Examples\<close>, \<open>ExampleServers\<close> (under \<open>examples/\<close>): the command line tool's listing has one row for each
    provider with all its scopes; the echo service answers each client with its own numbers over shared memory; the services of the chain
    find each other in their process and answer through one another.

  \<^bold>\<open>How it is modelled.\<close> State is a record, an operation a function to the new state; a panic is \<open>Panic\<close>, blocking
  on a channel is \<open>None\<close>, an error is a value. Goroutines that share state are steps of an inductive relation
  (worker pool, queue) or events of a list (registries and their reader, tracing helper, nested requests, connections over
  channels, stream transport, subscriptions of the echo service), and the theorems hold for every order.
  Widths are kept where they matter: counters and sequence numbers have 32 bits, scopes 16, addresses and
  lengths are bytes. There is no fuel: loops are structural recursions, and the waiting loop of \<open>Discover\<close> runs
  over the list of the rounds' worlds; that the list suffices is part of its theorem. What is not in the
  repository is a parameter: the operating system, the network, the clock, UUIDs, reflection, the encoder
  (gotiny), float arithmetic, map order, and the handlers of the user; the storage local to goroutines of the package \<open>routine\<close> is a
  function of the goroutine.

  \<^bold>\<open>Deviations\<close> that the proofs met are theorems of their own: \<open>close_before_start_hangs\<close>, \<open>low_message_stranded\<close>,
  \<open>stale_worker_blocks_reorder\<close>, \<open>close_stops_reorder\<close>, \<open>bad_name_poisons_registry\<close>, \<open>lan_query_lost\<close>,
  \<open>concurrent_first_records_lost\<close>, \<open>used_up_session_not_restarted\<close>, \<open>failed_dial_not_retried\<close>,
  \<open>message_after_eof_blocks\<close>, \<open>reverse_proxy_connects_nobody\<close>, \<open>dialling_forever\<close>, \<open>send_after_close_panics\<close>,
  \<open>closed_service_registers_again\<close>, \<open>second_signal_ignored\<close>, \<open>timed_out_reply_goes_to_next\<close>, \<open>echo_subscriber_deadlock\<close>,
  \<open>same_address_forgotten\<close>, \<open>lan_close_missed\<close>, \<open>lan_reader_blocked\<close>, \<open>concurrent_init_panics\<close>, \<open>chan_peers_differ\<close>. That the echo service has to copy a request before it answers is \<open>echo_needs_copy\<close>.

  \<^bold>\<open>Not modelled.\<close> The encoder gotiny, a third-party module; what it does with a datagram that was cut. Of the examples the
  parsing of flags and the echo example's \<open>main\<close>. Of the package what remains are declarations (imports, interfaces, constants of formats),
  log calls, and \<open>escapes\<close>, a hint for the compiler.
\<close>

section \<open>Requests through a service\<close>

text \<open>
  C1 (requests): requests sent one after the other through a client's stream are answered in order: every
  \<open>SendRecv\<close> returns what the handler, run alone over the same messages, replies to its message, read
  into the caller's variable; no step of the client, the connection, the queue or the worker blocks,
  panics, loses or swaps a message, and the service ends in the state the handler alone would reach.
\<close>

theorem requests_in_order:
  fixes handle :: "'h \<Rightarrow> gomsg \<Rightarrow> 'h \<times> gomsg option"
  assumes "always_replies handle" and "0 < n" and "0 < qSizePerCore * numCPU"
    and "list_all (\<lambda>(tid, p, m). plain_request handles svc high low m \<and> p \<noteq> TargetBad) xs"
  shows "\<exists>sys'. chan_requests handles svc mqv high low new_tid handle xs
        (new_chanSystem i n resident qSizePerCore weight numCPU who h) =
      Some (map2 (\<lambda>(tid, p, m). client_view p) xs (fst (handler_run handle (map (snd \<circ> snd) xs) h)), sys') \<and>
    sy_h sys' = snd (handler_run handle (map (snd \<circ> snd) xs) h)"
  using chan_requests_rest [where handle = handle, OF assms(1) at_rest_new [OF assms(2,3)] assms(4)]
  unfolding sy_h_new by blast

text \<open>A service that counts its requests, in which every request asks for the count.\<close>

definition demo_count :: "nat \<Rightarrow> gomsg \<Rightarrow> nat \<times> gomsg option" where
  "demo_count h m = (Suc h, Some (MValue (V (TName ''int'') (Suc h))))"

definition demo_ask :: gomsg where
  "demo_ask = MValue (V (TName ''ask'') 0)"

definition demo_service :: service where
  "demo_service = \<lparr>publisherName = ''pub'', serviceName = ''svc'', svc_providerID = ''p'', knownMsgTypes = [TName ''ask''],
     msgTypeCheck = True, svc_scope = 1, useNamedUDS = False, fnOnConnect = False, fnOnDisconnect = False,
     fnOnNewStream = False, fnOnStreamClose = False, svc_qsize = 8\<rparr>"

lemma demo_always_replies: "always_replies demo_count"
  by (simp add: always_replies_def demo_count_def)

lemma demo_plain: "plain_request (\<lambda>t. True) demo_service (\<lambda>m. False) (\<lambda>m. False) demo_ask"
  by (simp add: plain_request_def canHandle_def demo_service_def demo_ask_def is_streamCloseMsg_def)

theorem requests_in_order_witness:
  "\<exists>sys'. chan_requests (\<lambda>t. True) demo_service (V (TPtr (TName ''msgQ'')) 0) (\<lambda>m. False) (\<lambda>m. False) (\<lambda>m. None) demo_count
      [(None, Target (TName ''int''), demo_ask), (None, Target (TName ''string''), demo_ask)]
      (new_chanSystem 1 8 1 8 0 4 ''pub/svc@p'' 0) =
    Some ([Received (Some (V (TName ''int'') 1)), RecvErr (OtherError ''message type mismatch'')], sys') \<and> sy_h sys' = 2"
  using requests_in_order [OF demo_always_replies, of 8 8 4 "\<lambda>t. True" demo_service "\<lambda>m. False" "\<lambda>m. False"
      "[(None, Target (TName ''int''), demo_ask), (None, Target (TName ''string''), demo_ask)]"
      "V (TPtr (TName ''msgQ'')) 0" "\<lambda>m. None" 1 1 0 "''pub/svc@p''" 0]
  by (simp add: demo_plain client_view_def recv_msg_def assign_def demo_count_def [of _ demo_ask] numeral_2_eq_2 del: chan_requests.simps)

text \<open>
  C2 (network requests): the same over a network connection. However the network cuts the frames into chunks, every
  \<open>SendRecv\<close> of a client returns what the handler, run alone over the same messages, replies to its message, and
  no step on the way (framing, decoding, dispatch, queue, worker, the client's receiver) blocks or fails, provided the
  encoder gives back the messages that are exchanged and none of them exceeds the limit.
\<close>

theorem network_requests_in_order:
  fixes handle :: "'h \<Rightarrow> gomsg \<Rightarrow> 'h \<times> gomsg option"
  assumes "always_replies handle" and "keeps_bytes chunks" and "0 < i" and "0 < n" and "0 < qSizePerCore * numCPU"
    and "list_all (\<lambda>(tid, p, m). plain_request handles svc high low m \<and> p \<noteq> TargetBad) xs"
    and "wire_ok enc dec too_large (exchanged i new_tid handle xs h)"
  shows "\<exists>sys'. net_requests enc dec chunks too_large handles svc mqv high low new_tid handle xs
        (new_netSystem i n resident qSizePerCore weight numCPU who h) =
      Some (map2 (\<lambda>(tid, p, m). client_view p) xs (fst (handler_run handle (map (snd \<circ> snd) xs) h)), sys') \<and>
    nw_h sys' = snd (handler_run handle (map (snd \<circ> snd) xs) h)"
  using net_requests_rest [where handle = handle and sys = "new_netSystem i n resident qSizePerCore weight numCPU who h",
      OF assms(1,2) net_at_rest_new [OF assms(3-5)] assms(6)] assms(7)
  unfolding new_netSystem_simps by blast

text \<open>An encoder of one byte for the messages of the counting service, and a network that delivers single bytes.\<close>

definition demo_byte :: "nat transportMsg \<Rightarrow> bytes" where
  "demo_byte tm = (case tm_msg tm of MValue (V t v) \<Rightarrow> [of_nat v] | _ \<Rightarrow> [])"

definition demo_unbyte :: "bytes \<Rightarrow> nat transportMsg \<times> string option" where
  "demo_unbyte bs =
     (reply_tm 5 None (if hd bs = 0 then demo_ask else MValue (V (TName ''int'') (unat (hd bs)))), None)"

theorem network_requests_in_order_witness:
  "\<exists>sys'. net_requests demo_byte demo_unbyte (map (\<lambda>b. [b])) (\<lambda>m. False) (\<lambda>t. True) demo_service (V (TPtr (TName ''msgQ'')) 0)
      (\<lambda>m. False) (\<lambda>m. False) (\<lambda>m. None) demo_count
      [(None, Target (TName ''int''), demo_ask), (None, Target (TName ''string''), demo_ask)]
      (new_netSystem 5 8 2 8 0 4 ''pub/svc@p'' 0) =
    Some ([Received (Some (V (TName ''int'') 1)), RecvErr (OtherError ''message type mismatch'')], sys') \<and> nw_h sys' = 2"
proof -
  let ?xs = "[(None, Target (TName ''int''), demo_ask), (None, Target (TName ''string''), demo_ask)] :: (uuidInfo option \<times> target \<times> gomsg) list"
  have k: "keeps_bytes (map (\<lambda>b. [b]))" by (simp add: keeps_bytes_def)
  have w: "wire_ok demo_byte demo_unbyte (\<lambda>m. False) (exchanged 5 (\<lambda>m. None) demo_count ?xs 0)"
    by (simp add: wire_ok_def carried_def demo_count_def reply_tid_def demo_byte_def demo_unbyte_def reply_tm_def demo_ask_def
        MaxInt32_def mk_feats_def take_bit_nat_def)
  show ?thesis
    using network_requests_in_order [OF demo_always_replies k, of 5 8 8 4 "\<lambda>t. True" demo_service "\<lambda>m. False" "\<lambda>m. False" ?xs,
        OF _ _ _ _ w, of "V (TPtr (TName ''msgQ'')) 0" 2 0 "''pub/svc@p''"]
    by (simp add: demo_plain client_view_def recv_msg_def assign_def demo_count_def [of _ demo_ask] numeral_2_eq_2 del: net_requests.simps)
qed

text \<open>
  C22 (tracing): a traced request leaves exactly four trace records, all under its id: the client's sending, the
  handler, the sending of the reply and the client's receiving; the reply carries the request's id
  without the handler doing anything for it.
\<close>

theorem request_traced:
  fixes handle :: "'h \<Rightarrow> gomsg \<Rightarrow> 'h \<times> gomsg option"
  assumes "always_replies handle" and "at_rest sys" and "plain_request handles svc high low m" and "p \<noteq> TargetBad"
    and "handle (sy_h sys) m = (h', Some r)"
  shows "\<exists>res sys'. chan_request handles svc mqv high low new_tid handle (Some u) p m sys = Some (res, sys') \<and>
    cs_traced (sy_cs sys') = cs_traced (sy_cs sys) @ [(m, u, ''client send''), (r, u, ''client recv'')] \<and>
    sv_traced (sy_ss sys') = sv_traced (sy_ss sys) @
      [(m, u, sv_who (sy_ss sys) @ '' handler''), (r, u, sv_who (sy_ss sys) @ '' send'')]"
proof -
  obtain h1 r1 where "handle (sy_h sys) m = (h1, Some r1)" "r1 \<noteq> MError io_EOF"
    using assms(1) unfolding always_replies_def by metis
  with assms(5) have "r \<noteq> MError io_EOF" by simp
  from chan_request_rest [where handle = handle and tid = "Some u" and mqv = mqv and new_tid = new_tid, OF assms(2,3,5) this assms(4)]
  show ?thesis by (simp add: note_trace_def reply_tid_def) blast
qed

theorem request_traced_witness:
  "\<exists>res sys'. chan_request (\<lambda>t. True) demo_service (V (TPtr (TName ''msgQ'')) 0) (\<lambda>m. False) (\<lambda>m. False) (\<lambda>m. None) demo_count
      (Some \<lparr>u_id = 3, u_seqNum = 7\<rparr>) TargetNil demo_ask (new_chanSystem 3 8 1 8 0 4 ''pub/svc@p'' 0) = Some (res, sys') \<and>
    map (snd \<circ> snd) (cs_traced (sy_cs sys')) = [''client send'', ''client recv''] \<and>
    map (snd \<circ> snd) (sv_traced (sy_ss sys')) = [''pub/svc@p handler'', ''pub/svc@p send'']"
proof -
  let ?sys = "new_chanSystem 3 8 1 8 0 4 ''pub/svc@p'' (0 :: nat)"
  have h: "demo_count (sy_h ?sys) demo_ask = (1, Some (MValue (V (TName ''int'') 1)))" by (simp add: demo_count_def)
  have t: "cs_traced (sy_cs ?sys) = []" "sv_traced (sy_ss ?sys) = []" "sv_who (sy_ss ?sys) = ''pub/svc@p''"
    by (simp_all add: new_chanSystem_def chan_NewStream_def)
  have rest: "at_rest ?sys" by (rule at_rest_new) simp_all
  have p: "TargetNil \<noteq> TargetBad" by simp
  obtain res sys' where *: "chan_request (\<lambda>t. True) demo_service (V (TPtr (TName ''msgQ'')) 0) (\<lambda>m. False) (\<lambda>m. False) (\<lambda>m. None)
      demo_count (Some \<lparr>u_id = 3, u_seqNum = 7\<rparr>) TargetNil demo_ask ?sys = Some (res, sys')"
    "map (snd \<circ> snd) (cs_traced (sy_cs sys')) = [''client send'', ''client recv'']"
    "map (snd \<circ> snd) (sv_traced (sy_ss sys')) = [''pub/svc@p handler'', ''pub/svc@p send'']"
    using request_traced [where handle = demo_count and mqv = "V (TPtr (TName ''msgQ'')) 0" and new_tid = "\<lambda>m. None"
        and u = "\<lparr>u_id = 3, u_seqNum = 7\<rparr>", OF demo_always_replies rest demo_plain p h] by (auto simp: t)
  then show ?thesis by (intro exI [of _ res] exI [of _ sys']) simp
qed

end
